(* ===== verification/Prelude.thy ===== *)
theory Prelude
  imports Main "HOL-Library.Word"
begin

text \<open>
  Shared vocabulary of the development: the exceptions of the program as values, the
  sequencing of fallible steps, the parts of the C++ standard library that several
  components use (decimal output of integers, erasing from a string, searching a string),
  and the generic lemmas on lists that the component proofs share.

  A call that can throw returns \<open>error + 'a\<close>: \<open>Inl\<close> is the exception that leaves the
  call, \<open>Inr\<close> the value it returns. Strings of the program (\<open>std::string\<close> of \<open>char\<close>) are
  HOL strings; a character is one byte.
\<close>

section \<open>Exceptions and fallible steps\<close>

text \<open>
  One constructor per exception class the program throws, or that a standard library
  function it calls throws, with the text of \<open>what()\<close>. \<open>Undefined\<close> stands for an execution
  with undefined behaviour (a null pointer dereference, a read of uninitialised memory).
\<close>

datatype error =
    Format_error string
  | Logic_error string
  | Runtime_error string
  | Length_error string
  | Parameter_error string
  | Bad_user_input string
  | Invalid_argument string
  | Out_of_range string
  | System_error string
  | Undefined string

type_synonym 'a res = "error + 'a"

definition rbind :: "'a res \<Rightarrow> ('a \<Rightarrow> 'b res) \<Rightarrow> 'b res" where
  "rbind r f = (case r of Inl e \<Rightarrow> Inl e | Inr a \<Rightarrow> f a)"

named_theorems res_iff \<open>inversion of a sequence of fallible steps\<close>

lemma rbind_Inl [simp]: "rbind (Inl e) f = Inl e"
  by (simp add: rbind_def)

lemma rbind_Inr [simp]: "rbind (Inr a) f = f a"
  by (simp add: rbind_def)

lemma rbind_eq_Inr_iff [res_iff]: "rbind r f = Inr b \<longleftrightarrow> (\<exists>a. r = Inr a \<and> f a = Inr b)"
  by (cases r) auto

lemma rbind_eq_Inl_iff [res_iff]:
  "rbind r f = Inl e \<longleftrightarrow> r = Inl e \<or> (\<exists>a. r = Inr a \<and> f a = Inl e)"
  by (cases r) auto

lemma rbind_assoc: "rbind (rbind r f) g = rbind r (\<lambda>a. rbind (f a) g)"
  by (cases r) simp_all

lemma rbind_cong [fundef_cong]:
  "r = r' \<Longrightarrow> (\<And>a. r' = Inr a \<Longrightarrow> f a = g a) \<Longrightarrow> rbind r f = rbind r' g"
  by (cases r') simp_all

section \<open>Actions on a state\<close>

text \<open>
  Code that changes a state and may throw: an exception keeps the changes made before it.
\<close>

type_synonym ('s, 'a) action = "'s \<Rightarrow> 'a res \<times> 's"

definition sreturn :: "'a \<Rightarrow> ('s, 'a) action" where
  "sreturn x s = (Inr x, s)"

definition sthrow :: "error \<Rightarrow> ('s, 'a) action" where
  "sthrow e s = (Inl e, s)"

definition sbind :: "('s, 'a) action \<Rightarrow> ('a \<Rightarrow> ('s, 'b) action) \<Rightarrow> ('s, 'b) action" where
  "sbind m f s = (case m s of (Inl e, s') \<Rightarrow> (Inl e, s') | (Inr x, s') \<Rightarrow> f x s')"

definition slift :: "'a res \<Rightarrow> ('s, 'a) action" where
  "slift r s = (r, s)"

lemma sreturn_apply [simp]: "sreturn x s = (Inr x, s)"
  by (simp add: sreturn_def)

lemma sthrow_apply [simp]: "sthrow e s = (Inl e, s)"
  by (simp add: sthrow_def)

lemma slift_apply [simp]: "slift r s = (r, s)"
  by (simp add: slift_def)

lemma sbind_Inr [simp]: "m s = (Inr x, s') \<Longrightarrow> sbind m f s = f x s'"
  by (simp add: sbind_def)

lemma sbind_Inl [simp]: "m s = (Inl e, s') \<Longrightarrow> sbind m f s = (Inl e, s')"
  by (simp add: sbind_def)

section \<open>Decimal output\<close>

text \<open>
  \<open>operator<<\<close> of an output stream and \<open>std::to_string\<close> write an integer in decimal,
  without leading zeros.
\<close>

definition digit_char :: "nat \<Rightarrow> char" where
  "digit_char d = char_of (48 + d)"

fun show_nat :: "nat \<Rightarrow> string" where
  "show_nat n = (if n < 10 then [digit_char n] else show_nat (n div 10) @ [digit_char (n mod 10)])"

declare show_nat.simps [simp del]

definition show_int :: "int \<Rightarrow> string" where
  "show_int i = (if i < 0 then CHR ''-'' # show_nat (nat (- i)) else show_nat (nat i))"

lemma show_nat_not_Nil [simp]: "show_nat n \<noteq> []"
  by (subst show_nat.simps) simp

lemma digit_char_code: "d < 10 \<Longrightarrow> of_char (digit_char d) = 48 + d"
  by (simp add: digit_char_def take_bit_eq_mod)

section \<open>Strings of the standard library\<close>

text \<open>
  \<open>s.erase(pos, n)\<close>, \<open>std::string{s, pos, n}\<close>, \<open>s.find_first_not_of(cs)\<close>,
  \<open>s.find_last_not_of(cs)\<close> and \<open>s.find(sub, pos)\<close>; \<open>None\<close> is \<open>npos\<close>.
\<close>

definition erase :: "nat \<Rightarrow> nat \<Rightarrow> 'a list \<Rightarrow> 'a list" where
  "erase pos n s = take pos s @ drop (pos + n) s"

definition substr :: "'a list \<Rightarrow> nat \<Rightarrow> nat \<Rightarrow> 'a list" where
  "substr s pos n = take n (drop pos s)"

fun find_first_not_of :: "'a list \<Rightarrow> 'a list \<Rightarrow> nat option" where
  "find_first_not_of [] cs = None"
| "find_first_not_of (x # xs) cs =
     (if x \<in> set cs then map_option Suc (find_first_not_of xs cs) else Some 0)"

fun find_last_not_of :: "'a list \<Rightarrow> 'a list \<Rightarrow> nat option" where
  "find_last_not_of [] cs = None"
| "find_last_not_of (x # xs) cs =
     (case find_last_not_of xs cs of
        Some i \<Rightarrow> Some (Suc i)
      | None \<Rightarrow> if x \<in> set cs then None else Some 0)"

fun starts_with :: "'a list \<Rightarrow> 'a list \<Rightarrow> bool" where
  "starts_with xs [] = True"
| "starts_with [] (y # ys) = False"
| "starts_with (x # xs) (y # ys) = (x = y \<and> starts_with xs ys)"

fun find0 :: "'a list \<Rightarrow> 'a list \<Rightarrow> nat option" where
  "find0 [] sub = (if sub = [] then Some 0 else None)"
| "find0 (x # xs) sub =
     (if starts_with (x # xs) sub then Some 0 else map_option Suc (find0 xs sub))"

definition find_from :: "'a list \<Rightarrow> 'a list \<Rightarrow> nat \<Rightarrow> nat option" where
  "find_from s sub pos =
     (if pos > length s then None else map_option ((+) pos) (find0 (drop pos s) sub))"

lemma starts_with_iff: "starts_with xs ys \<longleftrightarrow> (\<exists>zs. xs = ys @ zs)"
  by (induction xs ys rule: starts_with.induct) auto

lemma starts_with_take: "starts_with xs ys \<longleftrightarrow> take (length ys) xs = ys"
  by (induction xs ys rule: starts_with.induct) auto

lemma find0_Some:
  "find0 s sub = Some i \<Longrightarrow> i + length sub \<le> length s \<and> s = take i s @ sub @ drop (i + length sub) s"
proof (induction s arbitrary: i)
  case Nil
  then show ?case by (simp split: if_splits)
next
  case (Cons x xs)
  show ?case
  proof (cases "starts_with (x # xs) sub")
    case True
    then obtain zs where "x # xs = sub @ zs" by (auto simp: starts_with_iff)
    moreover from True Cons.prems have "i = 0" by simp
    ultimately show ?thesis by simp
  next
    case False
    with Cons.prems obtain j where "find0 xs sub = Some j" "i = Suc j" by auto
    with Cons.IH show ?thesis by simp
  qed
qed

lemma find0_None: "find0 s sub = None \<Longrightarrow> \<not> (\<exists>as bs. s = as @ sub @ bs)"
proof (induction s)
  case Nil
  then show ?case by (simp split: if_splits)
next
  case (Cons x xs)
  then have ih: "\<not> (\<exists>as bs. xs = as @ sub @ bs)" and ns: "\<not> starts_with (x # xs) sub"
    by (auto split: if_splits)
  show ?case
  proof
    assume "\<exists>as bs. x # xs = as @ sub @ bs"
    then obtain as bs where e: "x # xs = as @ sub @ bs" by blast
    show False
    proof (cases as)
      case Nil
      with e ns show False by (auto simp: starts_with_iff)
    next
      case (Cons a as')
      with e ih show False by auto
    qed
  qed
qed

lemma find0_least:
  "find0 s sub = Some i \<Longrightarrow> s = as @ sub @ bs \<Longrightarrow> i \<le> length as"
proof (induction s arbitrary: i as)
  case Nil
  then show ?case by (simp split: if_splits)
next
  case (Cons x xs)
  show ?case
  proof (cases as)
    case Nil
    with Cons.prems(2) have "starts_with (x # xs) sub" by (auto simp: starts_with_iff)
    with Cons.prems(1) show ?thesis by simp
  next
    case (Cons a as')
    with Cons.prems have xs: "xs = as' @ sub @ bs" by simp
    show ?thesis
    proof (cases "starts_with (x # xs) sub")
      case True
      with Cons.prems(1) show ?thesis by simp
    next
      case False
      with Cons.prems(1) obtain j where "find0 xs sub = Some j" "i = Suc j" by auto
      with Cons.IH [OF _ xs] Cons show ?thesis by simp
    qed
  qed
qed

lemma find_from_Some:
  assumes "find_from s sub pos = Some i"
  shows "pos \<le> i \<and> i + length sub \<le> length s \<and>
    drop pos s = take (i - pos) (drop pos s) @ sub @ drop (i + length sub) s"
proof -
  from assms obtain j where j: "find0 (drop pos s) sub = Some j" and i: "i = pos + j"
    and p: "pos \<le> length s"
    by (auto simp: find_from_def split: if_splits)
  from find0_Some [OF j] have "j + length sub \<le> length s - pos"
    "drop pos s = take j (drop pos s) @ sub @ drop (j + length sub) (drop pos s)"
    by simp_all
  with i p show ?thesis by (simp add: add.commute add.left_commute)
qed

section \<open>Lists\<close>

fun intercalate :: "'a list \<Rightarrow> 'a list list \<Rightarrow> 'a list" where
  "intercalate sep [] = []"
| "intercalate sep [x] = x"
| "intercalate sep (x # y # ys) = x @ sep @ intercalate sep (y # ys)"

lemma intercalate_Cons: "ys \<noteq> [] \<Longrightarrow> intercalate sep (x # ys) = x @ sep @ intercalate sep ys"
  by (cases ys) auto

lemma takeWhile_all: "(\<And>x. x \<in> set xs \<Longrightarrow> P x) \<Longrightarrow> takeWhile P xs = xs"
  by simp

text \<open>\<open>std::copy\<close> and \<open>memcpy\<close> into a buffer: the cells from \<open>pos\<close> on are overwritten.\<close>

definition write_at :: "nat \<Rightarrow> 'a list \<Rightarrow> 'a list \<Rightarrow> 'a list" where
  "write_at pos bs buf = take pos buf @ bs @ drop (pos + length bs) buf"

lemma length_write_at [simp]:
  "pos + length bs \<le> length buf \<Longrightarrow> length (write_at pos bs buf) = length buf"
  by (simp add: write_at_def)

lemma take_write_at:
  "pos + length bs \<le> length buf \<Longrightarrow> n = pos + length bs \<Longrightarrow>
   take n (write_at pos bs buf) = take pos buf @ bs"
  by (simp add: write_at_def)

lemma take_write_at_before:
  "n \<le> pos \<Longrightarrow> pos \<le> length buf \<Longrightarrow> take n (write_at pos bs buf) = take n buf"
  by (simp add: write_at_def min_def)

lemma drop_write_at:
  "pos + length bs \<le> length buf \<Longrightarrow> n = pos + length bs \<Longrightarrow> drop n (write_at pos bs buf) = drop n buf"
  by (simp add: write_at_def)

end
