(* ===== verification/Format_Text.thy ===== *)
theory Format_Text
  imports Prelude
begin

text \<open>
  The string formatter \<open>thallium::format\<close> (include/common.hpp, src/common.cpp): two
  overloads of \<open>_format\<close>, one that copies the rest of the format string when no argument
  is left, and one that consumes the format string up to the next hole \<open>{}\<close>, writes one
  argument there and calls itself with the other arguments.

  The index \<open>pos\<close> into \<open>fmt\<close> is represented by the suffix of \<open>fmt\<close> it points at; the
  stringstream \<open>ss\<close> by the text written so far. An argument is the text that
  \<open>operator<<\<close> writes for it.
\<close>

section \<open>The formatter\<close>

definition raise_left_brace_unmatch :: "string \<Rightarrow> error" where
  "raise_left_brace_unmatch fmt =
     Format_error (''Expecting '' @ [CHR 0x27, CHR 0x7B, CHR 0x27] @ '' in the brace pair: '' @ fmt)"

definition raise_right_brace_unmatch :: "string \<Rightarrow> error" where
  "raise_right_brace_unmatch fmt =
     Format_error (''Expecting '' @ [CHR 0x27, CHR 0x7D, CHR 0x27] @ '' in the brace pair: '' @ fmt)"

text \<open>
  \<open>__raise_too_many_args\<close> constructs the stringstream with its message and then writes the
  argument to it. A stringstream constructed from a string without \<open>ios_base::ate\<close> writes
  from position 0, so the argument overwrites the beginning of the message.
\<close>

definition overwrite :: "string \<Rightarrow> string \<Rightarrow> string" where
  "overwrite t s = t @ drop (length t) s"

definition raise_too_many_args :: "string \<Rightarrow> error" where
  "raise_too_many_args t = Format_error (overwrite t ''Too many argumetns given: '')"

definition raise_too_many_positions :: "string \<Rightarrow> error" where
  "raise_too_many_positions fmt =
     Format_error (''Too many format positions '' @ [CHR 0x27, CHR 0x7B, CHR 0x7D, CHR 0x27] @ fmt)"

text \<open>\<open>_format(ss, fmt, pos)\<close>: no argument is left.\<close>

fun format_rest :: "string \<Rightarrow> string \<Rightarrow> string \<Rightarrow> string res" where
  "format_rest fmt ss [] = Inr ss"
| "format_rest fmt ss [c] =
     (if c = CHR 0x7B then Inl (raise_right_brace_unmatch fmt)
      else if c = CHR 0x7D then Inl (raise_left_brace_unmatch fmt)
      else Inr (ss @ [c]))"
| "format_rest fmt ss (c # d # cs) =
     (if c = CHR 0x7B then
        (if d = CHR 0x7B then format_rest fmt (ss @ [c]) cs
         else if d = CHR 0x7D then Inl (raise_too_many_positions fmt)
         else Inl (raise_right_brace_unmatch fmt))
      else if c = CHR 0x7D then
        (if d = CHR 0x7D then format_rest fmt (ss @ [c]) cs
         else Inl (raise_left_brace_unmatch fmt))
      else format_rest fmt (ss @ [c]) (d # cs))"

text \<open>
  The loop of \<open>_format(ss, fmt, pos, t, args...)\<close> up to the hole for \<open>t\<close>: the text written
  and the suffix after the hole. An opening brace that is neither doubled nor closed at once
  is skipped: the case falls out of the inner \<open>if\<close> with nothing written.
\<close>

fun format_arg :: "string \<Rightarrow> string \<Rightarrow> string \<Rightarrow> string \<Rightarrow> (string \<times> string) res" where
  "format_arg fmt t ss [] = Inl (raise_too_many_args t)"
| "format_arg fmt t ss [c] =
     (if c = CHR 0x7B then Inl (raise_right_brace_unmatch fmt)
      else if c = CHR 0x7D then Inl (raise_left_brace_unmatch fmt)
      else Inl (raise_too_many_args t))"
| "format_arg fmt t ss (c # d # cs) =
     (if c = CHR 0x7B then
        (if d = CHR 0x7B then format_arg fmt t (ss @ [c]) cs
         else if d = CHR 0x7D then Inr (ss @ t, cs)
         else format_arg fmt t ss (d # cs))
      else if c = CHR 0x7D then
        (if d = CHR 0x7D then format_arg fmt t (ss @ [c]) cs
         else Inl (raise_left_brace_unmatch fmt))
      else format_arg fmt t (ss @ [c]) (d # cs))"

fun format_args :: "string \<Rightarrow> string list \<Rightarrow> string \<Rightarrow> string \<Rightarrow> string res" where
  "format_args fmt [] ss suf = format_rest fmt ss suf"
| "format_args fmt (t # ts) ss suf =
     rbind (format_arg fmt t ss suf) (\<lambda>(ss', suf'). format_args fmt ts ss' suf')"

definition format :: "string \<Rightarrow> string list \<Rightarrow> string res" where
  "format fmt args = format_args fmt args [] fmt"

section \<open>What a format string means\<close>

text \<open>
  A format string is read as a sequence of pieces: literal characters and holes. Its text
  doubles every literal brace; its value replaces the holes by the arguments in order.
\<close>

datatype piece = Lit char | Hole

fun piece_text :: "piece \<Rightarrow> string" where
  "piece_text (Lit c) = (if c = CHR 0x7B \<or> c = CHR 0x7D then [c, c] else [c])"
| "piece_text Hole = [CHR 0x7B, CHR 0x7D]"

definition pieces_text :: "piece list \<Rightarrow> string" where
  "pieces_text ps = concat (map piece_text ps)"

fun holes :: "piece list \<Rightarrow> nat" where
  "holes [] = 0"
| "holes (Lit c # ps) = holes ps"
| "holes (Hole # ps) = Suc (holes ps)"

fun fill :: "piece list \<Rightarrow> string list \<Rightarrow> string" where
  "fill [] ts = []"
| "fill (Lit c # ps) ts = c # fill ps ts"
| "fill (Hole # ps) (t # ts) = t @ fill ps ts"
| "fill (Hole # ps) [] = fill ps []"

text \<open>The pieces after the first hole, with the literals before it.\<close>

fun split_hole :: "piece list \<Rightarrow> (string \<times> piece list) option" where
  "split_hole [] = None"
| "split_hole (Lit c # ps) = map_option (\<lambda>(s, qs). (c # s, qs)) (split_hole ps)"
| "split_hole (Hole # ps) = Some ([], ps)"

lemma pieces_text_simps [simp]:
  "pieces_text [] = []"
  "pieces_text (p # ps) = piece_text p @ pieces_text ps"
  by (simp_all add: pieces_text_def)

lemma holes_0_split: "holes ps = 0 \<longleftrightarrow> split_hole ps = None"
  by (induction ps rule: holes.induct) auto

lemma split_hole_holes: "split_hole ps = Some (s, qs) \<Longrightarrow> holes ps = Suc (holes qs)"
  by (induction ps arbitrary: s rule: split_hole.induct) auto

lemma split_hole_fill: "split_hole ps = Some (s, qs) \<Longrightarrow> fill ps (t # ts) = s @ t @ fill qs ts"
  by (induction ps arbitrary: s rule: split_hole.induct) auto

text \<open>A literal is copied by both overloads, whatever follows it.\<close>

lemma format_rest_Lit:
  "format_rest fmt ss (piece_text (Lit c) @ suf) = format_rest fmt (ss @ [c]) suf"
  by (cases suf) auto

lemma format_arg_Lit:
  "format_arg fmt t ss (piece_text (Lit c) @ suf) = format_arg fmt t (ss @ [c]) suf"
  by (cases suf) auto

lemma format_rest_pieces:
  "format_rest fmt ss (pieces_text ps) =
     (if holes ps = 0 then Inr (ss @ fill ps []) else Inl (raise_too_many_positions fmt))"
proof (induction ps arbitrary: ss)
  case Nil
  then show ?case by simp
next
  case (Cons p ps)
  show ?case
  proof (cases p)
    case (Lit c)
    have "format_rest fmt ss (pieces_text (p # ps)) = format_rest fmt (ss @ [c]) (pieces_text ps)"
      using format_rest_Lit [of fmt ss c "pieces_text ps"] Lit by simp
    then show ?thesis using Cons.IH Lit by simp
  next
    case Hole
    then show ?thesis by simp
  qed
qed

lemma format_arg_pieces:
  "format_arg fmt t ss (pieces_text ps) =
     (case split_hole ps of
        None \<Rightarrow> Inl (raise_too_many_args t)
      | Some (s, qs) \<Rightarrow> Inr (ss @ s @ t, pieces_text qs))"
proof (induction ps arbitrary: ss)
  case Nil
  then show ?case by simp
next
  case (Cons p ps)
  show ?case
  proof (cases p)
    case (Lit c)
    have "format_arg fmt t ss (pieces_text (p # ps)) = format_arg fmt t (ss @ [c]) (pieces_text ps)"
      using format_arg_Lit [of fmt t ss c "pieces_text ps"] Lit by simp
    then show ?thesis using Cons.IH Lit by (auto split: option.splits)
  next
    case Hole
    then show ?thesis by simp
  qed
qed

lemma format_args_pieces:
  "format_args fmt ts ss (pieces_text ps) =
     (if length ts < holes ps then Inl (raise_too_many_positions fmt)
      else if length ts = holes ps then Inr (ss @ fill ps ts)
      else Inl (raise_too_many_args (ts ! holes ps)))"
proof (induction ts arbitrary: ss ps)
  case Nil
  then show ?case by (simp add: format_rest_pieces)
next
  case (Cons t ts)
  show ?case
  proof (cases "split_hole ps")
    case None
    then have "holes ps = 0" by (simp add: holes_0_split)
    with None show ?thesis by (simp add: format_arg_pieces)
  next
    case (Some sq)
    then obtain s qs where sq: "split_hole ps = Some (s, qs)" by (cases sq) auto
    from split_hole_holes [OF sq] split_hole_fill [OF sq] Cons.IH sq
    show ?thesis by (simp add: format_arg_pieces)
  qed
qed

section \<open>Properties\<close>

text \<open>
  On every well-formed format string (literal braces doubled), \<open>format\<close> does what its
  pieces say for any number of arguments: with as many arguments as holes it returns the
  text with the holes filled in order; with fewer it throws the "too many format positions"
  error; with more it throws the "too many arguments" error for the first superfluous
  argument.
\<close>

theorem format_pieces:
  "format (pieces_text ps) ts =
     (if length ts < holes ps then Inl (raise_too_many_positions (pieces_text ps))
      else if length ts = holes ps then Inr (fill ps ts)
      else Inl (raise_too_many_args (ts ! holes ps)))"
  by (simp add: format_def format_args_pieces)

end
