(* ===== verification/String_Tools.thy ===== *)
theory String_Tools
  imports Prelude
begin

text \<open>
  The string helpers of include/common.hpp: trimming, joining, splitting and the character
  classes. Positions are indices into the string; the algorithms are kept as the code has
  them (erasing at both ends, copying into a zeroed buffer, a search loop) and are proved
  equal to reference definitions.
\<close>

section \<open>Trimming\<close>

definition default_cutset :: string where
  "default_cutset = [CHR 0x20, CHR 0x0D, CHR 0x09, CHR 0x0A, CHR 0x09]"

text \<open>The same for wide characters, given by their codes.\<close>

definition default_wide_cutset :: "nat list" where
  "default_wide_cutset = [0x20, 0x0D, 0x09, 0x0A, 0x09]"

definition string_trim_modified :: "'a list \<Rightarrow> 'a list \<Rightarrow> 'a list" where
  "string_trim_modified s cutset =
     (if s = [] then s
      else if cutset = [] then s
      else case find_first_not_of s cutset of
             None \<Rightarrow> erase 0 (length s) s
           | Some l_pos \<Rightarrow>
               (case find_last_not_of s cutset of
                  None \<Rightarrow> s
                | Some last_pos \<Rightarrow>
                    (let r_pos = last_pos + 1;
                         s1 = (if r_pos < length s then erase r_pos (length s - r_pos) s else s)
                     in if l_pos > 0 then erase 0 l_pos s1 else s1)))"

definition string_trim_modified_default :: "string \<Rightarrow> string" where
  "string_trim_modified_default s = string_trim_modified s default_cutset"

text \<open>
  An argument is a string or a C string, given by its characters before the terminator; \<open>unify\<close>
  turns both into a string, and a null pointer into the empty string.
\<close>

datatype 'a text_arg = A_string "'a list" | A_cstr "'a list option"

fun unify :: "'a text_arg \<Rightarrow> 'a list" where
  "unify (A_string s) = s"
| "unify (A_cstr p) = (case p of None \<Rightarrow> [] | Some s \<Rightarrow> s)"

definition string_trim_with :: "'a text_arg \<Rightarrow> 'a text_arg \<Rightarrow> 'a list" where
  "string_trim_with s cutset = string_trim_modified (unify s) (unify cutset)"

definition string_trim :: "string \<Rightarrow> string" where
  "string_trim s = string_trim_with (A_string s) (A_string default_cutset)"

text \<open>Reference: drop the characters of the cutset from both ends.\<close>

definition strip :: "'a list \<Rightarrow> 'a list \<Rightarrow> 'a list" where
  "strip cs s = rev (dropWhile (\<lambda>x. x \<in> set cs) (rev (dropWhile (\<lambda>x. x \<in> set cs) s)))"

lemma find_first_not_of_all: "set s \<subseteq> set cs \<Longrightarrow> find_first_not_of s cs = None"
  by (induction s) auto

lemma find_last_not_of_all: "set s \<subseteq> set cs \<Longrightarrow> find_last_not_of s cs = None"
  by (induction s) auto

lemma find_first_not_of_append:
  "set as \<subseteq> set cs \<Longrightarrow> x \<notin> set cs \<Longrightarrow> find_first_not_of (as @ x # xs) cs = Some (length as)"
  by (induction as) auto

lemma find_last_not_of_append:
  "set bs \<subseteq> set cs \<Longrightarrow> x \<notin> set cs \<Longrightarrow> find_last_not_of (xs @ x # bs) cs = Some (length xs)"
  by (induction xs) (auto simp: find_last_not_of_all)

text \<open>
  Every string is either made of characters of the cutset, or has a middle part that starts
  and ends with other characters.
\<close>

lemma trim_cases:
  obtains (all) "set s \<subseteq> set cs"
  | (mid) as m bs where "s = as @ m @ bs" "set as \<subseteq> set cs" "set bs \<subseteq> set cs" "m \<noteq> []"
      "hd m \<notin> set cs" "last m \<notin> set cs"
proof (cases "set s \<subseteq> set cs")
  case True
  then show thesis by (rule all)
next
  case False
  then have "\<exists>x\<in>set s. x \<notin> set cs" by auto
  then obtain as b t where s: "s = as @ b # t" "b \<notin> set cs" "\<forall>x\<in>set as. \<not> x \<notin> set cs"
    by (rule split_list_first_propE)
  then have "\<exists>x\<in>set (b # t). x \<notin> set cs" by simp
  then obtain us c bs where t: "b # t = us @ c # bs" "c \<notin> set cs" "\<forall>x\<in>set bs. \<not> x \<notin> set cs"
    by (rule split_list_last_propE)
  show thesis
  proof (rule mid)
    show "s = as @ (us @ [c]) @ bs" using s t by simp
    show "hd (us @ [c]) \<notin> set cs" using s(2) t(1,2) by (cases us) auto
  qed (use s t in auto)
qed

lemma strip_all: "set s \<subseteq> set cs \<Longrightarrow> strip cs s = []"
proof -
  assume "set s \<subseteq> set cs"
  then have "dropWhile (\<lambda>x. x \<in> set cs) s = []" by (induction s) auto
  then show ?thesis by (simp only: strip_def rev.simps dropWhile.simps)
qed

lemma strip_mid:
  assumes "set as \<subseteq> set cs" "set bs \<subseteq> set cs" "m \<noteq> []" "hd m \<notin> set cs" "last m \<notin> set cs"
  shows "strip cs (as @ m @ bs) = m"
proof -
  let ?P = "\<lambda>x. x \<in> set cs"
  have "dropWhile ?P (as @ m @ bs) = dropWhile ?P (m @ bs)"
    using assms(1) by (intro dropWhile_append2) auto
  also have "\<dots> = m @ bs" using assms(3,4) by (cases m) auto
  finally have l: "dropWhile ?P (as @ m @ bs) = m @ bs" .
  have "dropWhile ?P (rev bs @ rev m) = dropWhile ?P (rev m)"
    using assms(2) by (intro dropWhile_append2) auto
  also have "\<dots> = rev m" using assms(3,5) by (cases m rule: rev_cases) auto
  finally show ?thesis using l by (simp add: strip_def)
qed

lemma string_trim_modified_strip: "string_trim_modified s cs = strip cs s"
proof (cases "s = [] \<or> cs = []")
  case True
  then show ?thesis by (auto simp: string_trim_modified_def strip_def)
next
  case ne: False
  show ?thesis
  proof (cases s cs rule: trim_cases)
    case all
    with ne show ?thesis
      by (simp add: string_trim_modified_def strip_all find_first_not_of_all erase_def)
  next
    case (mid as m bs)
    obtain x xs where mx: "m = x # xs" using mid(4) by (cases m) auto
    obtain ys y where my: "m = ys @ [y]" using mid(4) by (cases m rule: rev_cases) auto
    have f: "find_first_not_of s cs = Some (length as)"
      using find_first_not_of_append [of as cs x "xs @ bs"] mid mx by simp
    have l: "find_last_not_of s cs = Some (length (as @ ys))"
      using find_last_not_of_append [of bs cs y "as @ ys"] mid my by simp
    have "string_trim_modified s cs = m"
      using ne f l mid(1) my by (auto simp: string_trim_modified_def erase_def Let_def)
    then show ?thesis using strip_mid [OF mid(2-6)] mid(1) by simp
  qed
qed

lemma strip_ends:
  "strip cs s \<noteq> [] \<Longrightarrow> hd (strip cs s) \<notin> set cs \<and> last (strip cs s) \<notin> set cs"
  by (cases s cs rule: trim_cases) (auto simp: strip_all strip_mid)

lemma strip_idem: "strip cs (strip cs s) = strip cs s"
proof (cases s cs rule: trim_cases)
  case all
  then show ?thesis by (simp add: strip_all)
next
  case (mid as m bs)
  then show ?thesis using strip_mid [of "[]" cs "[]" m] by (simp add: strip_mid)
qed

lemma string_trim_strip: "string_trim s = strip default_cutset s"
  by (simp add: string_trim_def string_trim_with_def string_trim_modified_strip)

text \<open>The three ways to trim agree, and without a cutset nothing is trimmed.\<close>

lemma string_trim_overloads:
  "string_trim_modified_default s = string_trim s"
  "string_trim_with t (A_cstr None) = unify t"
  "string_trim_with (A_cstr (Some s)) (A_cstr (Some default_cutset)) = string_trim s"
  by (simp_all add: string_trim_modified_default_def string_trim_def string_trim_with_def string_trim_modified_def)

section \<open>Joining\<close>

text \<open>
  \<open>string_join\<close> allocates \<open>total_length + 1\<close> zeroed characters, copies the strings and the
  separators into it with \<open>memcpy\<close> and builds the result from the buffer as a C string.
  \<open>memcpy\<close> counts bytes while the code passes numbers of characters, so the model keeps
  the bytes: a character is the list of the \<open>w\<close> bytes of its object representation
  (\<open>w = sizeof(CharT)\<close>, 1 for \<open>char\<close>), the buffer a list of bytes, and \<open>pos\<close> an offset in
  bytes that advances by \<open>w\<close> for every character.
\<close>

type_synonym wchr = "8 word list"

fun join_loop :: "nat \<Rightarrow> wchr list \<Rightarrow> wchr list list \<Rightarrow> nat \<Rightarrow> 8 word list \<Rightarrow> 8 word list" where
  "join_loop w sep [] pos buf = buf"
| "join_loop w sep [s] pos buf = write_at pos (take (length s) (concat s)) buf"
| "join_loop w sep (s # t # ss) pos buf =
     (let buf1 = write_at pos (take (length s) (concat s)) buf;
          pos1 = pos + w * length s;
          buf2 = write_at pos1 (take (length sep) (concat sep)) buf1;
          pos2 = pos1 + w * length sep
      in join_loop w sep (t # ss) pos2 buf2)"

text \<open>The constructor \<open>String{new_str}\<close>: the characters before the first zero character.\<close>

function chars_until_nul :: "nat \<Rightarrow> 8 word list \<Rightarrow> wchr list" where
  "chars_until_nul w bs =
     (if w = 0 \<or> length bs < w \<or> take w bs = replicate w 0 then []
      else take w bs # chars_until_nul w (drop w bs))"
  by pat_completeness auto
termination
  by (relation "measure (\<lambda>(w, bs). length bs)") auto

declare chars_until_nul.simps [simp del]

definition string_join :: "nat \<Rightarrow> wchr list list \<Rightarrow> wchr list \<Rightarrow> wchr list" where
  "string_join w strs sep =
     (if strs = [] then []
      else let total_length = sum_list (map length strs) + (length strs - 1) * length sep
           in chars_until_nul w (join_loop w sep strs 0 (replicate ((total_length + 1) * w) 0)))"

text \<open>The overload for a separator that is a C string.\<close>

definition string_join_cstr :: "nat \<Rightarrow> wchr list list \<Rightarrow> wchr list option \<Rightarrow> wchr list" where
  "string_join_cstr w strs sep = string_join w strs (unify (A_cstr sep))"

lemma write_at_append:
  "pos + length a + length b \<le> length buf \<Longrightarrow>
   write_at (pos + length a) b (write_at pos a buf) = write_at pos (a @ b) buf"
  by (simp add: write_at_def ac_simps)

lemma concat_bytes_length: "\<forall>c\<in>set s. length c = 1 \<Longrightarrow> length (concat s) = length s"
  by (induction s) auto

lemma join_loop_bytes:
  assumes "\<forall>s\<in>set strs. \<forall>c\<in>set s. length c = 1" "\<forall>c\<in>set sep. length c = 1" "strs \<noteq> []"
    and "pos + length (concat (intercalate sep strs)) \<le> length buf"
  shows "join_loop 1 sep strs pos buf = write_at pos (concat (intercalate sep strs)) buf"
  using assms
proof (induction sep strs arbitrary: pos buf rule: intercalate.induct)
  case (3 sep x y ys)
  let ?r = "concat (intercalate sep (y # ys))"
  have lx: "length (concat x) = length x" "length (concat sep) = length sep"
    using "3.prems" by (simp_all add: concat_bytes_length)
  have len: "pos + length x + length sep + length ?r \<le> length buf"
    using "3.prems"(4) lx by simp
  let ?b1 = "write_at pos (concat x) buf"
  let ?b2 = "write_at (pos + length x) (concat sep) ?b1"
  have b2: "?b2 = write_at pos (concat x @ concat sep) buf"
    using write_at_append [of pos "concat x" "concat sep" buf] lx len by simp
  have "join_loop 1 sep (x # y # ys) pos buf
      = join_loop 1 sep (y # ys) (pos + length x + length sep) ?b2"
    using lx by (simp add: Let_def)
  also have "\<dots> = write_at (pos + length x + length sep) ?r ?b2"
    using "3.IH" [of "pos + length x + length sep" ?b2] "3.prems" lx len b2 by simp
  also have "\<dots> = write_at pos ((concat x @ concat sep) @ ?r) buf"
    using write_at_append [of pos "concat x @ concat sep" ?r buf] lx len b2
    by (simp add: add.assoc)
  finally show ?case by simp
qed (auto simp: concat_bytes_length)

lemma chars_until_nul_bytes:
  "\<forall>c\<in>set s. length c = 1 \<and> c \<noteq> [0] \<Longrightarrow> chars_until_nul 1 (concat s @ [0]) = s"
proof (induction s)
  case Nil
  then show ?case by (subst chars_until_nul.simps) simp
next
  case (Cons c s)
  then obtain b where "c = [b]" "b \<noteq> 0" by (cases c) auto
  with Cons show ?case by (subst chars_until_nul.simps) simp
qed

lemma intercalate_length:
  "strs \<noteq> [] \<Longrightarrow>
   length (intercalate sep strs) = sum_list (map length strs) + (length strs - 1) * length sep"
  by (induction sep strs rule: intercalate.induct) (auto simp: algebra_simps)

lemma set_intercalate: "set (intercalate sep strs) \<subseteq> set sep \<union> \<Union> (set ` set strs)"
  by (induction sep strs rule: intercalate.induct) auto

text \<open>
  Trimming as the code does it (find the first and the last character outside the
  cutset, erase the tail, erase the head) removes exactly the characters of the cutset at
  both ends: it equals the reference \<open>strip\<close>, a result that is not empty neither starts nor
  ends with a character of the cutset, and trimming again changes nothing.
\<close>

theorem string_trim_modified_correct:
  "string_trim_modified s cs = strip cs s \<and>
   (string_trim_modified s cs = [] \<or>
     (hd (string_trim_modified s cs) \<notin> set cs \<and> last (string_trim_modified s cs) \<notin> set cs)) \<and>
   string_trim_modified (string_trim_modified s cs) cs = string_trim_modified s cs"
  using strip_ends [of cs s] strip_idem [of cs s] by (auto simp: string_trim_modified_strip)

text \<open>
  For strings of one-byte characters without embedded zero characters, copying into the
  zeroed buffer with \<open>memcpy\<close> returns the strings with the separator between neighbours.
\<close>

theorem string_join_correct:
  assumes "\<forall>s\<in>set strs. \<forall>c\<in>set s. length c = 1 \<and> c \<noteq> [0]"
    and "\<forall>c\<in>set sep. length c = 1 \<and> c \<noteq> [0]"
  shows "string_join 1 strs sep = intercalate sep strs"
proof (cases "strs = []")
  case True
  then show ?thesis by (simp add: string_join_def)
next
  case False
  let ?r = "intercalate sep strs"
  have all: "\<forall>c\<in>set ?r. length c = 1 \<and> c \<noteq> [0]"
    using set_intercalate [of sep strs] assms by auto
  then have len: "length (concat ?r) = length ?r" by (simp add: concat_bytes_length)
  have "string_join 1 strs sep =
      chars_until_nul 1 (join_loop 1 sep strs 0 (replicate (length ?r + 1) 0))"
    using False by (simp add: string_join_def intercalate_length)
  also have rep: "replicate (length ?r + 1) (0::8 word) = replicate (length ?r) 0 @ [0]"
    by (simp add: replicate_append_same)
  also have "join_loop 1 sep strs 0 (replicate (length ?r) 0 @ [0]) = concat ?r @ [0]"
    using join_loop_bytes [of strs sep 0 "replicate (length ?r) 0 @ [0]"] assms False len
    by (simp add: write_at_def)
  finally show ?thesis using chars_until_nul_bytes [OF all] by simp
qed

theorem string_join_correct_witness:
  "string_join 1 [[[97], [98]], [], [[99]]] [[44]] = [[97], [98], [44], [44], [99]]"
  using string_join_correct [of "[[[97], [98]], [], [[99]]]" "[[44]]"] by simp

lemma replicate_4: "replicate 4 x = [x, x, x, x]"
  by (simp add: numeral_eq_Suc)

text \<open>
  For wide characters the byte count is wrong: a list with the one wide string
  \<open>L"ab"\<close> (four-byte little-endian characters) joins to \<open>L"a"\<close>, because \<open>memcpy\<close> copies
  two bytes instead of eight.
\<close>

theorem string_join_wide_truncates:
  "string_join 4 [[[97, 0, 0, 0], [98, 0, 0, 0]]] sep = [[97, 0, 0, 0]]"
  by (simp add: string_join_def chars_until_nul.simps write_at_def replicate_4)

section \<open>Splitting\<close>

text \<open>
  The loop of \<open>__string_split\<close>: find the next occurrence of \<open>substr\<close>, store the text before it,
  go on behind it. The loop runs only for a \<open>substr\<close> that is not empty (the function returns
  before it otherwise), which is repeated here as the guard of the search.
\<close>

function split_loop :: "'a list \<Rightarrow> 'a list \<Rightarrow> nat \<Rightarrow> 'a list list" where
  "split_loop s sub pre_pos =
     (case (if sub = [] then None else find_from s sub pre_pos) of
        None \<Rightarrow> [substr s pre_pos (length s - pre_pos)]
      | Some found \<Rightarrow> substr s pre_pos (found - pre_pos) # split_loop s sub (found + length sub))"
  by pat_completeness auto
termination
proof (relation "measure (\<lambda>(s, sub, pre). length s - pre)", goal_cases)
  case 1
  show ?case by simp
next
  case (2 s sub pre found)
  then have "sub \<noteq> []" "find_from s sub pre = Some found" by (auto split: if_splits)
  with find_from_Some [of s sub pre found] show ?case by (cases sub) auto
qed

declare split_loop.simps [simp del]

definition string_split :: "'a list \<Rightarrow> 'a list \<Rightarrow> 'a list list" where
  "string_split s sub = (if length s = 0 \<or> length sub = 0 then [s] else split_loop s sub 0)"

definition occurs :: "'a list \<Rightarrow> 'a list \<Rightarrow> bool" where
  "occurs sub s \<longleftrightarrow> find0 s sub \<noteq> None"

lemma occurs_iff: "occurs sub s \<longleftrightarrow> (\<exists>as bs. s = as @ sub @ bs)"
proof
  assume "occurs sub s"
  then obtain i where "find0 s sub = Some i" by (auto simp: occurs_def)
  from find0_Some [OF this] show "\<exists>as bs. s = as @ sub @ bs" by blast
next
  assume "\<exists>as bs. s = as @ sub @ bs"
  then show "occurs sub s" using find0_None [of s sub] by (auto simp: occurs_def)
qed

lemma split_loop_None:
  "sub \<noteq> [] \<Longrightarrow> find_from s sub pre = None \<Longrightarrow> split_loop s sub pre = [drop pre s]"
  by (subst split_loop.simps) (simp add: substr_def)

lemma split_loop_Some:
  "sub \<noteq> [] \<Longrightarrow> find_from s sub pre = Some found \<Longrightarrow>
   split_loop s sub pre = take (found - pre) (drop pre s) # split_loop s sub (found + length sub)"
  by (subst split_loop.simps) (simp add: substr_def)

lemma split_loop_not_Nil [simp]: "split_loop s sub pre \<noteq> []"
  by (subst split_loop.simps) (auto split: option.splits)

text \<open>Induction along the loop: the two ways one round can go.\<close>

lemma split_loop_induct [consumes 1, case_names last step]:
  assumes "sub \<noteq> []"
    and last: "\<And>pre. find_from s sub pre = None \<Longrightarrow> P pre"
    and step: "\<And>pre found. find_from s sub pre = Some found \<Longrightarrow> P (found + length sub) \<Longrightarrow> P pre"
  shows "P pre"
proof (induction "length s - pre" arbitrary: pre rule: less_induct)
  case less
  show ?case
  proof (cases "find_from s sub pre")
    case None
    then show ?thesis by (rule last)
  next
    case (Some found)
    have "length s - (found + length sub) < length s - pre"
      using find_from_Some [OF Some] assms(1) by (cases sub) auto
    then have "P (found + length sub)" by (rule less)
    with Some show ?thesis by (rule step)
  qed
qed

lemma intercalate_split_loop:
  assumes "sub \<noteq> []"
  shows "pre \<le> length s \<Longrightarrow> intercalate sub (split_loop s sub pre) = drop pre s"
  using assms
proof (induction pre rule: split_loop_induct [where s = s])
  case (last pre)
  then show ?case using assms by (simp add: split_loop_None)
next
  case (step pre found)
  note f = find_from_Some [OF step.hyps]
  with step have "intercalate sub (split_loop s sub (found + length sub)) = drop (found + length sub) s"
    by simp
  with step f assms show ?case
    by (simp add: split_loop_Some intercalate_Cons)
qed

lemma find_from_before:
  assumes "find_from s sub pre = Some found" "sub \<noteq> []"
  shows "\<not> occurs sub (take (found - pre) (drop pre s))"
proof
  assume "occurs sub (take (found - pre) (drop pre s))"
  then obtain as bs where e: "take (found - pre) (drop pre s) = as @ sub @ bs"
    by (auto simp: occurs_iff)
  from assms(1) obtain j where j: "find0 (drop pre s) sub = Some j" "found = pre + j"
    by (auto simp: find_from_def split: if_splits)
  have d: "drop pre s = as @ sub @ (bs @ drop j (drop pre s))"
    using e j(2) append_take_drop_id [of j "drop pre s"] by simp
  have "j \<le> length as" using find0_least [OF j(1) d] .
  moreover have "length as + length sub \<le> j"
    using arg_cong [OF e, of length] j(2) by simp
  ultimately show False using assms(2) by (cases sub) auto
qed

lemma split_loop_pieces:
  assumes "sub \<noteq> []"
  shows "pre \<le> length s \<Longrightarrow> p \<in> set (split_loop s sub pre) \<Longrightarrow> \<not> occurs sub p"
  using assms
proof (induction pre rule: split_loop_induct [where s = s])
  case (last pre)
  then have "find0 (drop pre s) sub = None" by (simp add: find_from_def split: if_splits)
  with last assms show ?case by (simp add: split_loop_None occurs_def)
next
  case (step pre found)
  note f = find_from_Some [OF step.hyps(1)]
  with step find_from_before [OF step.hyps(1)] assms show ?case
    by (auto simp: split_loop_Some)
qed

lemma string_split_join: "sub \<noteq> [] \<Longrightarrow> intercalate sub (string_split s sub) = s"
  using intercalate_split_loop [of sub 0 s] by (simp add: string_split_def)

lemma string_split_pieces: "sub \<noteq> [] \<Longrightarrow> p \<in> set (string_split s sub) \<Longrightarrow> \<not> occurs sub p"
  using split_loop_pieces [of sub 0 s p]
  by (auto simp: string_split_def occurs_iff split: if_splits)

lemma string_split_not_Nil [simp]: "string_split s sub \<noteq> []"
  by (simp add: string_split_def)

text \<open>
  For a separator of one character the pieces determine the string and the string the
  pieces: splitting undoes joining.
\<close>

lemma occurs_singleton [simp]: "occurs [c] s \<longleftrightarrow> c \<in> set s"
  by (auto simp: occurs_iff in_set_conv_decomp)

lemma first_split_unique:
  "c \<notin> set x \<Longrightarrow> c \<notin> set z \<Longrightarrow> x @ c # r = z @ c # q \<Longrightarrow> x = z \<and> r = q"
proof (induction x arbitrary: z)
  case Nil
  then show ?case by (cases z) auto
next
  case (Cons a x)
  then show ?case by (cases z) auto
qed

lemma intercalate_singleton_inj:
  assumes "ps \<noteq> []" "qs \<noteq> []" "\<forall>p\<in>set ps. c \<notin> set p" "\<forall>q\<in>set qs. c \<notin> set q"
    and "intercalate [c] ps = intercalate [c] qs"
  shows "ps = qs"
  using assms
proof (induction "[c]" ps arbitrary: qs rule: intercalate.induct)
  case (2 x)
  show ?case
  proof (cases "([c], qs)" rule: intercalate.cases)
    case (3 _ y z zs)
    then have "x = y @ c # intercalate [c] (z # zs)" using 2 by simp
    then have "c \<in> set x" by simp
    with 2 show ?thesis by simp
  qed (use 2 in auto)
next
  case left: (3 x y ys)
  show ?case
  proof (cases "([c], qs)" rule: intercalate.cases)
    case (2 _ z)
    then have "z = x @ c # intercalate [c] (y # ys)" using left.prems(5) by auto
    then have "c \<in> set z" by simp
    with left.prems 2 show ?thesis by simp
  next
    case (3 _ z w zs)
    have e: "x @ c # intercalate [c] (y # ys) = z @ c # intercalate [c] (w # zs)"
      using left.prems(5) 3 by auto
    have "c \<notin> set x" "c \<notin> set z" using left.prems 3 by auto
    with e have xz: "x = z" "intercalate [c] (y # ys) = intercalate [c] (w # zs)"
      using first_split_unique [of c x z] by blast+
    have "y # ys = w # zs"
      by (rule left.hyps) (use xz left.prems 3 in auto)
    with xz 3 show ?thesis by simp
  qed (use left.prems in auto)
qed simp

lemma string_split_intercalate:
  "ps \<noteq> [] \<Longrightarrow> \<forall>p\<in>set ps. c \<notin> set p \<Longrightarrow> string_split (intercalate [c] ps) [c] = ps"
  using string_split_pieces [of "[c]"]
  by (intro intercalate_singleton_inj [where c = c]) (auto simp: string_split_join)

text \<open>
  C39. Splitting at a separator that is not empty and joining the pieces with it gives the
  string back, no piece contains the separator, and splitting at one character undoes
  joining pieces that do not contain it.
\<close>

theorem string_split_correct:
  "(sub \<noteq> [] \<longrightarrow> intercalate sub (string_split s sub) = s \<and>
      (\<forall>p\<in>set (string_split s sub). \<not> occurs sub p)) \<and>
   (ps \<noteq> [] \<and> (\<forall>p\<in>set ps. c \<notin> set p) \<longrightarrow> string_split (intercalate [c] ps) [c] = ps)"
  using string_split_join [of sub s] string_split_pieces [of sub _ s]
    string_split_intercalate [of ps c] by blast

theorem string_split_correct_witness:
  "intercalate ''23'' (string_split ''12341234'' ''23'') = ''12341234'' \<and>
   string_split (intercalate [CHR ''.''] [''a'', '''', ''b'']) [CHR ''.''] = [''a'', '''', ''b'']"
  using string_split_correct [of "''23''" "''12341234''" "[''a'', '''', ''b'']" "CHR ''.''"] by simp

section \<open>Character classes\<close>

text \<open>\<open>char\<close> is compared by its code; the classes are ranges of ASCII codes.\<close>

definition char_code :: "char \<Rightarrow> nat" where
  "char_code c = of_char c"

definition is_digit :: "char \<Rightarrow> bool" where
  "is_digit c = (char_code c \<ge> char_code (CHR ''0'') \<and> char_code c \<le> char_code (CHR ''9''))"

definition is_lowercase :: "char \<Rightarrow> bool" where
  "is_lowercase c = (char_code c \<ge> char_code (CHR ''a'') \<and> char_code c \<le> char_code (CHR ''z''))"

definition is_uppercase :: "char \<Rightarrow> bool" where
  "is_uppercase c = (char_code c \<ge> char_code (CHR ''A'') \<and> char_code c \<le> char_code (CHR ''Z''))"

definition is_letter :: "char \<Rightarrow> bool" where
  "is_letter c = (is_lowercase c \<or> is_uppercase c)"

section \<open>Decimal input\<close>

text \<open>
  \<open>std::stoi\<close>: white space is skipped, a sign may follow, then the longest run of digits is
  read; what comes after it is ignored. No digit is \<open>invalid_argument\<close>, a value outside
  the 32-bit \<open>int\<close> is \<open>out_of_range\<close>.
\<close>

definition is_space :: "char \<Rightarrow> bool" where
  "is_space c = (c \<in> {CHR 0x20, CHR 0x09, CHR 0x0A, CHR 0x0B, CHR 0x0C, CHR 0x0D})"

definition dec_val :: "string \<Rightarrow> nat" where
  "dec_val ds = foldl (\<lambda>a c. 10 * a + (char_code c - 48)) 0 ds"

definition read_sign :: "string \<Rightarrow> bool \<times> string" where
  "read_sign s = (case s of
     [] \<Rightarrow> (False, s)
   | c # r \<Rightarrow> if c = CHR ''-'' then (True, r) else if c = CHR ''+'' then (False, r) else (False, s))"

definition stoi :: "string \<Rightarrow> int res" where
  "stoi s =
     (let (neg, r) = read_sign (dropWhile is_space s);
          ds = takeWhile is_digit r;
          i = (if neg then - int (dec_val ds) else int (dec_val ds))
      in if ds = [] then Inl (Invalid_argument ''stoi'')
         else if i < - (2 ^ 31) \<or> i > 2 ^ 31 - 1 then Inl (Out_of_range ''stoi'')
         else Inr i)"

lemma char_code_digit: "d < 10 \<Longrightarrow> char_code (digit_char d) = 48 + d"
  by (simp add: char_code_def digit_char_code)

lemma is_digit_digit_char [simp]: "d < 10 \<Longrightarrow> is_digit (digit_char d)"
  by (simp add: is_digit_def char_code_digit) (simp add: char_code_def)

lemma is_digit_code: "is_digit c \<longleftrightarrow> 48 \<le> char_code c \<and> char_code c \<le> 57"
  by (simp add: is_digit_def) (simp add: char_code_def)

lemma show_nat_digits: "list_all is_digit (show_nat n)"
proof (induction n rule: show_nat.induct)
  case (1 n)
  then show ?case by (subst show_nat.simps) auto
qed

lemma dec_val_snoc: "dec_val (ds @ [c]) = 10 * dec_val ds + (char_code c - 48)"
  by (simp add: dec_val_def)

lemma dec_val_show_nat [simp]: "dec_val (show_nat n) = n"
proof (induction n rule: show_nat.induct)
  case (1 n)
  show ?case
  proof (cases "n < 10")
    case True
    then show ?thesis
      by (subst show_nat.simps) (simp add: dec_val_def char_code_digit)
  next
    case False
    with 1 show ?thesis
      by (subst show_nat.simps) (simp add: dec_val_snoc char_code_digit)
  qed
qed

lemma not_is_digit [simp]: "\<not> is_digit CHR ''-''" "\<not> is_digit CHR ''+''" "\<not> is_digit CHR ''.''"
  by (simp_all add: is_digit_code) (simp_all add: char_code_def)

lemma is_space_not_digit: "is_space c \<Longrightarrow> \<not> is_digit c"
  by (auto simp: is_space_def is_digit_code) (simp_all add: char_code_def)

lemma stoi_digits:
  assumes "ds \<noteq> []" "list_all is_digit ds"
  shows "stoi ds = (if int (dec_val ds) > 2 ^ 31 - 1 then Inl (Out_of_range ''stoi'') else Inr (int (dec_val ds)))"
proof -
  obtain d ds' where ds: "ds = d # ds'" using assms(1) by (cases ds) auto
  with assms have d: "is_digit d" by simp
  then have "\<not> is_space d" using is_space_not_digit by auto
  then have "dropWhile is_space ds = ds" using ds by simp
  moreover have "read_sign ds = (False, ds)" using ds d by (auto simp: read_sign_def)
  moreover have "takeWhile is_digit ds = ds" using assms(2) by (simp add: list_all_iff takeWhile_all)
  ultimately show ?thesis using assms(1)
    by (simp add: stoi_def Let_def del: takeWhile_eq_all_conv)
qed

lemma stoi_Nil [simp]: "stoi [] = Inl (Invalid_argument ''stoi'')"
  by (simp add: stoi_def read_sign_def)

lemma stoi_range: "stoi s = Inr i \<Longrightarrow> - (2 ^ 31) \<le> i \<and> i \<le> 2 ^ 31 - 1"
  by (auto simp: stoi_def Let_def split: prod.splits if_splits)

end
