(* ===== verification/Net_Utils.thy ===== *)
theory Net_Utils
  imports String_Tools Format_Text
begin

text \<open>
  Validation of the coordinator's address (src/network/network_utils.cpp) and the start-up
  code that reads it from the environment (src/thallium.cpp, src/context.cpp). A C string
  is \<open>None\<close> for the null pointer and otherwise the list of its characters.
\<close>

section \<open>Host names and ports\<close>

definition label_ok :: "string \<Rightarrow> bool" where
  "label_ok label =
     (if length label = 0 \<or> length label > 63 then False
      else if \<not> list_all (\<lambda>c. is_digit c \<or> is_letter c \<or> c = CHR ''-'') label then False
      else label ! 0 \<noteq> CHR ''-'')"

definition valid_hostname :: "string option \<Rightarrow> bool" where
  "valid_hostname hostname =
     (case hostname of
        None \<Rightarrow> False
      | Some h \<Rightarrow> if length h > 255 then False else list_all label_ok (string_split h ''.''))"

definition valid_port :: "int \<Rightarrow> bool" where
  "valid_port port = (port > 0 \<and> port < 65536)"

definition port_to_int :: "string option \<Rightarrow> int" where
  "port_to_int port =
     (case port of
        None \<Rightarrow> -1
      | Some s \<Rightarrow>
          if \<not> list_all is_digit s then -1
          else (case stoi s of
                  Inl e \<Rightarrow> -1
                | Inr p \<Rightarrow> if valid_port p then p else -1))"

lemma label_ok_no_dot: "label_ok l \<Longrightarrow> CHR ''.'' \<notin> set l"
  by (auto simp: label_ok_def list_all_iff is_letter_def is_lowercase_def is_uppercase_def
      char_code_def split: if_splits)

lemma label_ok_iff:
  "label_ok l \<longleftrightarrow> 1 \<le> length l \<and> length l \<le> 63 \<and> hd l \<noteq> CHR ''-'' \<and>
     (\<forall>c\<in>set l. is_digit c \<or> is_letter c \<or> c = CHR ''-'')"
  by (cases l) (auto simp: label_ok_def list_all_iff)

lemma valid_hostname_labels:
  "valid_hostname (Some h) \<longleftrightarrow>
     length h \<le> 255 \<and> (\<exists>ls. ls \<noteq> [] \<and> h = intercalate ''.'' ls \<and> (\<forall>l\<in>set ls. label_ok l))"
proof
  assume v: "valid_hostname (Some h)"
  then have "\<forall>l\<in>set (string_split h ''.''). label_ok l" "length h \<le> 255"
    by (simp_all add: valid_hostname_def list_all_iff split: if_splits)
  moreover have "h = intercalate ''.'' (string_split h ''.'')" by (simp add: string_split_join)
  ultimately show "length h \<le> 255 \<and>
      (\<exists>ls. ls \<noteq> [] \<and> h = intercalate ''.'' ls \<and> (\<forall>l\<in>set ls. label_ok l))"
    using string_split_not_Nil by blast
next
  assume "length h \<le> 255 \<and>
      (\<exists>ls. ls \<noteq> [] \<and> h = intercalate ''.'' ls \<and> (\<forall>l\<in>set ls. label_ok l))"
  then obtain ls where "length h \<le> 255" "ls \<noteq> []" "h = intercalate ''.'' ls"
    and ok: "\<forall>l\<in>set ls. label_ok l" by blast
  moreover from this have "string_split h ''.'' = ls"
    using string_split_intercalate [of ls "CHR ''.''"] label_ok_no_dot by auto
  ultimately show "valid_hostname (Some h)" by (simp add: valid_hostname_def list_all_iff)
qed

text \<open>
  \<open>valid_hostname\<close> accepts a string exactly when it is a dotted list of labels of 1 to
  63 letters, digits and dashes, none starting with a dash, of at most 255 characters in
  all; it rejects the null pointer.
\<close>

theorem valid_hostname_spec:
  "\<not> valid_hostname None \<and>
   (valid_hostname (Some h) \<longleftrightarrow>
      length h \<le> 255 \<and>
      (\<exists>ls. ls \<noteq> [] \<and> h = intercalate ''.'' ls \<and>
         (\<forall>l\<in>set ls. 1 \<le> length l \<and> length l \<le> 63 \<and> hd l \<noteq> CHR ''-'' \<and>
            (\<forall>c\<in>set l. is_digit c \<or> is_letter c \<or> c = CHR ''-''))))"
  unfolding valid_hostname_labels label_ok_iff by (simp add: valid_hostname_def)

theorem valid_hostname_spec_witness: "valid_hostname (Some ''node-1.lab'')"
proof -
  have "\<exists>ls. ls \<noteq> [] \<and> ''node-1.lab'' = intercalate ''.'' ls \<and>
      (\<forall>l\<in>set ls. 1 \<le> length l \<and> length l \<le> 63 \<and> hd l \<noteq> CHR ''-'' \<and>
        (\<forall>c\<in>set l. is_digit c \<or> is_letter c \<or> c = CHR ''-''))"
    by (intro exI [of _ "[''node-1'', ''lab'']"])
      (simp add: is_digit_def is_letter_def is_lowercase_def is_uppercase_def char_code_def)
  then show ?thesis using valid_hostname_spec [of "''node-1.lab''"] by simp
qed

lemma port_to_int_digits:
  "port_to_int (Some s) =
     (if s \<noteq> [] \<and> list_all is_digit s \<and> 0 < dec_val s \<and> dec_val s < 65536 then int (dec_val s) else -1)"
proof (cases "s \<noteq> [] \<and> list_all is_digit s")
  case True
  then show ?thesis by (auto simp: port_to_int_def stoi_digits valid_port_def)
next
  case False
  then show ?thesis by (auto simp: port_to_int_def)
qed

text \<open>
  \<open>port_to_int\<close> is total and exact: it returns the decimal value of a nonempty string of
  digits whose value is between 1 and 65535, and -1 for every other string and for the null
  pointer; so the decimal text of every port number is read back.
\<close>

theorem port_to_int_spec:
  "port_to_int None = -1 \<and>
   port_to_int (Some s) =
     (if s \<noteq> [] \<and> list_all is_digit s \<and> 0 < dec_val s \<and> dec_val s < 65536 then int (dec_val s) else -1) \<and>
   (0 < n \<and> n < 65536 \<longrightarrow> port_to_int (Some (show_nat n)) = int n)"
  by (simp add: port_to_int_digits show_nat_digits) (simp add: port_to_int_def)

theorem port_to_int_spec_witness: "port_to_int (Some (show_nat 8080)) = 8080"
  using port_to_int_spec [of "''8080''" 8080] by simp

section \<open>Start-up\<close>

definition ENVNAME_COORD_HOST :: string where
  "ENVNAME_COORD_HOST = ''THALLIUM_COORD_HOST''"

definition ENVNAME_COORD_PORT :: string where
  "ENVNAME_COORD_PORT = ''THALLIUM_COORD_PORT''"

definition ENVNAME_STARTUP_COOKIE :: string where
  "ENVNAME_STARTUP_COOKIE = ''THALLIUM_STARTUP_COOKIE''"

record ti_context =
  coordinator_host :: string
  coordinator_port :: int

text \<open>
  How \<open>thallium_init\<close> ends: the process exits with a message on stderr, an exception leaves
  it, or it returns with its local context filled.
\<close>

datatype startup = Exited string | Raised error | Ready ti_context

definition stderr_and_quit :: "string res \<Rightarrow> startup" where
  "stderr_and_quit msg = (case msg of Inl e \<Rightarrow> Raised e | Inr m \<Rightarrow> Exited m)"

text \<open>\<open>getenv\<close> is the environment: \<open>None\<close> for a variable that is not set.\<close>

definition thallium_init :: "(string \<Rightarrow> string option) \<Rightarrow> startup" where
  "thallium_init getenv =
     (let env_coord_host = getenv ENVNAME_COORD_HOST;
          env_coord_port = getenv ENVNAME_COORD_PORT
      in case env_coord_host of
           None \<Rightarrow> stderr_and_quit
             (format ''Environment varialble not set: {}'' [ENVNAME_COORD_HOST])
         | Some host \<Rightarrow>
             if \<not> valid_hostname env_coord_host then stderr_and_quit
               (format ''Invalid coordinator hostname: {} = {}'' [ENVNAME_COORD_HOST, host])
             else (case env_coord_port of
                 None \<Rightarrow> stderr_and_quit
                   (format ''Environment varialble not set: {}'' [ENVNAME_COORD_PORT])
               | Some port \<Rightarrow>
                   let p = port_to_int env_coord_host
                   in if p = -1 then stderr_and_quit
                        (format ''Invalid coordinator port: {} = {}'' [ENVNAME_COORD_PORT, port])
                      else Ready \<lparr>coordinator_host = host, coordinator_port = p\<rparr>))"

lemma init_messages:
  "format ''Environment varialble not set: {}'' [a] = Inr (''Environment varialble not set: '' @ a)"
  "format ''Invalid coordinator hostname: {} = {}'' [a, b] =
     Inr (''Invalid coordinator hostname: '' @ a @ '' = '' @ b)"
  "format ''Invalid coordinator port: {} = {}'' [a, b] =
     Inr (''Invalid coordinator port: '' @ a @ '' = '' @ b)"
  by (simp_all add: format_def)

text \<open>
  \<open>thallium_init\<close> checks the host variable where it should check the port variable: it
  gets past its checks only if the host is itself a port number (and then takes its port
  from the host), and with a well-formed host that is not a number it reports an invalid
  port whatever the port variable holds.
\<close>

theorem thallium_init_checks_host:
  "(thallium_init getenv = Ready ctx \<longrightarrow>
      (\<exists>h p. getenv ENVNAME_COORD_HOST = Some h \<and> getenv ENVNAME_COORD_PORT = Some p \<and>
         list_all is_digit h \<and> coordinator_port ctx = int (dec_val h))) \<and>
   (getenv ENVNAME_COORD_HOST = Some host \<and> valid_hostname (Some host) \<and>
    \<not> list_all is_digit host \<and> getenv ENVNAME_COORD_PORT = Some port \<longrightarrow>
      thallium_init getenv =
        Exited (''Invalid coordinator port: '' @ ENVNAME_COORD_PORT @ '' = '' @ port))"
  by (auto simp: thallium_init_def Let_def stderr_and_quit_def init_messages port_to_int_digits
      split: option.splits if_splits)

theorem thallium_init_checks_host_witness:
  "thallium_init [ENVNAME_COORD_HOST \<mapsto> ''localhost'', ENVNAME_COORD_PORT \<mapsto> ''8080''] =
     Exited ''Invalid coordinator port: THALLIUM_COORD_PORT = 8080''"
proof -
  have "string_split ''localhost'' ''.'' = [''localhost'']"
    using string_split_intercalate [of "[''localhost'']" "CHR ''.''"] by simp
  then have "valid_hostname (Some ''localhost'')"
    by (simp add: valid_hostname_def label_ok_def is_letter_def is_lowercase_def char_code_def)
  then show ?thesis
    using thallium_init_checks_host [of "[ENVNAME_COORD_HOST \<mapsto> ''localhost'', ENVNAME_COORD_PORT \<mapsto> ''8080'']"
        undefined "''localhost''" "''8080''"]
    by (simp add: ENVNAME_COORD_HOST_def ENVNAME_COORD_PORT_def is_digit_code char_code_def)
qed

end
