(* ===== verification/Host_File.thy ===== *)
theory Host_File
  imports String_Tools Format_Text
begin

text \<open>
  The host file of the coordinator (src/coordinator.cpp, include/coordinator.hpp): one line
  per host, \<open>name\<close> or \<open>name:processes\<close>, parsed line by line.
\<close>

section \<open>Entries\<close>

record host_file_entry =
  hostname :: string
  process_num :: int

text \<open>
  A second field that \<open>stoi\<close> rejects leaves \<open>process_num\<close> uninitialised in the code, which
  has already cleared \<open>valid\<close> then: the comparison that follows cannot change the outcome.
\<close>

definition parse_host_file_entry :: "string \<Rightarrow> host_file_entry res" where
  "parse_host_file_entry line =
     (let splited = string_split line '':'';
          len = length splited
      in rbind
          (if len < 1 then Inl (Bad_user_input ''line is emtpy! Should not reach here.'')
           else if len = 2 then
             (case stoi (string_trim (splited ! 1)) of
                Inr p \<Rightarrow>
                  if p \<le> 0 then
                    rbind (format ''Invalid process number: {}'' [line]) (\<lambda>m. Inl (Bad_user_input m))
                  else Inr p
              | Inl e \<Rightarrow>
                  rbind (format ''Invalid process number: {}'' [line]) (\<lambda>m. Inl (Bad_user_input m)))
           else if len = 1 then Inr 1
           else rbind (format ''Invalid format: {}'' [line]) (\<lambda>m. Inl (Bad_user_input m)))
          (\<lambda>p. let h = string_trim (splited ! 0)
               in if length h = 0 then
                    rbind (format ''Invalid hostname: {}'' [line]) (\<lambda>m. Inl (Bad_user_input m))
                  else Inr \<lparr>hostname = h, process_num = p\<rparr>))"

lemma host_messages [simp]:
  "format ''Invalid process number: {}'' [a] = Inr (''Invalid process number: '' @ a)"
  "format ''Invalid format: {}'' [a] = Inr (''Invalid format: '' @ a)"
  "format ''Invalid hostname: {}'' [a] = Inr (''Invalid hostname: '' @ a)"
  by (simp_all add: format_def)

text \<open>A line is blanks, a name, blanks, and possibly a colon, blanks, a number, blanks.\<close>

abbreviation blank :: "string \<Rightarrow> bool" where
  "blank s \<equiv> set s \<subseteq> set default_cutset"

definition host_name_ok :: "string \<Rightarrow> bool" where
  "host_name_ok h \<longleftrightarrow>
     h \<noteq> [] \<and> CHR '':'' \<notin> set h \<and> hd h \<notin> set default_cutset \<and> last h \<notin> set default_cutset"

lemma colon_not_blank [simp]: "CHR '':'' \<notin> set default_cutset"
  by (simp add: default_cutset_def)

lemma digit_not_blank: "is_digit c \<Longrightarrow> c \<notin> set default_cutset"
  by (auto simp: default_cutset_def is_digit_code char_code_def)

lemma digit_not_colon: "is_digit c \<Longrightarrow> c \<noteq> CHR '':''"
  by (auto simp: is_digit_code char_code_def)

lemma trim_padded_host:
  "host_name_ok h \<Longrightarrow> blank a \<Longrightarrow> blank b \<Longrightarrow> string_trim (a @ h @ b) = h"
  unfolding string_trim_strip host_name_ok_def by (rule strip_mid) auto

lemma trim_padded_num:
  assumes "blank a" "blank b"
  shows "string_trim (a @ show_nat n @ b) = show_nat n"
proof -
  have d: "\<forall>c\<in>set (show_nat n). is_digit c"
    using show_nat_digits by (simp add: list_all_iff)
  then have "is_digit (hd (show_nat n))" "is_digit (last (show_nat n))"
    by (metis hd_in_set last_in_set show_nat_not_Nil)+
  then show ?thesis unfolding string_trim_strip
    by (intro strip_mid [OF assms]) (simp_all add: digit_not_blank)
qed

lemma no_colon:
  "blank a \<Longrightarrow> CHR '':'' \<notin> set a"
  "host_name_ok h \<Longrightarrow> CHR '':'' \<notin> set h"
  "CHR '':'' \<notin> set (show_nat n)"
  using colon_not_blank show_nat_digits [of n] digit_not_colon
  by (blast, simp add: host_name_ok_def, auto simp: list_all_iff)

lemma parse_with_number:
  assumes h: "host_name_ok h" and b: "blank a" "blank b" "blank c" "blank d"
    and n: "0 < n" "n < 2 ^ 31"
  shows "parse_host_file_entry (a @ h @ b @ CHR '':'' # c @ show_nat n @ d) =
    Inr \<lparr>hostname = h, process_num = int n\<rparr>"
proof -
  let ?l = "a @ h @ b" and ?r = "c @ show_nat n @ d"
  have "\<forall>p\<in>set [?l, ?r]. CHR '':'' \<notin> set p"
    using no_colon h b by simp
  then have s: "string_split (a @ h @ b @ CHR '':'' # c @ show_nat n @ d) '':'' = [?l, ?r]"
    using string_split_intercalate [of "[?l, ?r]" "CHR '':''"] by simp
  have "stoi (show_nat n) = Inr (int n)"
    using n show_nat_digits [of n] by (simp add: stoi_digits)
  moreover have "h \<noteq> []" using h by (simp add: host_name_ok_def)
  ultimately show ?thesis
    using s n trim_padded_host [OF h b(1,2)] trim_padded_num [OF b(3,4), of n]
    by (simp add: parse_host_file_entry_def)
qed

lemma parse_without_number:
  assumes h: "host_name_ok h" and b: "blank a" "blank b"
  shows "parse_host_file_entry (a @ h @ b) = Inr \<lparr>hostname = h, process_num = 1\<rparr>"
proof -
  have "\<forall>p\<in>set [a @ h @ b]. CHR '':'' \<notin> set p"
    using no_colon h b by simp
  then have "string_split (a @ h @ b) '':'' = [a @ h @ b]"
    using string_split_intercalate [of "[a @ h @ b]" "CHR '':''"] by simp
  moreover have "h \<noteq> []" using h by (simp add: host_name_ok_def)
  ultimately show ?thesis
    using trim_padded_host [OF h b] by (simp add: parse_host_file_entry_def)
qed

lemma trim_result_ok:
  assumes "string_trim s \<noteq> []" "CHR '':'' \<notin> set s"
  shows "host_name_ok (string_trim s)"
proof (cases s default_cutset rule: trim_cases)
  case all
  with assms show ?thesis by (simp add: string_trim_strip strip_all)
next
  case (mid as m bs)
  then have "string_trim s = m" by (simp add: string_trim_strip strip_mid)
  with mid assms show ?thesis by (simp add: host_name_ok_def)
qed

lemma parse_sound:
  assumes "parse_host_file_entry line = Inr e"
  shows "host_name_ok (hostname e) \<and> 1 \<le> process_num e \<and> process_num e \<le> 2 ^ 31 - 1 \<and>
    length (string_split line '':'') \<le> 2"
proof -
  let ?s = "string_split line '':''"
  have "\<not> occurs '':'' (?s ! 0)"
    using string_split_pieces [of "'':''" "?s ! 0" line] by (simp add: nth_mem)
  then have c: "CHR '':'' \<notin> set (?s ! 0)" by simp
  from assms have "string_trim (?s ! 0) \<noteq> []" "hostname e = string_trim (?s ! 0)"
    "length ?s \<le> 2" "process_num e = 1 \<or> (\<exists>t. stoi t = Inr (process_num e) \<and> 0 < process_num e)"
    by (auto simp: parse_host_file_entry_def Let_def rbind_eq_Inr_iff split: if_splits sum.splits)
  with c stoi_range show ?thesis using trim_result_ok [of "?s ! 0"] by fastforce
qed



text \<open>
  \<open>stoi\<close> stops at the first character that is not a digit, so a number followed by other
  text is accepted.
\<close>

lemma parse_ignores_trailing_text:
  "parse_host_file_entry ''host:4x'' = Inr \<lparr>hostname = ''host'', process_num = 4\<rparr>"
proof -
  have s: "string_split ''host:4x'' '':'' = [''host'', ''4x'']"
    using string_split_intercalate [of "[''host'', ''4x'']" "CHR '':''"] by simp
  have "string_trim ''4x'' = ''4x''" "string_trim ''host'' = ''host''"
    by (simp_all add: string_trim_strip strip_def default_cutset_def)
  moreover have "stoi ''4x'' = Inr 4"
    by (simp add: stoi_def is_space_def read_sign_def is_digit_code dec_val_def char_code_def)
  ultimately show ?thesis using s by (simp add: parse_host_file_entry_def)
qed

section \<open>The file\<close>

text \<open>
  \<open>getline\<close> returns the text up to the next newline; text after the last newline is a line
  if it is not empty. A file that cannot be opened has no lines.
\<close>

fun getlines :: "string \<Rightarrow> string \<Rightarrow> string list" where
  "getlines acc [] = (if acc = [] then [] else [acc])"
| "getlines acc (c # cs) = (if c = CHR 0x0A then acc # getlines [] cs else getlines (acc @ [c]) cs)"

fun read_lines :: "string list \<Rightarrow> host_file_entry list res" where
  "read_lines [] = Inr []"
| "read_lines (l # ls) =
     (if length (string_trim l) = 0 then read_lines ls
      else rbind (parse_host_file_entry l) (\<lambda>e. rbind (read_lines ls) (\<lambda>es. Inr (e # es))))"

definition read_host_file :: "string option \<Rightarrow> host_file_entry list res" where
  "read_host_file contents =
     rbind (read_lines (case contents of None \<Rightarrow> [] | Some s \<Rightarrow> getlines [] s))
       (\<lambda>hosts. if length hosts = 0 then Inl (Bad_user_input ''Invalid hostfile'') else Inr hosts)"

abbreviation file_entries :: "string \<Rightarrow> string list" where
  "file_entries s \<equiv> filter (\<lambda>l. string_trim l \<noteq> []) (getlines [] s)"

lemma read_lines_Inr:
  "read_lines ls = Inr es \<longleftrightarrow>
     map parse_host_file_entry (filter (\<lambda>l. string_trim l \<noteq> []) ls) = map Inr es"
proof (induction ls arbitrary: es)
  case Nil
  then show ?case by auto
next
  case (Cons l ls)
  show ?case
  proof (cases "string_trim l = []")
    case True
    with Cons show ?thesis by simp
  next
    case False
    show ?thesis
    proof (cases es)
      case Nil
      with False show ?thesis by (auto simp: rbind_eq_Inr_iff)
    next
      case (Cons e es')
      with False Cons.IH [of es'] show ?thesis by (auto simp: rbind_eq_Inr_iff)
    qed
  qed
qed

text \<open>
  \<open>read_host_file\<close> returns a list exactly when the file has a line that is not blank
  and every such line parses; the list then holds the parsed entries in the order of the
  lines. A file that cannot be opened, or has only blank lines, is rejected.
\<close>

theorem read_host_file_correct:
  "(read_host_file (Some s) = Inr es \<longleftrightarrow>
      es \<noteq> [] \<and> map parse_host_file_entry (file_entries s) = map Inr es) \<and>
   (file_entries s = [] \<longrightarrow> read_host_file (Some s) = Inl (Bad_user_input ''Invalid hostfile'')) \<and>
   read_host_file None = Inl (Bad_user_input ''Invalid hostfile'')"
  using read_lines_Inr [of "getlines [] s" es] read_lines_Inr [of "getlines [] s" "[]"]
  by (auto simp: read_host_file_def rbind_eq_Inr_iff)

theorem read_host_file_correct_witness:
  "read_host_file (Some ''  \<newline>\<newline>'') = Inl (Bad_user_input ''Invalid hostfile'')"
  using read_host_file_correct [of "''  \<newline>\<newline>''"]
  by (simp add: string_trim_strip strip_def default_cutset_def)

end
