(* ===== verification/Archives.thy ===== *)
theory Archives
  imports Format_Text
begin

text \<open>
  The archives of the serializer: \<open>StringSaveArchive\<close> and \<open>StringLoadArchive\<close>
  (include/serialize.hpp, src/serialize.cpp) and the fixed-size buffer archives of
  src/network/protocol.hpp. An archive hands out a cursor for a number of bytes and the
  caller copies to or from it; \<open>put\<close> and \<open>get\<close> are such a call with its copy.

  The two locales state what the serializer relies on; they are interpreted on the four
  archives of the code at the end of the theory.
\<close>

type_synonym byte = "8 word"

section \<open>Numbers in memory\<close>

text \<open>Little-endian object representation of an unsigned integer of \<open>w\<close> bytes.\<close>

fun le_bytes :: "nat \<Rightarrow> nat \<Rightarrow> byte list" where
  "le_bytes 0 n = []"
| "le_bytes (Suc w) n = of_nat (n mod 256) # le_bytes w (n div 256)"

fun le_val :: "byte list \<Rightarrow> nat" where
  "le_val [] = 0"
| "le_val (b # bs) = unat b + 256 * le_val bs"

lemma length_le_bytes [simp]: "length (le_bytes w n) = w"
  by (induction w arbitrary: n) auto

lemma unat_of_nat_byte: "n < 256 \<Longrightarrow> unat (of_nat n :: byte) = n"
  by (simp add: unat_of_nat take_bit_eq_mod)

lemma le_val_le_bytes: "n < 256 ^ w \<Longrightarrow> le_val (le_bytes w n) = n"
proof (induction w arbitrary: n)
  case 0
  then show ?case by simp
next
  case (Suc w)
  then have "n div 256 < 256 ^ w" by (simp add: less_mult_imp_div_less mult.commute)
  with Suc.IH show ?case by (simp add: unat_of_nat_byte)
qed

lemma le_bytes_le_val: "le_bytes (length bs) (le_val bs) = bs"
proof (induction bs)
  case Nil
  then show ?case by simp
next
  case (Cons b bs)
  have "unat b < 256" using unsigned_less [of b] by simp
  then show ?case using Cons by simp
qed

lemma le_val_bound: "le_val bs < 256 ^ length bs"
proof (induction bs)
  case Nil
  then show ?case by simp
next
  case (Cons b bs)
  have "unat b < 256" using unsigned_less [of b] by simp
  with Cons show ?case by simp
qed

section \<open>Saving to a growing buffer\<close>

text \<open>
  The heap block of a \<open>StringSaveArchive\<close> is a list of cells; a cell of a fresh
  \<open>new char[n]\<close> is uninitialised (\<open>None\<close>). The pointers \<open>_buf_begin\<close> and \<open>save_cursor\<close> are
  the beginning of the list and an offset into it. Sizes of objects in memory do not
  overflow \<open>size_t\<close> and are natural numbers.
\<close>

record string_save_archive =
  capacity :: nat
  buf_cells :: "byte option list"
  save_cursor :: nat

definition string_save_init :: string_save_archive where
  "string_save_init = \<lparr>capacity = 64, buf_cells = replicate 64 None, save_cursor = 0\<rparr>"

definition ss_get_save_cursor :: "nat \<Rightarrow> string_save_archive \<Rightarrow> nat \<times> string_save_archive" where
  "ss_get_save_cursor num a =
     (let size_used = save_cursor a;
          a1 = (if size_used + num > capacity a then
                  (let new_capacity = max (size_used + num) (capacity a * 2);
                       new_buf = write_at 0 (take size_used (buf_cells a)) (replicate new_capacity None)
                   in a\<lparr>capacity := new_capacity, buf_cells := new_buf, save_cursor := size_used\<rparr>)
                else a)
      in (save_cursor a1, a1\<lparr>save_cursor := save_cursor a1 + num\<rparr>))"

definition ss_put :: "byte list \<Rightarrow> string_save_archive \<Rightarrow> string_save_archive res" where
  "ss_put bs a =
     (let (dst, a1) = ss_get_save_cursor (length bs) a
      in Inr (a1\<lparr>buf_cells := write_at dst (map Some bs) (buf_cells a1)\<rparr>))"

text \<open>\<open>build()\<close>: reading an uninitialised cell would be undefined.\<close>

definition ss_build :: "string_save_archive \<Rightarrow> byte list res" where
  "ss_build a =
     (let cells = take (save_cursor a) (buf_cells a)
      in if None \<in> set cells then Inl (Undefined ''uninitialised byte'') else Inr (map the cells))"

section \<open>Loading from a string\<close>

record string_load_archive =
  load_buf :: "byte list"
  load_cursor :: nat

definition string_load_init :: "byte list \<Rightarrow> string_load_archive" where
  "string_load_init s = \<lparr>load_buf = s, load_cursor = 0\<rparr>"

text \<open>
  \<open>load_cursor - _buf_begin + num\<close> is computed in \<open>size_t\<close>, so it is taken modulo \<open>2 ^ 64\<close>:
  here \<open>num\<close> comes from the input.
\<close>

definition sl_get_load_cursor :: "nat \<Rightarrow> string_load_archive \<Rightarrow> (nat \<times> string_load_archive) res" where
  "sl_get_load_cursor num a =
     (let ret = load_cursor a; result = (load_cursor a + num) mod 2 ^ 64
      in if result > length (load_buf a) then Inl (Logic_error ''buf load overflow!'')
         else Inr (ret, a\<lparr>load_cursor := load_cursor a + num\<rparr>))"

definition sl_get :: "nat \<Rightarrow> string_load_archive \<Rightarrow> (byte list \<times> string_load_archive) res" where
  "sl_get num a =
     rbind (sl_get_load_cursor num a)
       (\<lambda>(src, a'). if src + num > length (load_buf a) then Inl (Undefined ''read out of bounds'')
                    else Inr (take num (drop src (load_buf a)), a'))"

section \<open>Fixed-size buffers\<close>

text \<open>
  The fixed-size archives compare pointers; the model compares offsets into the buffer.
\<close>

record fix_save_archive =
  fix_buf :: "byte list"
  fix_cursor :: nat

definition fix_save_init :: "byte list \<Rightarrow> fix_save_archive" where
  "fix_save_init buf = \<lparr>fix_buf = buf, fix_cursor = 0\<rparr>"

definition fs_get_save_cursor :: "nat \<Rightarrow> fix_save_archive \<Rightarrow> (nat \<times> fix_save_archive) res" where
  "fs_get_save_cursor num a =
     (let ret = fix_cursor a; result = fix_cursor a + num
      in if result > length (fix_buf a) then
           rbind (format ''Internal buf not big enough to hold {} size value.'' [show_nat num])
             (\<lambda>m. Inl (Runtime_error m))
         else Inr (ret, a\<lparr>fix_cursor := result\<rparr>))"

definition fs_put :: "byte list \<Rightarrow> fix_save_archive \<Rightarrow> fix_save_archive res" where
  "fs_put bs a =
     rbind (fs_get_save_cursor (length bs) a)
       (\<lambda>(dst, a1). Inr (a1\<lparr>fix_buf := write_at dst bs (fix_buf a1)\<rparr>))"

record fix_load_archive =
  ro_buf :: "byte list"
  ro_cursor :: nat

definition fix_load_init :: "byte list \<Rightarrow> fix_load_archive" where
  "fix_load_init buf = \<lparr>ro_buf = buf, ro_cursor = 0\<rparr>"

definition fl_get_load_cursor :: "nat \<Rightarrow> fix_load_archive \<Rightarrow> (nat \<times> fix_load_archive) res" where
  "fl_get_load_cursor num a =
     (let ret = ro_cursor a; result = ro_cursor a + num
      in if result > length (ro_buf a) then
           rbind (format ''Remaining buf (size: {}) not enough to convert {} size value.''
               [show_nat (length (ro_buf a) - ro_cursor a), show_nat num])
             (\<lambda>m. Inl (Runtime_error m))
         else Inr (ret, a\<lparr>ro_cursor := result\<rparr>))"

definition fl_get :: "nat \<Rightarrow> fix_load_archive \<Rightarrow> (byte list \<times> fix_load_archive) res" where
  "fl_get num a =
     rbind (fl_get_load_cursor num a)
       (\<lambda>(src, a'). Inr (take num (drop src (ro_buf a)), a'))"

section \<open>What the serializer relies on\<close>

text \<open>
  A saving archive appends: \<open>written\<close> is what has been saved so far, \<open>fits a n\<close> says that
  \<open>n\<close> more bytes can be saved. A byte run that fits is appended, one that does not is
  refused with an exception.
\<close>

locale save_archive =
  fixes put :: "byte list \<Rightarrow> 'a \<Rightarrow> 'a res"
    and written :: "'a \<Rightarrow> byte list"
    and fits :: "'a \<Rightarrow> nat \<Rightarrow> bool"
    and ok :: "'a \<Rightarrow> bool"
  assumes put_fits: "ok a \<Longrightarrow> fits a (length bs) \<Longrightarrow>
      \<exists>a'. put bs a = Inr a' \<and> ok a' \<and> written a' = written a @ bs \<and>
        (\<forall>n. fits a' n \<longleftrightarrow> fits a (length bs + n))"
    and put_full: "ok a \<Longrightarrow> \<not> fits a (length bs) \<Longrightarrow> \<exists>e. put bs a = Inl e"
    and fits_0: "ok a \<Longrightarrow> fits a 0"
    and fits_mono: "fits a n \<Longrightarrow> m \<le> n \<Longrightarrow> fits a m"
begin

text \<open>
  A saving step for the bytes \<open>bs\<close>: it succeeds exactly when they fit, and then appends
  them. Saving steps compose.
\<close>

definition saves :: "('a \<Rightarrow> 'a res) \<Rightarrow> byte list \<Rightarrow> bool" where
  "saves f bs \<longleftrightarrow> (\<forall>a. ok a \<longrightarrow>
     (fits a (length bs) \<longrightarrow> (\<exists>a'. f a = Inr a' \<and> ok a' \<and> written a' = written a @ bs \<and>
        (\<forall>n. fits a' n \<longleftrightarrow> fits a (length bs + n)))) \<and>
     (\<not> fits a (length bs) \<longrightarrow> (\<exists>e. f a = Inl e)))"

lemma saves_put: "saves (put bs) bs"
  using put_fits put_full by (simp add: saves_def)

lemma saves_Inr: "saves Inr []"
  by (simp add: saves_def fits_0)

lemma saves_seq:
  assumes "saves f bs" "saves g cs"
  shows "saves (\<lambda>a. rbind (f a) g) (bs @ cs)"
  unfolding saves_def
proof (intro allI impI conjI)
  fix a assume ok: "ok a" and fits: "fits a (length (bs @ cs))"
  then have "fits a (length bs)" using fits_mono by simp
  with assms(1) ok obtain b where b: "f a = Inr b" "ok b" "written b = written a @ bs"
    "\<forall>n. fits b n \<longleftrightarrow> fits a (length bs + n)" unfolding saves_def by blast
  with fits have "fits b (length cs)" by simp
  with assms(2) b(2) obtain c where c: "g b = Inr c" "ok c" "written c = written b @ cs"
    "\<forall>n. fits c n \<longleftrightarrow> fits b (length cs + n)" unfolding saves_def by blast
  with b show "\<exists>a'. rbind (f a) g = Inr a' \<and> ok a' \<and> written a' = written a @ bs @ cs \<and>
      (\<forall>n. fits a' n \<longleftrightarrow> fits a (length (bs @ cs) + n))"
    by (auto simp: add.assoc)
next
  fix a assume ok: "ok a" and nofit: "\<not> fits a (length (bs @ cs))"
  show "\<exists>e. rbind (f a) g = Inl e"
  proof (cases "fits a (length bs)")
    case True
    with assms(1) ok obtain b where b: "f a = Inr b" "ok b"
      "\<forall>n. fits b n \<longleftrightarrow> fits a (length bs + n)" unfolding saves_def by blast
    with nofit have "\<not> fits b (length cs)" by simp
    with assms(2) b(2) obtain e where "g b = Inl e" unfolding saves_def by blast
    with b show ?thesis by simp
  next
    case False
    with assms(1) ok obtain e where "f a = Inl e" unfolding saves_def by blast
    then show ?thesis by simp
  qed
qed

lemma savesD:
  "saves f bs \<Longrightarrow> ok a \<Longrightarrow> fits a (length bs) \<Longrightarrow>
     \<exists>a'. f a = Inr a' \<and> ok a' \<and> written a' = written a @ bs"
  unfolding saves_def by blast

end

text \<open>
  A loading archive is a cursor over bytes: \<open>rest\<close> is what is left. The sizes asked for are
  below \<open>2 ^ 63\<close>, the largest object size.
\<close>

locale load_archive =
  fixes get :: "nat \<Rightarrow> 'a \<Rightarrow> (byte list \<times> 'a) res"
    and rest :: "'a \<Rightarrow> byte list"
    and ok :: "'a \<Rightarrow> bool"
  assumes get_enough: "ok a \<Longrightarrow> n \<le> length (rest a) \<Longrightarrow>
      \<exists>a'. get n a = Inr (take n (rest a), a') \<and> ok a' \<and> rest a' = drop n (rest a)"
    and get_short: "ok a \<Longrightarrow> length (rest a) < n \<Longrightarrow> n < 2 ^ 63 \<Longrightarrow> \<exists>e. get n a = Inl e"
begin

lemma get_append:
  "ok a \<Longrightarrow> rest a = bs @ r \<Longrightarrow> n = length bs \<Longrightarrow>
     \<exists>a'. get n a = Inr (bs, a') \<and> ok a' \<and> rest a' = r"
  using get_enough [of a n] by auto

lemma get_Inr:
  assumes "ok a" "n < 2 ^ 63" "get n a = Inr (bs, a')"
  shows "ok a' \<and> rest a = bs @ rest a' \<and> length bs = n"
proof -
  have "n \<le> length (rest a)" using get_short [of a n] assms by fastforce
  with get_enough [of a n] assms show ?thesis by auto
qed

end

section \<open>The archives of the code keep the contracts\<close>

definition ss_ok :: "string_save_archive \<Rightarrow> bool" where
  "ss_ok a \<longleftrightarrow> save_cursor a \<le> capacity a \<and> length (buf_cells a) = capacity a \<and>
     None \<notin> set (take (save_cursor a) (buf_cells a))"

definition ss_written :: "string_save_archive \<Rightarrow> byte list" where
  "ss_written a = map the (take (save_cursor a) (buf_cells a))"

lemma ss_init_ok: "ss_ok string_save_init" "ss_written string_save_init = []"
  by (simp_all add: ss_ok_def string_save_init_def ss_written_def)

lemma ss_build_ok: "ss_ok a \<Longrightarrow> ss_build a = Inr (ss_written a)"
  by (simp add: ss_build_def ss_ok_def ss_written_def)

text \<open>
  Growing the block keeps what has been written: the cells before the cursor are copied,
  and there is room for the \<open>num\<close> bytes asked for.
\<close>

lemma ss_get_save_cursor_ok:
  assumes "ss_ok a" "ss_get_save_cursor num a = (dst, b)"
  shows "dst = save_cursor a \<and> save_cursor b = dst + num \<and> dst + num \<le> capacity b \<and>
    length (buf_cells b) = capacity b \<and> take dst (buf_cells b) = take dst (buf_cells a)"
  using assms
  by (auto simp: ss_get_save_cursor_def ss_ok_def Let_def write_at_def split: if_splits)

lemma ss_put_ok:
  assumes "ss_ok a"
  shows "\<exists>a'. ss_put bs a = Inr a' \<and> ss_ok a' \<and> ss_written a' = ss_written a @ bs"
proof -
  obtain dst b where g: "ss_get_save_cursor (length bs) a = (dst, b)" by (rule prod.exhaust)
  note b = ss_get_save_cursor_ok [OF assms g]
  let ?c = "write_at dst (map Some bs) (buf_cells b)"
  have t: "take (dst + length bs) ?c = take dst (buf_cells a) @ map Some bs"
    using b take_write_at [of dst "map Some bs" "buf_cells b" "dst + length bs"]
    by (metis length_map)
  with b assms show ?thesis
    by (auto simp: ss_put_def g ss_ok_def ss_written_def comp_def)
qed

definition fs_ok :: "fix_save_archive \<Rightarrow> bool" where
  "fs_ok a \<longleftrightarrow> fix_cursor a \<le> length (fix_buf a)"

definition fs_written :: "fix_save_archive \<Rightarrow> byte list" where
  "fs_written a = take (fix_cursor a) (fix_buf a)"

definition fs_fits :: "fix_save_archive \<Rightarrow> nat \<Rightarrow> bool" where
  "fs_fits a n \<longleftrightarrow> fix_cursor a + n \<le> length (fix_buf a)"

lemma archive_messages [simp]:
  "format ''Internal buf not big enough to hold {} size value.'' [a] =
     Inr (''Internal buf not big enough to hold '' @ a @ '' size value.'')"
  "format ''Remaining buf (size: {}) not enough to convert {} size value.'' [a, b] =
     Inr (''Remaining buf (size: '' @ a @ '') not enough to convert '' @ b @ '' size value.'')"
  by (simp_all add: format_def)

lemma fs_put_eq:
  "fs_put bs a =
     (if fs_fits a (length bs) then
        Inr \<lparr>fix_buf = write_at (fix_cursor a) bs (fix_buf a), fix_cursor = fix_cursor a + length bs\<rparr>
      else Inl (Runtime_error (''Internal buf not big enough to hold '' @ show_nat (length bs) @
        '' size value.'')))"
  by (simp add: fs_put_def fs_get_save_cursor_def fs_fits_def Let_def)

definition sl_ok :: "string_load_archive \<Rightarrow> bool" where
  "sl_ok a \<longleftrightarrow> load_cursor a \<le> length (load_buf a) \<and> length (load_buf a) < 2 ^ 63"

definition sl_rest :: "string_load_archive \<Rightarrow> byte list" where
  "sl_rest a = drop (load_cursor a) (load_buf a)"

lemma sl_get_eq:
  assumes "sl_ok a" "n < 2 ^ 63"
  shows "sl_get n a =
    (if n \<le> length (sl_rest a) then Inr (take n (sl_rest a), a\<lparr>load_cursor := load_cursor a + n\<rparr>)
     else Inl (Logic_error ''buf load overflow!''))"
proof -
  have "(load_cursor a + n) mod 2 ^ 64 = load_cursor a + n"
    using assms by (intro mod_less) (simp add: sl_ok_def)
  with assms show ?thesis
    by (auto simp: sl_get_def sl_get_load_cursor_def Let_def sl_ok_def sl_rest_def)
qed

definition fl_ok :: "fix_load_archive \<Rightarrow> bool" where
  "fl_ok a \<longleftrightarrow> ro_cursor a \<le> length (ro_buf a)"

definition fl_rest :: "fix_load_archive \<Rightarrow> byte list" where
  "fl_rest a = drop (ro_cursor a) (ro_buf a)"

lemma fl_get_eq:
  "fl_ok a \<Longrightarrow> fl_get n a =
    (if n \<le> length (fl_rest a) then Inr (take n (fl_rest a), a\<lparr>ro_cursor := ro_cursor a + n\<rparr>)
     else Inl (Runtime_error (''Remaining buf (size: '' @ show_nat (length (fl_rest a)) @
       '') not enough to convert '' @ show_nat n @ '' size value.'')))"
  by (auto simp: fl_get_def fl_get_load_cursor_def Let_def fl_ok_def fl_rest_def)

lemma sl_advance:
  "sl_ok a \<Longrightarrow> n \<le> length (sl_rest a) \<Longrightarrow>
   sl_ok (a\<lparr>load_cursor := load_cursor a + n\<rparr>) \<and>
   sl_rest (a\<lparr>load_cursor := load_cursor a + n\<rparr>) = drop n (sl_rest a)"
  by (simp add: sl_ok_def sl_rest_def add.commute) linarith

lemma fl_advance:
  "fl_ok a \<Longrightarrow> n \<le> length (fl_rest a) \<Longrightarrow>
   fl_ok (a\<lparr>ro_cursor := ro_cursor a + n\<rparr>) \<and>
   fl_rest (a\<lparr>ro_cursor := ro_cursor a + n\<rparr>) = drop n (fl_rest a)"
  by (simp add: fl_ok_def fl_rest_def add.commute)

interpretation ssa: save_archive ss_put ss_written "\<lambda>a n. True" ss_ok
proof (unfold_locales, goal_cases)
  case (1 a bs)
  from ss_put_ok [OF 1(1), of bs] show ?case by simp
qed simp_all

interpretation fsa: save_archive fs_put fs_written fs_fits fs_ok
proof (unfold_locales, goal_cases)
  case (1 a bs)
  then have "fs_put bs a = Inr \<lparr>fix_buf = write_at (fix_cursor a) bs (fix_buf a),
      fix_cursor = fix_cursor a + length bs\<rparr>" by (simp add: fs_put_eq)
  moreover from 1 have "take (fix_cursor a + length bs) (write_at (fix_cursor a) bs (fix_buf a)) =
      take (fix_cursor a) (fix_buf a) @ bs"
    by (simp add: fs_fits_def take_write_at)
  ultimately show ?case using 1 by (simp add: fs_fits_def fs_ok_def fs_written_def add.assoc)
next
  case (2 a bs)
  then show ?case by (simp add: fs_put_eq)
qed (simp_all add: fs_fits_def fs_ok_def)

interpretation sla: load_archive sl_get sl_rest sl_ok
proof (unfold_locales, goal_cases)
  case (1 a n)
  moreover from 1 have "n < 2 ^ 63" by (auto simp: sl_ok_def sl_rest_def)
  ultimately show ?case by (simp add: sl_get_eq sl_advance)
next
  case (2 a n)
  then show ?case by (simp add: sl_get_eq)
qed

interpretation fla: load_archive fl_get fl_rest fl_ok
  by unfold_locales (simp_all add: fl_get_eq fl_advance)

section \<open>Properties\<close>

definition ss_put_all :: "byte list list \<Rightarrow> string_save_archive \<Rightarrow> string_save_archive res" where
  "ss_put_all bss a = foldl (\<lambda>r bs. rbind r (ss_put bs)) (Inr a) bss"

lemma ss_put_all_ok:
  "ss_ok a \<Longrightarrow> \<exists>a'. ss_put_all bss a = Inr a' \<and> ss_ok a' \<and> ss_written a' = ss_written a @ concat bss"
proof (induction bss rule: rev_induct)
  case Nil
  then show ?case by (simp add: ss_put_all_def)
next
  case (snoc bs bss)
  then obtain b where "ss_put_all bss a = Inr b" "ss_ok b" "ss_written b = ss_written a @ concat bss"
    by blast
  with ss_put_ok [of b bs] show ?case by (auto simp: ss_put_all_def)
qed

text \<open>
  A \<open>StringSaveArchive\<close> never loses, overwrites or leaves undefined a byte, whatever the
  sequence of saves and however often its block is reallocated: \<open>build\<close> returns the
  concatenation of what was saved.
\<close>

theorem string_save_lossless:
  "rbind (ss_put_all bss string_save_init) ss_build = Inr (concat bss)"
  using ss_put_all_ok [OF ss_init_ok(1), of bss] ss_init_ok(2) ss_build_ok by auto

end
