(* ===== verification/Serialization.thy ===== *)
theory Serialization
  imports Archives "HOL-Library.AList"
begin

text \<open>
  The serializer of include/serialize.hpp. The C++ templates pick an overload by the static
  type of the object; the model makes that type a value (\<open>ty\<close>) and keeps one branch per
  overload. Objects of a trivially serializable type (arithmetic and enumeration types) are
  their object representation, a run of \<open>sizeof(T)\<close> bytes.

  \<open>save\<close> and \<open>load\<close> are the operators \<open><<\<close> and \<open>>>\<close>, for any archive; \<open>real_size\<close> is the size
  computed without an archive. \<open>flat\<close> is the reference: the encoding as a byte list.
\<close>

section \<open>Types and objects\<close>

text \<open>
  \<open>TTriv n\<close> is a trivially serializable type of \<open>n\<close> bytes, \<open>TStr\<close> \<open>std::string\<close> (also the
  character span of a \<open>ReadOnlyBuffer\<close>, which has the same encoding), \<open>TVec\<close>
  \<open>std::vector\<close>, \<open>TArr\<close> a C array of fixed length (through \<open>static_span\<close>), \<open>TMap\<close>
  \<open>std::unordered_map\<close> and \<open>TStruct\<close> a class with a member \<open>serializable\<close>, given by the
  fields it passes to the archive. A map is the list of its pairs in iteration order.
\<close>

datatype ty = TTriv nat | TStr | TVec ty | TArr nat ty | TMap ty ty | TStruct "ty list"

datatype val =
    VTriv "byte list"
  | VStr "byte list"
  | VVec "val list"
  | VArr "val list"
  | VMap "(val \<times> val) list"
  | VStruct "val list"

fun is_trivially_serializable :: "ty \<Rightarrow> bool" where
  "is_trivially_serializable (TTriv n) = True"
| "is_trivially_serializable _ = False"

fun triv_bytes :: "val \<Rightarrow> byte list" where
  "triv_bytes (VTriv bs) = bs"
| "triv_bytes _ = []"

text \<open>\<open>size_t\<close> is an unsigned integer of eight bytes.\<close>

abbreviation size_bytes :: "nat \<Rightarrow> byte list" where
  "size_bytes n \<equiv> le_bytes 8 n"

section \<open>Saving\<close>

text \<open>
  A span of trivially serializable elements is copied in one piece, a span of other
  elements one by one. A dynamic span (string, vector) is preceded by its length, a static
  one is not. A term of no C++ program (an object that is not of the type) is undefined.
\<close>

abbreviation ill_typed :: error where
  "ill_typed \<equiv> Undefined ''ill-typed object''"

function
  save :: "(byte list \<Rightarrow> 'a \<Rightarrow> 'a res) \<Rightarrow> ty \<Rightarrow> val \<Rightarrow> 'a \<Rightarrow> 'a res"
  and save_elems :: "(byte list \<Rightarrow> 'a \<Rightarrow> 'a res) \<Rightarrow> ty \<Rightarrow> val list \<Rightarrow> 'a \<Rightarrow> 'a res"
  and save_pairs :: "(byte list \<Rightarrow> 'a \<Rightarrow> 'a res) \<Rightarrow> ty \<Rightarrow> ty \<Rightarrow> (val \<times> val) list \<Rightarrow> 'a \<Rightarrow> 'a res"
  and save_fields :: "(byte list \<Rightarrow> 'a \<Rightarrow> 'a res) \<Rightarrow> ty list \<Rightarrow> val list \<Rightarrow> 'a \<Rightarrow> 'a res" where
  "save put t (VTriv bs) a = (case t of TTriv n \<Rightarrow> put bs a | _ \<Rightarrow> Inl ill_typed)"
| "save put t (VStr bs) a =
     (case t of TStr \<Rightarrow> rbind (put (size_bytes (length bs)) a) (put bs) | _ \<Rightarrow> Inl ill_typed)"
| "save put t (VVec vs) a =
     (case t of
        TVec t' \<Rightarrow>
          rbind (put (size_bytes (length vs)) a)
            (\<lambda>a. if is_trivially_serializable t' then put (concat (map triv_bytes vs)) a
                 else save_elems put t' vs a)
      | _ \<Rightarrow> Inl ill_typed)"
| "save put t (VArr vs) a =
     (case t of
        TArr n t' \<Rightarrow>
          (if is_trivially_serializable t' then put (concat (map triv_bytes vs)) a
           else save_elems put t' vs a)
      | _ \<Rightarrow> Inl ill_typed)"
| "save put t (VMap kvs) a =
     (case t of
        TMap k t' \<Rightarrow> rbind (put (size_bytes (length kvs)) a) (save_pairs put k t' kvs)
      | _ \<Rightarrow> Inl ill_typed)"
| "save put t (VStruct vs) a =
     (case t of TStruct ts \<Rightarrow> save_fields put ts vs a | _ \<Rightarrow> Inl ill_typed)"
| "save_elems put t [] a = Inr a"
| "save_elems put t (v # vs) a = rbind (save put t v a) (save_elems put t vs)"
| "save_pairs put k t [] a = Inr a"
| "save_pairs put k t ((x, y) # kvs) a =
     rbind (save put k x a) (\<lambda>a. rbind (save put t y a) (save_pairs put k t kvs))"
| "save_fields put ts [] a = (if ts = [] then Inr a else Inl ill_typed)"
| "save_fields put ts (v # vs) a =
     (case ts of
        [] \<Rightarrow> Inl ill_typed
      | t # ts' \<Rightarrow> rbind (save put t v a) (save_fields put ts' vs))"
  by pat_completeness auto
termination
  by (relation "measure
      (\<lambda>x. case x of Inl (Inl (_, _, v, _)) \<Rightarrow> size v
         | Inl (Inr (_, _, vs, _)) \<Rightarrow> size_list size vs
         | Inr (Inl (_, _, _, kvs, _)) \<Rightarrow> size_list (size_prod size size) kvs
         | Inr (Inr (_, _, vs, _)) \<Rightarrow> size_list size vs)") auto

section \<open>Loading\<close>

text \<open>
  \<open>r.resize(n)\<close> throws \<open>length_error\<close> for \<open>n > r.max_size()\<close>; \<open>msz\<close> gives the
  \<open>max_size()\<close> of a container type. \<open>chunk k bs\<close> reads consecutive elements of \<open>k\<close> bytes.
\<close>

fun chunk :: "nat \<Rightarrow> nat \<Rightarrow> byte list \<Rightarrow> val list" where
  "chunk k 0 bs = []"
| "chunk k (Suc n) bs = VTriv (take k bs) # chunk k n (drop k bs)"

definition check_resize :: "(ty \<Rightarrow> nat) \<Rightarrow> ty \<Rightarrow> nat \<Rightarrow> unit res" where
  "check_resize msz t n = (if n > msz t then Inl (Length_error ''resize'') else Inr ())"

function (sequential)
  load :: "(nat \<Rightarrow> 'a \<Rightarrow> (byte list \<times> 'a) res) \<Rightarrow> (ty \<Rightarrow> nat) \<Rightarrow> ty \<Rightarrow> 'a \<Rightarrow> (val \<times> 'a) res"
  and load_elems :: "(nat \<Rightarrow> 'a \<Rightarrow> (byte list \<times> 'a) res) \<Rightarrow> (ty \<Rightarrow> nat) \<Rightarrow> ty \<Rightarrow> nat \<Rightarrow> 'a \<Rightarrow> (val list \<times> 'a) res"
  and load_pairs :: "(nat \<Rightarrow> 'a \<Rightarrow> (byte list \<times> 'a) res) \<Rightarrow> (ty \<Rightarrow> nat) \<Rightarrow> ty \<Rightarrow> ty \<Rightarrow> nat \<Rightarrow> (val \<times> val) list \<Rightarrow> 'a
      \<Rightarrow> ((val \<times> val) list \<times> 'a) res"
  and load_fields :: "(nat \<Rightarrow> 'a \<Rightarrow> (byte list \<times> 'a) res) \<Rightarrow> (ty \<Rightarrow> nat) \<Rightarrow> ty list \<Rightarrow> 'a \<Rightarrow> (val list \<times> 'a) res" where
  "load get msz (TTriv n) a = rbind (get n a) (\<lambda>(bs, a). Inr (VTriv bs, a))"
| "load get msz TStr a =
     rbind (get 8 a) (\<lambda>(sz, a).
     rbind (check_resize msz TStr (le_val sz)) (\<lambda>_.
     if le_val sz > 0 then rbind (get (le_val sz) a) (\<lambda>(bs, a). Inr (VStr bs, a))
     else Inr (VStr [], a)))"
| "load get msz (TVec (TTriv k)) a =
     rbind (get 8 a) (\<lambda>(sz, a).
     rbind (check_resize msz (TVec (TTriv k)) (le_val sz)) (\<lambda>_.
     if le_val sz > 0 then
       rbind (get (le_val sz * k) a) (\<lambda>(bs, a). Inr (VVec (chunk k (le_val sz) bs), a))
     else Inr (VVec [], a)))"
| "load get msz (TVec t) a =
     rbind (get 8 a) (\<lambda>(sz, a).
     rbind (check_resize msz (TVec t) (le_val sz)) (\<lambda>_.
     rbind (load_elems get msz t (le_val sz) a) (\<lambda>(vs, a). Inr (VVec vs, a))))"
| "load get msz (TArr n (TTriv k)) a =
     rbind (get (n * k) a) (\<lambda>(bs, a). Inr (VArr (chunk k n bs), a))"
| "load get msz (TArr n t) a =
     rbind (load_elems get msz t n a) (\<lambda>(vs, a). Inr (VArr vs, a))"
| "load get msz (TMap k t) a =
     rbind (get 8 a) (\<lambda>(sz, a).
     rbind (load_pairs get msz k t (le_val sz) [] a) (\<lambda>(kvs, a). Inr (VMap kvs, a)))"
| "load get msz (TStruct ts) a =
     rbind (load_fields get msz ts a) (\<lambda>(vs, a). Inr (VStruct vs, a))"
| "load_elems get msz t 0 a = Inr ([], a)"
| "load_elems get msz t (Suc n) a =
     rbind (load get msz t a) (\<lambda>(v, a).
     rbind (load_elems get msz t n a) (\<lambda>(vs, a). Inr (v # vs, a)))"
| "load_pairs get msz k t 0 m a = Inr (m, a)"
| "load_pairs get msz k t (Suc n) m a =
     rbind (load get msz k a) (\<lambda>(x, a).
     rbind (load get msz t a) (\<lambda>(y, a).
     load_pairs get msz k t n (AList.update x y m) a))"
| "load_fields get msz [] a = Inr ([], a)"
| "load_fields get msz (t # ts) a =
     rbind (load get msz t a) (\<lambda>(v, a).
     rbind (load_fields get msz ts a) (\<lambda>(vs, a). Inr (v # vs, a)))"
  by pat_completeness auto
termination
  by (relation "measures
      [\<lambda>x. case x of Inl (Inl (_, _, t, _)) \<Rightarrow> size t
         | Inl (Inr (_, _, t, _, _)) \<Rightarrow> size t
         | Inr (Inl (_, _, k, t, _, _, _)) \<Rightarrow> size k + size t
         | Inr (Inr (_, _, ts, _)) \<Rightarrow> size_list size ts,
       \<lambda>x. case x of Inl (Inl (_, _, t, _)) \<Rightarrow> 0
         | Inl (Inr (_, _, t, n, _)) \<Rightarrow> Suc n
         | Inr (Inl (_, _, k, t, n, _, _)) \<Rightarrow> Suc n
         | Inr (Inr (_, _, ts, _)) \<Rightarrow> Suc (length ts)]") auto

section \<open>The size of an object\<close>

text \<open>
  The overloads of \<open>real_size\<close>; a class sums its fields in a \<open>SizeArchive\<close>. The size of an
  array of elements that are not trivially serializable is the size of its span less the
  eight bytes that the span's overload counts for a length.
\<close>

primrec real_size :: "val \<Rightarrow> ty \<Rightarrow> nat" where
  "real_size (VTriv bs) = (\<lambda>t. case t of TTriv n \<Rightarrow> n | _ \<Rightarrow> 0)"
| "real_size (VStr bs) = (\<lambda>t. length bs + 8)"
| "real_size (VVec vs) =
     (\<lambda>t. case t of
        TVec (TTriv n) \<Rightarrow> n * length vs + 8
      | TVec t' \<Rightarrow> foldl (+) 8 (map (\<lambda>f. f t') (map real_size vs))
      | _ \<Rightarrow> 0)"
| "real_size (VArr vs) =
     (\<lambda>t. case t of
        TArr m (TTriv n) \<Rightarrow> m * n
      | TArr m t' \<Rightarrow> foldl (+) 8 (map (\<lambda>f. f t') (map real_size vs)) - 8
      | _ \<Rightarrow> 0)"
| "real_size (VMap kvs) =
     (\<lambda>t. case t of
        TMap k t' \<Rightarrow> foldl (\<lambda>s (f, g). s + f k + g t') 8 (map (map_prod real_size real_size) kvs)
      | _ \<Rightarrow> 0)"
| "real_size (VStruct vs) =
     (\<lambda>t. case t of
        TStruct ts \<Rightarrow> foldl (\<lambda>s (f, t). s + f t) 0 (zip (map real_size vs) ts)
      | _ \<Rightarrow> 0)"

section \<open>The encoding and well-typed objects\<close>

primrec flat :: "val \<Rightarrow> byte list" where
  "flat (VTriv bs) = bs"
| "flat (VStr bs) = size_bytes (length bs) @ bs"
| "flat (VVec vs) = size_bytes (length vs) @ concat (map flat vs)"
| "flat (VArr vs) = concat (map flat vs)"
| "flat (VMap kvs) =
     size_bytes (length kvs) @ concat (map (\<lambda>(x, y). x @ y) (map (map_prod flat flat) kvs))"
| "flat (VStruct vs) = concat (map flat vs)"

text \<open>
  The objects of a type. A container is not longer than its \<open>max_size()\<close>, a map has
  distinct keys.
\<close>

primrec wt :: "(ty \<Rightarrow> nat) \<Rightarrow> val \<Rightarrow> ty \<Rightarrow> bool" where
  "wt msz (VTriv bs) = (\<lambda>t. case t of TTriv n \<Rightarrow> length bs = n | _ \<Rightarrow> False)"
| "wt msz (VStr bs) = (\<lambda>t. case t of TStr \<Rightarrow> length bs \<le> msz TStr | _ \<Rightarrow> False)"
| "wt msz (VVec vs) =
     (\<lambda>t. case t of
        TVec t' \<Rightarrow> length vs \<le> msz t \<and> list_all (\<lambda>f. f t') (map (wt msz) vs)
      | _ \<Rightarrow> False)"
| "wt msz (VArr vs) =
     (\<lambda>t. case t of
        TArr n t' \<Rightarrow> length vs = n \<and> list_all (\<lambda>f. f t') (map (wt msz) vs)
      | _ \<Rightarrow> False)"
| "wt msz (VMap kvs) =
     (\<lambda>t. case t of
        TMap k t' \<Rightarrow> length kvs < 2 ^ 64 \<and> distinct (map fst kvs) \<and>
          list_all (\<lambda>(f, g). f k \<and> g t') (map (map_prod (wt msz) (wt msz)) kvs)
      | _ \<Rightarrow> False)"
| "wt msz (VStruct vs) =
     (\<lambda>t. case t of
        TStruct ts \<Rightarrow> list_all2 (\<lambda>f t. f t) (map (wt msz) vs) ts
      | _ \<Rightarrow> False)"

text \<open>
  \<open>max_size()\<close> of the standard containers: as many elements as fit into the largest object
  size, \<open>2 ^ 63 - 1\<close> bytes.
\<close>

definition size_limits :: "(ty \<Rightarrow> nat) \<Rightarrow> bool" where
  "size_limits msz \<longleftrightarrow> msz TStr < 2 ^ 63 \<and>
     (\<forall>t. msz (TVec t) < 2 ^ 63 \<and> (\<forall>k. t = TTriv k \<longrightarrow> msz (TVec t) * k < 2 ^ 63))"

lemma wt_TTriv: "wt msz v (TTriv n) \<longleftrightarrow> (\<exists>bs. v = VTriv bs \<and> length bs = n)"
  by (cases v) auto

lemma wt_TStr: "wt msz v TStr \<longleftrightarrow> (\<exists>bs. v = VStr bs \<and> length bs \<le> msz TStr)"
  by (cases v) auto

lemma wt_TVec: "wt msz v (TVec t) \<longleftrightarrow>
   (\<exists>vs. v = VVec vs \<and> length vs \<le> msz (TVec t) \<and> (\<forall>x\<in>set vs. wt msz x t))"
  by (cases v) (auto simp: list_all_iff)

lemma wt_TArr: "wt msz v (TArr n t) \<longleftrightarrow>
   (\<exists>vs. v = VArr vs \<and> length vs = n \<and> (\<forall>x\<in>set vs. wt msz x t))"
  by (cases v) (auto simp: list_all_iff)

lemma wt_TMap: "wt msz v (TMap k t) \<longleftrightarrow>
   (\<exists>kvs. v = VMap kvs \<and> length kvs < 2 ^ 64 \<and> distinct (map fst kvs) \<and>
      (\<forall>(x, y)\<in>set kvs. wt msz x k \<and> wt msz y t))"
  by (cases v) (auto simp: list_all_iff split: prod.splits)

lemma wt_TStruct: "wt msz v (TStruct ts) \<longleftrightarrow>
   (\<exists>vs. v = VStruct vs \<and> list_all2 (wt msz) vs ts)"
  by (cases v) (auto simp: list_all2_map1)

lemmas wt_types = wt_TTriv wt_TStr wt_TVec wt_TArr wt_TMap wt_TStruct

lemma triv_concat:
  "\<forall>x\<in>set vs. wt msz x (TTriv k) \<Longrightarrow> concat (map triv_bytes vs) = concat (map flat vs)"
  by (induction vs) (auto simp: wt_TTriv)

lemma triv_concat_length:
  "\<forall>x\<in>set vs. wt msz x (TTriv k) \<Longrightarrow> length (concat (map flat vs)) = length vs * k"
  by (induction vs) (auto simp: wt_TTriv)

lemma chunk_concat:
  "\<forall>x\<in>set vs. wt msz x (TTriv k) \<Longrightarrow> chunk k (length vs) (concat (map flat vs)) = vs"
  by (induction vs) (auto simp: wt_TTriv)

lemma is_triv_iff: "is_trivially_serializable t \<longleftrightarrow> (\<exists>k. t = TTriv k)"
  by (cases t) auto

lemma le_val_size_bytes: "n < 2 ^ 64 \<Longrightarrow> le_val (size_bytes n) = n"
  by (rule le_val_le_bytes) simp

section \<open>Saving appends the encoding, on every archive\<close>

context save_archive
begin

lemma saves_elems:
  "\<forall>v\<in>set vs. saves (save put t v) (flat v) \<Longrightarrow> saves (save_elems put t vs) (concat (map flat vs))"
proof (induction vs)
  case Nil
  have "save_elems put t [] = Inr" by (rule ext) simp
  then show ?case using saves_Inr by simp
next
  case (Cons v vs)
  have e: "save_elems put t (v # vs) = (\<lambda>a. rbind (save put t v a) (save_elems put t vs))"
    by (rule ext) simp
  from Cons show ?case unfolding e by (simp add: saves_seq)
qed

lemma saves_pairs:
  "\<forall>(x, y)\<in>set kvs. saves (save put k x) (flat x) \<and> saves (save put t y) (flat y) \<Longrightarrow>
   saves (save_pairs put k t kvs) (concat (map (\<lambda>(x, y). x @ y) (map (map_prod flat flat) kvs)))"
proof (induction kvs)
  case Nil
  have "save_pairs put k t [] = Inr" by (rule ext) simp
  then show ?case using saves_Inr by simp
next
  case (Cons p kvs)
  obtain x y where p: "p = (x, y)" by (rule prod.exhaust)
  have e: "save_pairs put k t (p # kvs) =
      (\<lambda>a. rbind (save put k x a) (\<lambda>a. rbind (save put t y a) (save_pairs put k t kvs)))"
    by (rule ext) (simp add: p)
  from Cons p show ?case unfolding e by (simp add: saves_seq)
qed

lemma saves_fields:
  "list_all2 (\<lambda>v t. saves (save put t v) (flat v)) vs ts \<Longrightarrow>
   saves (save_fields put ts vs) (concat (map flat vs))"
proof (induction vs ts rule: list_all2_induct)
  case Nil
  have "save_fields put [] [] = Inr" by (rule ext) simp
  then show ?case using saves_Inr by simp
next
  case (Cons v vs t ts)
  have e: "save_fields put (t # ts) (v # vs) = (\<lambda>a. rbind (save put t v a) (save_fields put ts vs))"
    by (rule ext) simp
  from Cons show ?case unfolding e by (simp add: saves_seq)
qed

lemma saves_span:
  assumes "\<forall>v\<in>set vs. wt msz v t" "\<forall>v\<in>set vs. saves (save put t v) (flat v)"
  shows "saves (\<lambda>a. if is_trivially_serializable t then put (concat (map triv_bytes vs)) a
      else save_elems put t vs a) (concat (map flat vs))"
proof (cases "is_trivially_serializable t")
  case True
  then obtain k where "t = TTriv k" by (auto simp: is_triv_iff)
  with assms(1) triv_concat have "concat (map triv_bytes vs) = concat (map flat vs)" by blast
  with True saves_put show ?thesis by simp
next
  case False
  with saves_elems [OF assms(2)] show ?thesis by simp
qed

lemma saves_save: "wt msz v t \<Longrightarrow> saves (save put t v) (flat v)"
proof (induction v arbitrary: t)
  case (VTriv bs)
  then obtain n where "t = TTriv n" by (cases t) auto
  then have "save put t (VTriv bs) = put bs" by (intro ext) simp
  then show ?case using saves_put by simp
next
  case (VStr bs)
  then have "t = TStr" by (cases t) auto
  then have e: "save put t (VStr bs) = (\<lambda>a. rbind (put (size_bytes (length bs)) a) (put bs))"
    by (intro ext) simp
  show ?case unfolding e using saves_seq [OF saves_put saves_put] by simp
next
  case (VVec vs)
  then obtain t' where t: "t = TVec t'" "\<forall>v\<in>set vs. wt msz v t'"
    by (cases t) (auto simp: list_all_iff)
  then have "\<forall>v\<in>set vs. saves (save put t' v) (flat v)" using VVec.IH by blast
  from saves_seq [OF saves_put saves_span [OF t(2) this]]
  have "saves (\<lambda>a. save put t (VVec vs) a) (flat (VVec vs))" by (simp add: t(1))
  then show ?case by simp
next
  case (VArr vs)
  then obtain n t' where t: "t = TArr n t'" "\<forall>v\<in>set vs. wt msz v t'"
    by (cases t) (auto simp: list_all_iff)
  then have "\<forall>v\<in>set vs. saves (save put t' v) (flat v)" using VArr.IH by blast
  from saves_span [OF t(2) this]
  have "saves (\<lambda>a. save put t (VArr vs) a) (flat (VArr vs))" by (simp add: t(1))
  then show ?case by simp
next
  case (VMap kvs)
  then obtain k t' where t: "t = TMap k t'" "\<forall>(x, y)\<in>set kvs. wt msz x k \<and> wt msz y t'"
    by (cases t) (auto simp: list_all_iff case_prod_unfold)
  have "\<forall>(x, y)\<in>set kvs. saves (save put k x) (flat x) \<and> saves (save put t' y) (flat y)"
    using t(2) VMap.IH by fastforce
  from saves_seq [OF saves_put saves_pairs [OF this]]
  have "saves (\<lambda>a. save put t (VMap kvs) a) (flat (VMap kvs))" by (simp add: t(1))
  then show ?case by simp
next
  case (VStruct vs)
  then obtain ts where t: "t = TStruct ts" "list_all2 (wt msz) vs ts"
    by (cases t) (auto simp: list_all2_map1)
  have "list_all2 (\<lambda>v t. saves (save put t v) (flat v)) vs ts"
    using t(2) VStruct.IH by (auto simp: list_all2_conv_all_nth)
  from saves_fields [OF this]
  have "saves (\<lambda>a. save put t (VStruct vs) a) (flat (VStruct vs))" by (simp add: t(1))
  then show ?case by simp
qed

end

section \<open>Loading undoes saving, on every archive\<close>

lemma AList_update_new: "x \<notin> fst ` set m \<Longrightarrow> AList.update x y m = m @ [(x, y)]"
  by (induction m) auto

context load_archive
begin

text \<open>A loading step that reads the encoding \<open>bs\<close> as \<open>v\<close>; loading steps compose.\<close>

definition loads :: "('a \<Rightarrow> ('v \<times> 'a) res) \<Rightarrow> 'v \<Rightarrow> byte list \<Rightarrow> bool" where
  "loads f v bs \<longleftrightarrow>
     (\<forall>a r. ok a \<longrightarrow> rest a = bs @ r \<longrightarrow> (\<exists>a'. f a = Inr (v, a') \<and> ok a' \<and> rest a' = r))"

lemma loads_get: "n = length bs \<Longrightarrow> loads (get n) bs bs"
  using get_append by (auto simp: loads_def)

lemma loads_Inr: "loads (\<lambda>a. Inr (v, a)) v []"
  by (simp add: loads_def)

lemma loads_seq:
  "loads f v bs \<Longrightarrow> loads (g v) w cs \<Longrightarrow> loads (\<lambda>a. rbind (f a) (\<lambda>(x, a). g x a)) w (bs @ cs)"
  unfolding loads_def by (metis append.assoc case_prod_conv rbind_Inr)

lemma loads_map:
  "loads f v bs \<Longrightarrow> w = h v \<Longrightarrow> loads (\<lambda>a. rbind (f a) (\<lambda>(x, a). Inr (h x, a))) w bs"
  using loads_seq [of f v bs "\<lambda>x a. Inr (h x, a)" w "[]"] loads_Inr [of w] by simp

lemma loads_size:
  "n < 2 ^ 64 \<Longrightarrow> loads (g n) w cs \<Longrightarrow>
   loads (\<lambda>a. rbind (get 8 a) (\<lambda>(sz, a). g (le_val sz) a)) w (size_bytes n @ cs)"
  using loads_seq [of "get 8" "size_bytes n" "size_bytes n" "\<lambda>sz. g (le_val sz)" w cs]
    loads_get [of 8 "size_bytes n"] le_val_size_bytes [of n]
  by (simp del: le_bytes.simps)

lemma loads_elems:
  "\<forall>v\<in>set vs. loads (load get msz t) v (flat v) \<Longrightarrow>
   loads (load_elems get msz t (length vs)) vs (concat (map flat vs))"
proof (induction vs)
  case Nil
  show ?case using loads_Inr [of "[]"] by simp
next
  case (Cons v vs)
  then have "loads (\<lambda>a. rbind (load_elems get msz t (length vs) a) (\<lambda>(xs, a). Inr (v # xs, a)))
      (v # vs) (concat (map flat vs))"
    by (intro loads_map [where h = "\<lambda>xs. v # xs" and v = vs]) auto
  then have "loads (\<lambda>a. rbind (load get msz t a) (\<lambda>(x, a).
      rbind (load_elems get msz t (length vs) a) (\<lambda>(xs, a). Inr (x # xs, a))))
      (v # vs) (flat v @ concat (map flat vs))"
    using Cons.prems by (intro loads_seq [where v = v]) auto
  then show ?case by simp
qed

lemma loads_pairs:
  assumes "\<forall>(x, y)\<in>set kvs. loads (load get msz k) x (flat x) \<and> loads (load get msz t) y (flat y)"
    and "distinct (map fst (m @ kvs))"
  shows "loads (load_pairs get msz k t (length kvs) m) (m @ kvs)
    (concat (map (\<lambda>(x, y). x @ y) (map (map_prod flat flat) kvs)))"
  using assms
proof (induction kvs arbitrary: m)
  case Nil
  show ?case using loads_Inr [of m] by simp
next
  case (Cons p kvs)
  obtain x y where p: "p = (x, y)" by (rule prod.exhaust)
  have u: "AList.update x y m = m @ [(x, y)]"
    using Cons.prems(2) p by (intro AList_update_new) auto
  have lx: "loads (load get msz k) x (flat x)" and ly: "loads (load get msz t) y (flat y)"
    using Cons.prems(1) p by auto
  have rest: "loads (load_pairs get msz k t (length kvs) (AList.update x y m)) ((m @ [(x, y)]) @ kvs)
      (concat (map (\<lambda>(x, y). x @ y) (map (map_prod flat flat) kvs)))"
    unfolding u using Cons.prems p by (intro Cons.IH) auto
  have "loads (\<lambda>a. rbind (load get msz t a)
      (\<lambda>(y, a). load_pairs get msz k t (length kvs) (AList.update x y m) a))
      ((m @ [(x, y)]) @ kvs)
      (flat y @ concat (map (\<lambda>(x, y). x @ y) (map (map_prod flat flat) kvs)))"
    by (rule loads_seq [where v = y, OF ly]) (rule rest)
  then have "loads (\<lambda>a. rbind (load get msz k a) (\<lambda>(x, a).
      rbind (load get msz t a) (\<lambda>(y, a). load_pairs get msz k t (length kvs) (AList.update x y m) a)))
      ((m @ [(x, y)]) @ kvs)
      (flat x @ flat y @ concat (map (\<lambda>(x, y). x @ y) (map (map_prod flat flat) kvs)))"
    by (rule loads_seq [where v = x, OF lx])
  then show ?case by (simp add: p)
qed

lemma loads_fields:
  "list_all2 (\<lambda>v t. loads (load get msz t) v (flat v)) vs ts \<Longrightarrow>
   loads (load_fields get msz ts) vs (concat (map flat vs))"
proof (induction vs ts rule: list_all2_induct)
  case Nil
  show ?case using loads_Inr [of "[]"] by simp
next
  case (Cons v vs t ts)
  then have "loads (\<lambda>a. rbind (load_fields get msz ts a) (\<lambda>(xs, a). Inr (v # xs, a)))
      (v # vs) (concat (map flat vs))"
    by (intro loads_map [where h = "\<lambda>xs. v # xs" and v = vs]) auto
  then have "loads (\<lambda>a. rbind (load get msz t a) (\<lambda>(x, a).
      rbind (load_fields get msz ts a) (\<lambda>(xs, a). Inr (x # xs, a))))
      (v # vs) (flat v @ concat (map flat vs))"
    using Cons.hyps by (intro loads_seq [where v = v]) auto
  then show ?case by simp
qed

lemma loads_vec_triv:
  assumes "\<forall>v\<in>set vs. wt msz v (TTriv k)" "length vs \<le> msz (TVec (TTriv k))" "length vs < 2 ^ 64"
  shows "loads (load get msz (TVec (TTriv k))) (VVec vs) (flat (VVec vs))"
proof -
  let ?g = "\<lambda>n a. rbind (check_resize msz (TVec (TTriv k)) n) (\<lambda>_.
      if n > 0 then rbind (get (n * k) a) (\<lambda>(bs, a). Inr (VVec (chunk k n bs), a))
      else Inr (VVec [], a))"
  have body: "loads (?g (length vs)) (VVec vs) (concat (map flat vs))"
  proof (cases vs)
    case Nil
    then show ?thesis using loads_Inr by (simp add: check_resize_def)
  next
    case (Cons x xs)
    then show ?thesis
      using loads_map [OF loads_get [OF triv_concat_length [OF assms(1), symmetric]],
          of "VVec vs" "\<lambda>bs. VVec (chunk k (length vs) bs)"] assms chunk_concat [OF assms(1)]
      by (simp add: check_resize_def)
  qed
  have e: "load get msz (TVec (TTriv k)) = (\<lambda>a. rbind (get 8 a) (\<lambda>(sz, a). ?g (le_val sz) a))"
    by (rule ext) simp
  show ?thesis unfolding e using loads_size [of "length vs" ?g, OF assms(3) body] by simp
qed

lemma load_TVec_other:
  "\<not> is_trivially_serializable t \<Longrightarrow> load get msz (TVec t) a =
     rbind (get 8 a) (\<lambda>(sz, a).
     rbind (check_resize msz (TVec t) (le_val sz)) (\<lambda>_.
     rbind (load_elems get msz t (le_val sz) a) (\<lambda>(vs, a). Inr (VVec vs, a))))"
  by (cases t) auto

lemma load_TArr_other:
  "\<not> is_trivially_serializable t \<Longrightarrow> load get msz (TArr n t) a =
     rbind (load_elems get msz t n a) (\<lambda>(vs, a). Inr (VArr vs, a))"
  by (cases t) auto

lemma loads_str:
  assumes "length bs \<le> msz TStr" "length bs < 2 ^ 64"
  shows "loads (load get msz TStr) (VStr bs) (flat (VStr bs))"
proof -
  let ?g = "\<lambda>n a. rbind (check_resize msz TStr n) (\<lambda>_.
      if n > 0 then rbind (get n a) (\<lambda>(bs, a). Inr (VStr bs, a)) else Inr (VStr [], a))"
  have body: "loads (?g (length bs)) (VStr bs) bs"
  proof (cases bs)
    case Nil
    then show ?thesis using loads_Inr by (simp add: check_resize_def)
  next
    case (Cons x xs)
    then show ?thesis
      using loads_map [OF loads_get [OF refl], of "VStr bs" VStr bs] assms
      by (simp add: check_resize_def)
  qed
  have e: "load get msz TStr = (\<lambda>a. rbind (get 8 a) (\<lambda>(sz, a). ?g (le_val sz) a))"
    by (rule ext) simp
  show ?thesis unfolding e using loads_size [of "length bs" ?g, OF assms(2) body] by simp
qed

lemma loads_vec_other:
  assumes "\<not> is_trivially_serializable t" "\<forall>v\<in>set vs. loads (load get msz t) v (flat v)"
    and "length vs \<le> msz (TVec t)" "length vs < 2 ^ 64"
  shows "loads (load get msz (TVec t)) (VVec vs) (flat (VVec vs))"
proof -
  let ?g = "\<lambda>n a. rbind (check_resize msz (TVec t) n) (\<lambda>_.
      rbind (load_elems get msz t n a) (\<lambda>(vs, a). Inr (VVec vs, a)))"
  have "loads (?g (length vs)) (VVec vs) (concat (map flat vs))"
    using loads_map [OF loads_elems [OF assms(2)], of "VVec vs" VVec] assms(3)
    by (simp add: check_resize_def)
  from loads_size [of "length vs" ?g, OF assms(4) this]
  have "loads (\<lambda>a. rbind (get 8 a) (\<lambda>(sz, a). ?g (le_val sz) a)) (VVec vs) (flat (VVec vs))"
    by simp
  moreover have "load get msz (TVec t) = (\<lambda>a. rbind (get 8 a) (\<lambda>(sz, a). ?g (le_val sz) a))"
    using load_TVec_other [OF assms(1)] by (intro ext) simp
  ultimately show ?thesis by simp
qed

lemma loads_arr:
  assumes "\<forall>v\<in>set vs. wt msz v t" "\<forall>v\<in>set vs. loads (load get msz t) v (flat v)"
  shows "loads (load get msz (TArr (length vs) t)) (VArr vs) (flat (VArr vs))"
proof (cases "is_trivially_serializable t")
  case True
  then obtain k where t: "t = TTriv k" by (auto simp: is_triv_iff)
  let ?n = "length vs"
  have "loads (\<lambda>a. rbind (get (?n * k) a) (\<lambda>(bs, a). Inr (VArr (chunk k ?n bs), a)))
      (VArr vs) (concat (map flat vs))"
    using loads_map [OF loads_get [OF triv_concat_length [symmetric]],
        of vs msz k "VArr vs" "\<lambda>bs. VArr (chunk k ?n bs)"] assms(1) t chunk_concat [of vs msz k]
    by simp
  moreover have "load get msz (TArr ?n t) =
      (\<lambda>a. rbind (get (?n * k) a) (\<lambda>(bs, a). Inr (VArr (chunk k ?n bs), a)))"
    by (intro ext) (simp add: t)
  ultimately show ?thesis by simp
next
  case False
  have "load get msz (TArr (length vs) t) =
      (\<lambda>a. rbind (load_elems get msz t (length vs) a) (\<lambda>(vs, a). Inr (VArr vs, a)))"
    using load_TArr_other [OF False] by (intro ext) simp
  then show ?thesis using loads_map [OF loads_elems [OF assms(2)], of "VArr vs" VArr] by simp
qed

lemma loads_map_type:
  assumes "\<forall>(x, y)\<in>set kvs. loads (load get msz k) x (flat x) \<and> loads (load get msz t) y (flat y)"
    and "distinct (map fst kvs)" "length kvs < 2 ^ 64"
  shows "loads (load get msz (TMap k t)) (VMap kvs) (flat (VMap kvs))"
proof -
  let ?g = "\<lambda>n a. rbind (load_pairs get msz k t n [] a) (\<lambda>(kvs, a). Inr (VMap kvs, a))"
  have "loads (?g (length kvs)) (VMap kvs)
      (concat (map (\<lambda>(x, y). x @ y) (map (map_prod flat flat) kvs)))"
    using loads_map [OF loads_pairs [of kvs msz k t "[]"], of "VMap kvs" VMap] assms by simp
  from loads_size [of "length kvs" ?g, OF assms(3) this]
  have "loads (\<lambda>a. rbind (get 8 a) (\<lambda>(sz, a). ?g (le_val sz) a)) (VMap kvs) (flat (VMap kvs))"
    by simp
  moreover have "load get msz (TMap k t) = (\<lambda>a. rbind (get 8 a) (\<lambda>(sz, a). ?g (le_val sz) a))"
    by (intro ext) simp
  ultimately show ?thesis by simp
qed

lemma loads_struct:
  assumes "list_all2 (\<lambda>v t. loads (load get msz t) v (flat v)) vs ts"
  shows "loads (load get msz (TStruct ts)) (VStruct vs) (flat (VStruct vs))"
proof -
  have "load get msz (TStruct ts) =
      (\<lambda>a. rbind (load_fields get msz ts a) (\<lambda>(vs, a). Inr (VStruct vs, a)))"
    by (intro ext) simp
  then show ?thesis using loads_map [OF loads_fields [OF assms], of "VStruct vs" VStruct] by simp
qed

lemma loads_load:
  assumes "size_limits msz"
  shows "wt msz v t \<Longrightarrow> loads (load get msz t) v (flat v)"
proof (induction v arbitrary: t)
  case (VTriv bs)
  then obtain n where t: "t = TTriv n" "length bs = n" by (cases t) auto
  then have "load get msz t = (\<lambda>a. rbind (get n a) (\<lambda>(bs, a). Inr (VTriv bs, a)))"
    by (intro ext) simp
  then show ?case using loads_map [OF loads_get [of n bs], of "VTriv bs" VTriv] t by simp
next
  case (VStr bs)
  then have t: "t = TStr" "length bs \<le> msz TStr" by (cases t; simp)+
  then have "length bs < 2 ^ 64" using assms by (simp add: size_limits_def)
  from loads_str [where msz = msz, OF t(2) this] t(1) show ?case by (simp only:)
next
  case (VVec vs)
  then obtain t' where t: "t = TVec t'" "\<forall>v\<in>set vs. wt msz v t'" "length vs \<le> msz (TVec t')"
    by (cases t) (auto simp: list_all_iff)
  then have l: "length vs < 2 ^ 64" "\<forall>v\<in>set vs. loads (load get msz t') v (flat v)"
    using assms VVec.IH le_less_trans [of "length vs" "msz (TVec t')" "2 ^ 63"]
    by (auto simp: size_limits_def)
  show ?case
  proof (cases "is_trivially_serializable t'")
    case True
    then obtain k where k: "t' = TTriv k" by (auto simp: is_triv_iff)
    show ?thesis using loads_vec_triv [of vs msz k] t l unfolding k by blast
  next
    case False
    then show ?thesis using t l loads_vec_other by simp
  qed
next
  case (VArr vs)
  then obtain t' where t: "t = TArr (length vs) t'" "\<forall>v\<in>set vs. wt msz v t'"
    by (cases t) (auto simp: list_all_iff)
  then show ?case using loads_arr [OF t(2)] VArr.IH by simp
next
  case (VMap kvs)
  then obtain k t' where t: "t = TMap k t'" "\<forall>(x, y)\<in>set kvs. wt msz x k \<and> wt msz y t'"
      "distinct (map fst kvs)" "length kvs < 2 ^ 64"
    by (cases t) (auto simp: list_all_iff case_prod_unfold)
  have "\<forall>(x, y)\<in>set kvs. loads (load get msz k) x (flat x) \<and> loads (load get msz t') y (flat y)"
    using t(2) VMap.IH by fastforce
  from loads_map_type [OF this t(3,4)] show ?case unfolding t(1) .
next
  case (VStruct vs)
  then obtain ts where t: "t = TStruct ts" "list_all2 (wt msz) vs ts"
    by (cases t) (auto simp: list_all2_map1)
  have "list_all2 (\<lambda>v t. loads (load get msz t) v (flat v)) vs ts"
    using t(2) VStruct.IH by (auto simp: list_all2_conv_all_nth)
  from loads_struct [OF this] show ?case unfolding t(1) .
qed

end

section \<open>Loading reads a prefix and nothing else\<close>

text \<open>
  The types whose fixed parts are smaller than the largest object, as every type of a C++
  program is.
\<close>

primrec ty_ok :: "ty \<Rightarrow> bool" where
  "ty_ok (TTriv n) \<longleftrightarrow> n < 2 ^ 63"
| "ty_ok TStr \<longleftrightarrow> True"
| "ty_ok (TVec t) \<longleftrightarrow> ty_ok t"
| "ty_ok (TArr n t) \<longleftrightarrow> ty_ok t \<and> (\<forall>k. t = TTriv k \<longrightarrow> n * k < 2 ^ 63)"
| "ty_ok (TMap k t) \<longleftrightarrow> ty_ok k \<and> ty_ok t"
| "ty_ok (TStruct ts) \<longleftrightarrow> list_all ty_ok ts"

context load_archive
begin

text \<open>
  A step parses if a success depends only on a prefix of the bytes that are left, and
  consumes this prefix. Parsing steps compose.
\<close>

definition parses :: "('a \<Rightarrow> ('v \<times> 'a) res) \<Rightarrow> bool" where
  "parses f \<longleftrightarrow> (\<forall>a v a'. ok a \<longrightarrow> f a = Inr (v, a') \<longrightarrow>
     ok a' \<and> (\<exists>c. rest a = c @ rest a' \<and> loads f v c))"

lemma parses_get: "n < 2 ^ 63 \<Longrightarrow> parses (get n)"
  unfolding parses_def using get_Inr loads_get by blast

lemma parses_Inr: "parses (\<lambda>a. Inr (v, a))"
  using loads_Inr by (auto simp: parses_def)

lemma parses_Inl: "parses (\<lambda>a. Inl e)"
  by (simp add: parses_def)

lemma parses_seq:
  assumes "parses f" "\<And>x. parses (g x)"
  shows "parses (\<lambda>a. rbind (f a) (\<lambda>(x, a). g x a))"
  unfolding parses_def
proof (intro allI impI)
  fix a w a2 assume ok: "ok a" and "rbind (f a) (\<lambda>(x, a). g x a) = Inr (w, a2)"
  then obtain x a1 where f: "f a = Inr (x, a1)" and g: "g x a1 = Inr (w, a2)"
    by (auto simp: rbind_eq_Inr_iff)
  from assms(1) ok f obtain c where c: "ok a1" "rest a = c @ rest a1" "loads f x c"
    unfolding parses_def by blast
  from assms(2) [of x] c(1) g obtain d where d: "ok a2" "rest a1 = d @ rest a2" "loads (g x) w d"
    unfolding parses_def by blast
  show "ok a2 \<and> (\<exists>c. rest a = c @ rest a2 \<and> loads (\<lambda>a. rbind (f a) (\<lambda>(x, a). g x a)) w c)"
  proof (intro conjI exI [of _ "c @ d"])
    show "loads (\<lambda>a. rbind (f a) (\<lambda>(x, a). g x a)) w (c @ d)"
      by (rule loads_seq [where v = x, OF c(3)]) (rule d(3))
  qed (simp_all add: c d)
qed

lemma parses_map: "parses f \<Longrightarrow> parses (\<lambda>a. rbind (f a) (\<lambda>(x, a). Inr (h x, a)))"
  by (rule parses_seq [where g = "\<lambda>x a. Inr (h x, a)"]) (simp_all add: parses_Inr)

lemma parses_resize:
  "(n \<le> msz t \<Longrightarrow> parses f) \<Longrightarrow> parses (\<lambda>a. rbind (check_resize msz t n) (\<lambda>_. f a))"
  by (cases "n \<le> msz t") (simp_all add: check_resize_def parses_Inl)

lemma parses_size:
  "(\<And>n. parses (g n)) \<Longrightarrow> parses (\<lambda>a. rbind (get 8 a) (\<lambda>(sz, a). g (le_val sz) a))"
  by (rule parses_seq [where g = "\<lambda>sz. g (le_val sz)"]) (simp_all add: parses_get)

lemma parses_elems: "parses (load get msz t) \<Longrightarrow> parses (load_elems get msz t n)"
proof (induction n)
  case 0
  have "load_elems get msz t 0 = (\<lambda>a. Inr ([], a))" by (rule ext) simp
  then show ?case using parses_Inr by (simp only:)
next
  case (Suc n)
  have e: "load_elems get msz t (Suc n) = (\<lambda>a. rbind (load get msz t a)
      (\<lambda>(v, a). rbind (load_elems get msz t n a) (\<lambda>(vs, a). Inr (v # vs, a))))"
    by (rule ext) simp
  show ?case unfolding e
    by (rule parses_seq [where g = "\<lambda>v a. rbind (load_elems get msz t n a) (\<lambda>(vs, a). Inr (v # vs, a))"])
      (use Suc in \<open>auto intro: parses_map [where h = "\<lambda>vs. _ # vs"]\<close>)
qed

lemma parses_pairs:
  "parses (load get msz k) \<Longrightarrow> parses (load get msz t) \<Longrightarrow> parses (load_pairs get msz k t n m)"
proof (induction n arbitrary: m)
  case 0
  have "load_pairs get msz k t 0 m = (\<lambda>a. Inr (m, a))" by (rule ext) simp
  then show ?case using parses_Inr by (simp only:)
next
  case (Suc n)
  have inner: "parses (\<lambda>a. rbind (load get msz t a)
      (\<lambda>(y, a). load_pairs get msz k t n (AList.update x y m) a))" for x
    by (rule parses_seq [where g = "\<lambda>y. load_pairs get msz k t n (AList.update x y m)"])
      (use Suc in auto)
  have e: "load_pairs get msz k t (Suc n) m = (\<lambda>a. rbind (load get msz k a) (\<lambda>(x, a).
      rbind (load get msz t a) (\<lambda>(y, a). load_pairs get msz k t n (AList.update x y m) a)))"
    by (rule ext) simp
  show ?case unfolding e
    by (rule parses_seq [where g = "\<lambda>x a. rbind (load get msz t a)
        (\<lambda>(y, a). load_pairs get msz k t n (AList.update x y m) a)"]) (use Suc inner in auto)
qed

lemma parses_fields:
  "\<forall>t\<in>set ts. parses (load get msz t) \<Longrightarrow> parses (load_fields get msz ts)"
proof (induction ts)
  case Nil
  have "load_fields get msz [] = (\<lambda>a. Inr ([], a))" by (rule ext) simp
  then show ?case using parses_Inr by (simp only:)
next
  case (Cons t ts)
  have e: "load_fields get msz (t # ts) = (\<lambda>a. rbind (load get msz t a)
      (\<lambda>(v, a). rbind (load_fields get msz ts a) (\<lambda>(vs, a). Inr (v # vs, a))))"
    by (rule ext) simp
  show ?case unfolding e
    by (rule parses_seq [where g = "\<lambda>v a. rbind (load_fields get msz ts a) (\<lambda>(vs, a). Inr (v # vs, a))"])
      (use Cons in \<open>auto intro: parses_map [where h = "\<lambda>vs. _ # vs"]\<close>)
qed

lemma parses_str:
  assumes "size_limits msz"
  shows "parses (load get msz TStr)"
proof -
  let ?g = "\<lambda>n a. rbind (check_resize msz TStr n) (\<lambda>_.
      if n > 0 then rbind (get n a) (\<lambda>(bs, a). Inr (VStr bs, a)) else Inr (VStr [], a))"
  have "parses (?g n)" for n
  proof (rule parses_resize)
    assume "n \<le> msz TStr"
    with assms have "n < 2 ^ 63" by (simp add: size_limits_def)
    then show "parses (\<lambda>a. if n > 0 then rbind (get n a) (\<lambda>(bs, a). Inr (VStr bs, a))
        else Inr (VStr [], a))"
      by (cases "n > 0") (simp_all add: parses_map [where h = VStr] parses_get parses_Inr)
  qed
  then have "parses (\<lambda>a. rbind (get 8 a) (\<lambda>(sz, a). ?g (le_val sz) a))"
    by (rule parses_size [where g = ?g])
  moreover have "load get msz TStr = (\<lambda>a. rbind (get 8 a) (\<lambda>(sz, a). ?g (le_val sz) a))"
    by (rule ext) simp
  ultimately show ?thesis by (simp only:)
qed

lemma parses_vec_triv:
  assumes "size_limits msz"
  shows "parses (load get msz (TVec (TTriv k)))"
proof -
  let ?t = "TVec (TTriv k)"
  let ?g = "\<lambda>n a. rbind (check_resize msz ?t n) (\<lambda>_.
      if n > 0 then rbind (get (n * k) a) (\<lambda>(bs, a). Inr (VVec (chunk k n bs), a))
      else Inr (VVec [], a))"
  have "parses (?g n)" for n
  proof (rule parses_resize)
    assume "n \<le> msz ?t"
    then have "n * k \<le> msz ?t * k" by simp
    also have "\<dots> < 2 ^ 63" using assms by (simp add: size_limits_def)
    finally have "parses (\<lambda>a. rbind (get (n * k) a) (\<lambda>(bs, a). Inr (VVec (chunk k n bs), a)))"
      by (intro parses_map [where h = "\<lambda>bs. VVec (chunk k n bs)"] parses_get)
    then show "parses (\<lambda>a. if n > 0 then rbind (get (n * k) a)
        (\<lambda>(bs, a). Inr (VVec (chunk k n bs), a)) else Inr (VVec [], a))"
      by (cases "n > 0") (simp_all add: parses_Inr)
  qed
  then have "parses (\<lambda>a. rbind (get 8 a) (\<lambda>(sz, a). ?g (le_val sz) a))"
    by (rule parses_size [where g = ?g])
  moreover have "load get msz ?t = (\<lambda>a. rbind (get 8 a) (\<lambda>(sz, a). ?g (le_val sz) a))"
    by (rule ext) simp
  ultimately show ?thesis by (simp only:)
qed

lemma parses_vec_other:
  assumes "parses (load get msz t)" "\<not> is_trivially_serializable t"
  shows "parses (load get msz (TVec t))"
proof -
  let ?g = "\<lambda>n a. rbind (check_resize msz (TVec t) n) (\<lambda>_.
      rbind (load_elems get msz t n a) (\<lambda>(vs, a). Inr (VVec vs, a)))"
  have "parses (?g n)" for n
    by (intro parses_resize parses_map [where h = VVec] parses_elems assms)
  then have "parses (\<lambda>a. rbind (get 8 a) (\<lambda>(sz, a). ?g (le_val sz) a))"
    by (rule parses_size [where g = ?g])
  moreover have "load get msz (TVec t) = (\<lambda>a. rbind (get 8 a) (\<lambda>(sz, a). ?g (le_val sz) a))"
    using load_TVec_other [OF assms(2)] by (intro ext) simp
  ultimately show ?thesis by (simp only:)
qed

lemma parses_arr:
  assumes "parses (load get msz t)" "\<forall>k. t = TTriv k \<longrightarrow> n * k < 2 ^ 63"
  shows "parses (load get msz (TArr n t))"
proof (cases "is_trivially_serializable t")
  case True
  then obtain k where t: "t = TTriv k" by (auto simp: is_triv_iff)
  have "load get msz (TArr n t) =
      (\<lambda>a. rbind (get (n * k) a) (\<lambda>(bs, a). Inr (VArr (chunk k n bs), a)))"
    by (intro ext) (simp add: t)
  moreover have "parses (\<lambda>a. rbind (get (n * k) a) (\<lambda>(bs, a). Inr (VArr (chunk k n bs), a)))"
    using assms(2) t by (intro parses_map [where h = "\<lambda>bs. VArr (chunk k n bs)"] parses_get) simp
  ultimately show ?thesis by (simp only:)
next
  case False
  have "load get msz (TArr n t) =
      (\<lambda>a. rbind (load_elems get msz t n a) (\<lambda>(vs, a). Inr (VArr vs, a)))"
    using load_TArr_other [OF False] by (intro ext) simp
  then show ?thesis using parses_map [OF parses_elems [OF assms(1)], where h = VArr] by (simp only:)
qed

lemma parses_load:
  assumes "size_limits msz"
  shows "ty_ok t \<Longrightarrow> parses (load get msz t)"
proof (induction t)
  case (TTriv n)
  have "load get msz (TTriv n) = (\<lambda>a. rbind (get n a) (\<lambda>(bs, a). Inr (VTriv bs, a)))"
    by (intro ext) simp
  then show ?case using TTriv parses_map [OF parses_get [of n], where h = VTriv] by (simp only: ty_ok.simps)
next
  case TStr
  show ?case using assms by (rule parses_str)
next
  case (TVec t)
  then show ?case
    using parses_vec_triv [OF assms] parses_vec_other [of msz t]
    by (cases "is_trivially_serializable t") (auto simp: is_triv_iff simp del: load.simps)
next
  case (TArr n t)
  then show ?case using parses_arr [of msz t n] by (simp del: load.simps)
next
  case (TMap k t)
  let ?g = "\<lambda>n a. rbind (load_pairs get msz k t n [] a) (\<lambda>(kvs, a). Inr (VMap kvs, a))"
  have "parses (?g n)" for n
    using TMap by (intro parses_map [where h = VMap] parses_pairs) auto
  then have "parses (\<lambda>a. rbind (get 8 a) (\<lambda>(sz, a). ?g (le_val sz) a))"
    by (rule parses_size [where g = ?g])
  moreover have "load get msz (TMap k t) = (\<lambda>a. rbind (get 8 a) (\<lambda>(sz, a). ?g (le_val sz) a))"
    by (intro ext) simp
  ultimately show ?case by (simp only:)
next
  case (TStruct ts)
  have "load get msz (TStruct ts) =
      (\<lambda>a. rbind (load_fields get msz ts a) (\<lambda>(vs, a). Inr (VStruct vs, a)))"
    by (intro ext) simp
  moreover have "parses (load_fields get msz ts)"
    using TStruct by (intro parses_fields) (simp add: list_all_iff)
  ultimately show ?case using parses_map [where h = VStruct and f = "load_fields get msz ts"] by (simp only:)
qed

text \<open>
  So no proper prefix of an encoding loads: it would also be read from the whole encoding,
  and would leave something of it unread.
\<close>

lemma load_truncated:
  assumes "size_limits msz" "ty_ok t" "wt msz v t"
    and "ok a" "ok b" "rest b = flat v" "flat v = rest a @ x" "x \<noteq> []"
  shows "\<exists>e. load get msz t a = Inl e"
proof (rule ccontr)
  assume "\<nexists>e. load get msz t a = Inl e"
  then obtain w a' where w: "load get msz t a = Inr (w, a')" by (cases "load get msz t a") auto
  with parses_load [OF assms(1,2)] assms(4) obtain c where
    c: "rest a = c @ rest a'" "loads (load get msz t) w c" unfolding parses_def by blast
  from c(2) assms(5-7) c(1) obtain b' where b': "load get msz t b = Inr (w, b')" "rest b' = rest a' @ x"
    unfolding loads_def by (metis append.assoc)
  from loads_load [OF assms(1,3)] assms(5,6) obtain b'' where
    "load get msz t b = Inr (v, b'')" "rest b'' = []"
    unfolding loads_def by (metis append_Nil2)
  with b' assms(8) show False by simp
qed

end

section \<open>What is loaded is well-typed, whatever the bytes\<close>

lemma chunk_wt:
  "length bs = n * k \<Longrightarrow> length (chunk k n bs) = n \<and> (\<forall>x\<in>set (chunk k n bs). wt msz x (TTriv k))"
proof (induction n arbitrary: bs)
  case (Suc n)
  then have "length (drop k bs) = n * k" "length bs = k + n * k" by simp_all
  with Suc.IH show ?case by (auto simp del: length_drop)
qed simp

context load_archive
begin

text \<open>A step that loads only objects of a type, and keeps the archive.\<close>

definition loads_type :: "(ty \<Rightarrow> nat) \<Rightarrow> ty \<Rightarrow> ('a \<Rightarrow> (val \<times> 'a) res) \<Rightarrow> bool" where
  "loads_type msz t f \<longleftrightarrow> (\<forall>a v a'. ok a \<longrightarrow> f a = Inr (v, a') \<longrightarrow> ok a' \<and> wt msz v t)"

lemma loads_typeD: "loads_type msz t f \<Longrightarrow> ok a \<Longrightarrow> f a = Inr (v, a') \<Longrightarrow> ok a' \<and> wt msz v t"
  unfolding loads_type_def by blast

lemma get_size:
  assumes "ok a" "get 8 a = Inr (sz, a')"
  shows "ok a' \<and> le_val sz < 2 ^ 64"
  using get_Inr [OF assms(1) _ assms(2)] le_val_bound [of sz] by auto

lemma load_elems_type:
  assumes "loads_type msz t (load get msz t)"
  shows "ok a \<Longrightarrow> load_elems get msz t n a = Inr (vs, a') \<Longrightarrow>
    ok a' \<and> length vs = n \<and> (\<forall>x\<in>set vs. wt msz x t)"
proof (induction n arbitrary: a vs)
  case (Suc n)
  from Suc.prems(2) obtain v a1 us where 1: "load get msz t a = Inr (v, a1)"
      "load_elems get msz t n a1 = Inr (us, a')" "vs = v # us"
    by (auto simp: rbind_eq_Inr_iff)
  from loads_typeD [OF assms Suc.prems(1) 1(1)] have "ok a1" "wt msz v t" by simp_all
  with Suc.IH [OF _ 1(2)] 1(3) show ?case by simp
qed simp

lemma load_pairs_type:
  assumes "loads_type msz k (load get msz k)" "loads_type msz t (load get msz t)"
  shows "ok a \<Longrightarrow> distinct (map fst m) \<Longrightarrow> \<forall>(x, y)\<in>set m. wt msz x k \<and> wt msz y t \<Longrightarrow>
    load_pairs get msz k t n m a = Inr (kvs, a') \<Longrightarrow>
    ok a' \<and> length kvs \<le> length m + n \<and> distinct (map fst kvs) \<and>
      (\<forall>(x, y)\<in>set kvs. wt msz x k \<and> wt msz y t)"
proof (induction n arbitrary: a m)
  case (Suc n)
  from Suc.prems(4) obtain x a1 y a2 where 1: "load get msz k a = Inr (x, a1)"
      "load get msz t a1 = Inr (y, a2)" "load_pairs get msz k t n (AList.update x y m) a2 = Inr (kvs, a')"
    by (auto simp: rbind_eq_Inr_iff)
  from loads_typeD [OF assms(1) Suc.prems(1) 1(1)] have x: "ok a1" "wt msz x k" by simp_all
  from loads_typeD [OF assms(2) x(1) 1(2)] have y: "ok a2" "wt msz y t" by simp_all
  have "\<forall>(u, w)\<in>set (AList.update x y m). wt msz u k \<and> wt msz w t"
    using Suc.prems(3) x(2) y(2) by (induction m) auto
  moreover have "length (AList.update x y m) \<le> Suc (length m)" by (induction m) auto
  moreover have "distinct (map fst (AList.update x y m))"
    using Suc.prems(2) by (rule distinct_update)
  ultimately show ?case using Suc.IH [OF y(1) _ _ 1(3)] by fastforce
qed simp

lemma load_fields_type:
  "\<forall>t\<in>set ts. loads_type msz t (load get msz t) \<Longrightarrow> ok a \<Longrightarrow> load_fields get msz ts a = Inr (vs, a') \<Longrightarrow>
    ok a' \<and> list_all2 (wt msz) vs ts"
proof (induction ts arbitrary: a vs)
  case (Cons t ts)
  from Cons.prems(3) obtain v a1 us where 1: "load get msz t a = Inr (v, a1)"
      "load_fields get msz ts a1 = Inr (us, a')" "vs = v # us"
    by (auto simp: rbind_eq_Inr_iff)
  have "loads_type msz t (load get msz t)" using Cons.prems(1) by simp
  from loads_typeD [OF this Cons.prems(2) 1(1)] have "ok a1" "wt msz v t" by simp_all
  with Cons.IH [OF _ _ 1(2)] Cons.prems(1) 1(3) show ?case by simp
qed simp

lemma loads_type_str:
  assumes "size_limits msz"
  shows "loads_type msz TStr (load get msz TStr)"
  unfolding loads_type_def
proof (intro allI impI)
  fix a v a' assume ok: "ok a" and "load get msz TStr a = Inr (v, a')"
  then obtain sz a1 where 1: "get 8 a = Inr (sz, a1)" "le_val sz \<le> msz TStr"
    and v: "(if le_val sz > 0 then rbind (get (le_val sz) a1) (\<lambda>(bs, a). Inr (VStr bs, a))
        else Inr (VStr [], a1)) = Inr (v, a')"
    by (auto simp: rbind_eq_Inr_iff check_resize_def split: if_splits)
  have "ok a1" using get_size [OF ok 1(1)] by simp
  moreover have "le_val sz < 2 ^ 63" using 1(2) assms by (simp add: size_limits_def)
  ultimately show "ok a' \<and> wt msz v TStr"
    using v 1(2) get_Inr [of a1 "le_val sz"] by (auto simp: rbind_eq_Inr_iff split: if_splits)
qed

lemma loads_type_vec_triv:
  assumes "size_limits msz"
  shows "loads_type msz (TVec (TTriv k)) (load get msz (TVec (TTriv k)))"
  unfolding loads_type_def
proof (intro allI impI)
  let ?t = "TVec (TTriv k)"
  fix a v a' assume ok: "ok a" and "load get msz ?t a = Inr (v, a')"
  then obtain sz a1 where 1: "get 8 a = Inr (sz, a1)" "le_val sz \<le> msz ?t"
    and v: "(if le_val sz > 0
        then rbind (get (le_val sz * k) a1) (\<lambda>(bs, a). Inr (VVec (chunk k (le_val sz) bs), a))
        else Inr (VVec [], a1)) = Inr (v, a')"
    by (auto simp: rbind_eq_Inr_iff check_resize_def split: if_splits)
  have a1: "ok a1" using get_size [OF ok 1(1)] by simp
  have "le_val sz * k \<le> msz ?t * k" using 1(2) by (rule mult_le_mono1)
  also have "\<dots> < 2 ^ 63" using assms by (simp add: size_limits_def)
  finally have n: "le_val sz * k < 2 ^ 63" .
  show "ok a' \<and> wt msz v ?t"
  proof (cases "le_val sz > 0")
    case True
    with v obtain bs where bs: "get (le_val sz * k) a1 = Inr (bs, a')" "v = VVec (chunk k (le_val sz) bs)"
      by (auto simp: rbind_eq_Inr_iff)
    from get_Inr [OF a1 n bs(1)] chunk_wt [of bs "le_val sz" k msz] bs(2) 1(2) show ?thesis
      by (subst wt_TVec) auto
  next
    case False
    with v a1 show ?thesis by (subst wt_TVec) auto
  qed
qed

lemma loads_type_vec_other:
  assumes "\<not> is_trivially_serializable t" "loads_type msz t (load get msz t)"
  shows "loads_type msz (TVec t) (load get msz (TVec t))"
  unfolding loads_type_def
proof (intro allI impI)
  fix a v a' assume ok: "ok a" and "load get msz (TVec t) a = Inr (v, a')"
  then obtain sz a1 vs where 1: "get 8 a = Inr (sz, a1)" "le_val sz \<le> msz (TVec t)"
      "load_elems get msz t (le_val sz) a1 = Inr (vs, a')" "v = VVec vs"
    using load_TVec_other [OF assms(1)]
    by (auto simp: rbind_eq_Inr_iff check_resize_def split: if_splits)
  have "ok a1" using get_size [OF ok 1(1)] by simp
  from load_elems_type [OF assms(2) this 1(3)] 1(2,4) show "ok a' \<and> wt msz v (TVec t)"
    by (subst wt_TVec) auto
qed

lemma loads_type_arr:
  assumes "loads_type msz t (load get msz t)" "\<forall>k. t = TTriv k \<longrightarrow> n * k < 2 ^ 63"
  shows "loads_type msz (TArr n t) (load get msz (TArr n t))"
  unfolding loads_type_def
proof (intro allI impI)
  fix a v a' assume ok: "ok a" and l: "load get msz (TArr n t) a = Inr (v, a')"
  show "ok a' \<and> wt msz v (TArr n t)"
  proof (cases "is_trivially_serializable t")
    case True
    then obtain k where k: "t = TTriv k" by (auto simp: is_triv_iff)
    with l obtain bs where bs: "get (n * k) a = Inr (bs, a')" "v = VArr (chunk k n bs)"
      by (auto simp: rbind_eq_Inr_iff)
    from get_Inr [OF ok _ bs(1)] assms(2) k chunk_wt [of bs n k msz] bs(2) show ?thesis
      by (subst wt_TArr) auto
  next
    case False
    with l obtain vs where "load_elems get msz t n a = Inr (vs, a')" "v = VArr vs"
      using load_TArr_other [OF False] by (auto simp: rbind_eq_Inr_iff)
    with load_elems_type [OF assms(1) ok] show ?thesis by (subst wt_TArr) auto
  qed
qed

lemma loads_type_load:
  assumes "size_limits msz"
  shows "ty_ok t \<Longrightarrow> loads_type msz t (load get msz t)"
proof (induction t)
  case (TTriv n)
  then show ?case unfolding loads_type_def using get_Inr [of _ n]
    by (auto simp: rbind_eq_Inr_iff)
next
  case TStr
  show ?case using assms by (rule loads_type_str)
next
  case (TVec t)
  then show ?case using loads_type_vec_triv [OF assms] loads_type_vec_other [of t msz]
    by (cases "is_trivially_serializable t") (auto simp: is_triv_iff simp del: load.simps)
next
  case (TArr n t)
  then show ?case using loads_type_arr [of msz t n] by (simp del: load.simps)
next
  case (TMap k t)
  show ?case unfolding loads_type_def
  proof (intro allI impI)
    fix a v a' assume ok: "ok a" and "load get msz (TMap k t) a = Inr (v, a')"
    then obtain sz a1 kvs where 1: "get 8 a = Inr (sz, a1)" "v = VMap kvs"
        "load_pairs get msz k t (le_val sz) [] a1 = Inr (kvs, a')"
      by (auto simp: rbind_eq_Inr_iff)
    have "ok a1" "le_val sz < 2 ^ 64" using get_size [OF ok 1(1)] by simp_all
    with load_pairs_type [OF _ _ _ _ _ 1(3)] TMap 1(2) show "ok a' \<and> wt msz v (TMap k t)"
      by (subst wt_TMap) auto
  qed
next
  case (TStruct ts)
  show ?case unfolding loads_type_def
  proof (intro allI impI)
    fix a v a' assume ok: "ok a" and "load get msz (TStruct ts) a = Inr (v, a')"
    then obtain vs where 1: "v = VStruct vs" "load_fields get msz ts a = Inr (vs, a')"
      by (auto simp: rbind_eq_Inr_iff)
    with load_fields_type [OF _ ok 1(2)] TStruct show "ok a' \<and> wt msz v (TStruct ts)"
      by (subst wt_TStruct) (auto simp: list_all_iff)
  qed
qed

end

section \<open>Sizes\<close>

lemma foldl_add_sum: "foldl (+) (n::nat) xs = n + sum_list xs"
  by (induction xs arbitrary: n) auto

lemma sizes_elems:
  "\<forall>v\<in>set vs. real_size v t = length (flat v) \<Longrightarrow>
   sum_list (map (\<lambda>f. f t) (map real_size vs)) = length (concat (map flat vs))"
  by (induction vs) auto

lemma sizes_pairs:
  "\<forall>(x, y)\<in>set kvs. real_size x k = length (flat x) \<and> real_size y t = length (flat y) \<Longrightarrow>
   foldl (\<lambda>s (f, g). s + f k + g t) n (map (map_prod real_size real_size) kvs) =
     n + length (concat (map (\<lambda>(x, y). x @ y) (map (map_prod flat flat) kvs)))"
  by (induction kvs arbitrary: n) auto

lemma sizes_fields:
  "list_all2 (\<lambda>v t. real_size v t = length (flat v)) vs ts \<Longrightarrow>
   foldl (\<lambda>s (f, t). s + f t) n (zip (map real_size vs) ts) = n + length (concat (map flat vs))"
  by (induction vs ts arbitrary: n rule: list_all2_induct) auto

lemma real_size_flat: "wt msz v t \<Longrightarrow> real_size v t = length (flat v)"
proof (induction v arbitrary: t)
  case (VTriv bs)
  then show ?case by (cases t) auto
next
  case (VStr bs)
  then show ?case by simp
next
  case (VVec vs)
  then obtain t' where t: "t = TVec t'" "\<forall>v\<in>set vs. wt msz v t'"
    by (cases t) (auto simp: list_all_iff)
  show ?case
  proof (cases "is_trivially_serializable t'")
    case True
    with t triv_concat_length [of vs msz] show ?thesis by (auto simp: is_triv_iff mult.commute)
  next
    case False
    have "\<forall>v\<in>set vs. real_size v t' = length (flat v)" using t(2) VVec.IH by blast
    from sizes_elems [OF this] False t(1) show ?thesis
      by (auto simp: foldl_add_sum is_triv_iff split: ty.splits)
  qed
next
  case (VArr vs)
  then obtain t' where t: "t = TArr (length vs) t'" "\<forall>v\<in>set vs. wt msz v t'"
    by (cases t) (auto simp: list_all_iff)
  show ?case
  proof (cases "is_trivially_serializable t'")
    case True
    with t triv_concat_length [of vs msz] show ?thesis by (auto simp: is_triv_iff)
  next
    case False
    have "\<forall>v\<in>set vs. real_size v t' = length (flat v)" using t(2) VArr.IH by blast
    from sizes_elems [OF this] False t(1) show ?thesis
      by (auto simp: foldl_add_sum is_triv_iff split: ty.splits)
  qed
next
  case (VMap kvs)
  then obtain k t' where t: "t = TMap k t'" "\<forall>(x, y)\<in>set kvs. wt msz x k \<and> wt msz y t'"
    by (cases t) (auto simp: list_all_iff case_prod_unfold)
  have "\<forall>(x, y)\<in>set kvs. real_size x k = length (flat x) \<and> real_size y t' = length (flat y)"
    using t(2) VMap.IH by fastforce
  from sizes_pairs [OF this] t(1) show ?case by simp
next
  case (VStruct vs)
  then obtain ts where t: "t = TStruct ts" "list_all2 (wt msz) vs ts"
    by (cases t) (auto simp: list_all2_map1)
  have "list_all2 (\<lambda>v t. real_size v t = length (flat v)) vs ts"
    using t(2) VStruct.IH by (auto simp: list_all2_conv_all_nth)
  from sizes_fields [OF this] t(1) show ?case by simp
qed

section \<open>Strings of objects\<close>

text \<open>
  \<open>create_string\<close>, \<open>create_from_string\<close> and \<open>serializeList\<close>, on the archives that hold a
  string.
\<close>

definition create_string :: "ty \<Rightarrow> val \<Rightarrow> byte list res" where
  "create_string t v = rbind (save ss_put t v string_save_init) ss_build"

definition create_from_string :: "(ty \<Rightarrow> nat) \<Rightarrow> ty \<Rightarrow> byte list \<Rightarrow> val res" where
  "create_from_string msz t s =
     rbind (load sl_get msz t (string_load_init s)) (\<lambda>(v, a). Inr v)"

fun serializeList :: "(ty \<times> val) list \<Rightarrow> byte list list res" where
  "serializeList [] = Inr []"
| "serializeList ((t, v) # args) =
     rbind (create_string t v) (\<lambda>s. rbind (serializeList args) (\<lambda>ss. Inr (s # ss)))"

lemma create_string_flat: "wt msz v t \<Longrightarrow> create_string t v = Inr (flat v)"
  using ssa.savesD [OF ssa.saves_save [of msz v t] ss_init_ok(1)] ss_init_ok(2) ss_build_ok
  by (auto simp: create_string_def)

lemma serializeList_flat:
  "\<forall>(t, v)\<in>set args. wt msz v t \<Longrightarrow> serializeList args = Inr (map (flat \<circ> snd) args)"
  by (induction args) (auto simp: create_string_flat)

lemma create_from_string_flat:
  assumes "size_limits msz" "wt msz v t" "length (flat v @ r) < 2 ^ 63"
  shows "create_from_string msz t (flat v @ r) = Inr v"
proof -
  have "sl_ok (string_load_init (flat v @ r))" "sl_rest (string_load_init (flat v @ r)) = flat v @ r"
    using assms(3) by (simp_all add: sl_ok_def sl_rest_def string_load_init_def)
  with sla.loads_load [OF assms(1,2)] show ?thesis
    unfolding sla.loads_def create_from_string_def by fastforce
qed


text \<open>The limits of the standard library on a 64-bit machine, for the witnesses.\<close>

definition std_max_size :: "ty \<Rightarrow> nat" where
  "std_max_size t =
     (case t of TVec (TTriv k) \<Rightarrow> (2 ^ 63 - 1) div (max 1 k) | _ \<Rightarrow> 2 ^ 59 - 1)"

lemma std_max_size_limits: "size_limits std_max_size"
proof -
  have "(2 ^ 63 - 1) div max 1 k * k < 2 ^ 63" for k :: nat
  proof -
    have "(2 ^ 63 - 1) div max 1 k * k \<le> (2 ^ 63 - 1) div max 1 k * max 1 k"
      by (intro mult_le_mono2) simp
    also have "\<dots> \<le> 2 ^ 63 - 1" by (rule div_times_less_eq_dividend)
    also have "\<dots> < (2::nat) ^ 63" by simp
    finally show ?thesis .
  qed
  moreover have "(2 ^ 63 - 1) div max 1 k < (2::nat) ^ 63" for k :: nat
    by (rule le_less_trans [OF div_le_dividend]) simp
  ultimately show ?thesis by (auto simp: size_limits_def std_max_size_def split: ty.splits)
qed


text \<open>
  C33. Strings that are longer or shorter than an encoding: bytes after the encoding of an
  object are ignored, and a string that lacks its last byte or more is refused with an
  exception, for every type.
\<close>

theorem create_from_string_prefix:
  assumes "size_limits msz" "ty_ok t" "wt msz v t" "create_string t v = Inr s"
    and "length s + length r < 2 ^ 63" "n < length s"
  shows "create_from_string msz t (s @ r) = Inr v \<and> (\<exists>e. create_from_string msz t (take n s) = Inl e)"
proof -
  have s: "s = flat v" using create_string_flat [OF assms(3)] assms(4) by simp
  let ?a = "string_load_init (take n s)" and ?b = "string_load_init s"
  have "\<exists>e. load sl_get msz t ?a = Inl e"
  proof (rule sla.load_truncated [OF assms(1-3)])
    show "sl_ok ?a" "sl_ok ?b" "sl_rest ?b = flat v"
      using assms(5,6) s by (simp_all add: sl_ok_def string_load_init_def sl_rest_def)
    show "flat v = sl_rest ?a @ drop n s" "drop n s \<noteq> []"
      using assms(6) s by (simp_all add: string_load_init_def sl_rest_def)
  qed
  then show ?thesis
    using create_from_string_flat [OF assms(1,3), of r] assms(5) s
    by (auto simp: create_from_string_def)
qed

theorem create_from_string_prefix_witness:
  "create_from_string std_max_size (TVec (TTriv 2)) ([1, 0, 0, 0, 0, 0, 0, 0, 7, 8] @ [9]) =
     Inr (VVec [VTriv [7, 8]]) \<and>
   (\<exists>e. create_from_string std_max_size (TVec (TTriv 2)) (take 9 [1, 0, 0, 0, 0, 0, 0, 0, 7, 8]) = Inl e)"
proof -
  have w: "wt std_max_size (VVec [VTriv [7, 8]]) (TVec (TTriv 2))"
    by (simp add: std_max_size_def max_def)
  have c: "create_string (TVec (TTriv 2)) (VVec [VTriv [7, 8]]) =
      Inr [1, 0, 0, 0, 0, 0, 0, 0, 7, 8]"
    unfolding create_string_flat [OF w] by code_simp
  show ?thesis
    using create_from_string_prefix [OF std_max_size_limits _ w c, of "[9]" 9] by simp
qed

text \<open>
  C15. Whatever string \<open>create_from_string\<close> is given, also one that no serializer has written: if
  it returns an object, this is a proper object of the type (containers within their limits,
  arrays of the right length, maps with distinct keys), and serializing it again gives a
  string from which the same object is read.
\<close>

theorem create_from_string_typed:
  assumes "size_limits msz" "ty_ok t" "length s < 2 ^ 63" "create_from_string msz t s = Inr v"
  shows "wt msz v t \<and> (\<exists>s'. create_string t v = Inr s' \<and> length s' = real_size v t \<and>
    (length s' < 2 ^ 63 \<longrightarrow> create_from_string msz t s' = Inr v))"
proof -
  have "sl_ok (string_load_init s)" using assms(3) by (simp add: sl_ok_def string_load_init_def)
  moreover obtain a where "load sl_get msz t (string_load_init s) = Inr (v, a)"
    using assms(4) by (auto simp: create_from_string_def rbind_eq_Inr_iff)
  ultimately have w: "wt msz v t"
    using sla.loads_type_load [OF assms(1,2)] unfolding sla.loads_type_def by blast
  then show ?thesis
    using create_from_string_flat [OF assms(1) w, of "[]"] create_string_flat [OF w] real_size_flat [OF w]
    by simp
qed

theorem create_from_string_typed_witness:
  "create_from_string std_max_size TStr ([1, 0, 0, 0, 0, 0, 0, 0, 9] @ [5]) = Inr (VStr [9]) \<and>
   wt std_max_size (VStr [9]) TStr"
proof -
  have w: "wt std_max_size (VStr [9]) TStr" by (simp add: std_max_size_def)
  have f: "flat (VStr [9]) = [1, 0, 0, 0, 0, 0, 0, 0, 9]" by code_simp
  have "create_from_string std_max_size TStr ([1, 0, 0, 0, 0, 0, 0, 0, 9] @ [5]) = Inr (VStr [9])"
    using create_from_string_flat [OF std_max_size_limits w, of "[5]"] by (simp only: f) simp
  with create_from_string_typed [OF std_max_size_limits _ _ this] show ?thesis by simp
qed

end
