(* ===== verification/Gsl_Span.thy ===== *)
theory Gsl_Span
  imports Prelude
begin

text \<open>
  The view types of src/gsl/span.hpp. A span is a pointer and a length; here the pointer is
  an offset into the array \<open>mem\<close> that the span views, and every member function is a
  function of the offset and the length, like in the code. \<open>size_t\<close> arithmetic wraps at
  \<open>2 ^ 64\<close>. Reading outside \<open>mem\<close> is undefined behaviour.
\<close>

section \<open>The member functions\<close>

record span =
  span_data :: nat
  span_size :: nat

definition span_count :: "nat \<Rightarrow> nat \<Rightarrow> span" where
  "span_count f count = \<lparr>span_data = f, span_size = count\<rparr>"

definition span_range :: "nat \<Rightarrow> nat \<Rightarrow> span res" where
  "span_range f l =
     (if f \<ge> l then Inl (Length_error ''span'') else Inr \<lparr>span_data = f, span_size = l - f\<rparr>)"

definition span_first :: "'s span_scheme \<Rightarrow> nat \<Rightarrow> span res" where
  "span_first s count =
     (if count > span_size s then Inl (Length_error ''span'') else Inr (span_count (span_data s) count))"

definition span_last :: "'s span_scheme \<Rightarrow> nat \<Rightarrow> span res" where
  "span_last s count =
     (if count > span_size s then Inl (Length_error ''span'')
      else Inr (span_count (span_data s + span_size s - count) count))"

definition subspan :: "'s span_scheme \<Rightarrow> nat \<Rightarrow> nat \<Rightarrow> span res" where
  "subspan s offset count =
     (if (offset + count) mod 2 ^ 64 > span_size s then Inl (Length_error ''span'')
      else Inr (span_count (span_data s + offset) count))"

definition size_bytes_span :: "nat \<Rightarrow> 's span_scheme \<Rightarrow> nat" where
  "size_bytes_span sizeof s = (span_size s * sizeof) mod 2 ^ 64"

definition span_empty :: "'s span_scheme \<Rightarrow> bool" where
  "span_empty s \<longleftrightarrow> span_size s = 0"

definition span_at :: "'a list \<Rightarrow> 's span_scheme \<Rightarrow> nat \<Rightarrow> 'a res" where
  "span_at mem s idx =
     (if span_data s + idx < length mem then Inr (mem ! (span_data s + idx))
      else Inl (Undefined ''read outside the array''))"

definition span_front :: "'a list \<Rightarrow> 's span_scheme \<Rightarrow> 'a res" where
  "span_front mem s = span_at mem s 0"

definition span_back :: "'a list \<Rightarrow> 's span_scheme \<Rightarrow> 'a res" where
  "span_back mem s =
     (if span_size s = 0 then Inl (Undefined ''read outside the array'') else span_at mem s (span_size s - 1))"

text \<open>The range-based loop from \<open>begin()\<close> to \<open>end()\<close>: the elements it reads.\<close>

fun span_loop :: "'a list \<Rightarrow> nat \<Rightarrow> nat \<Rightarrow> 'a list res" where
  "span_loop mem it 0 = Inr []"
| "span_loop mem it (Suc n) =
     rbind (span_at mem \<lparr>span_data = it, span_size = Suc n\<rparr> 0)
       (\<lambda>x. rbind (span_loop mem (it + 1) n) (\<lambda>xs. Inr (x # xs)))"

definition span_elements :: "'a list \<Rightarrow> 's span_scheme \<Rightarrow> 'a list res" where
  "span_elements mem s = span_loop mem (span_data s) (span_size s)"

section \<open>Making spans\<close>

text \<open>
  The constructors from arrays and the overloads of \<open>make_span\<close>: from a pointer and a count, from
  two iterators, from an array, and from a container with linear storage, whose span starts at
  the null pointer if the container is empty. There is no element to read in an empty container,
  so that every offset stands for the null pointer there.
\<close>

definition span_array :: "'a list \<Rightarrow> span" where
  "span_array arr = \<lparr>span_data = 0, span_size = length arr\<rparr>"

definition make_span_count :: "nat \<Rightarrow> nat \<Rightarrow> span" where
  "make_span_count f count = span_count f count"

definition make_span_range :: "nat \<Rightarrow> nat \<Rightarrow> span res" where
  "make_span_range f l = span_range f l"

definition make_span_array :: "'a list \<Rightarrow> span" where
  "make_span_array arr = span_array arr"

definition null_pointer :: nat where
  "null_pointer = 0"

definition make_span_linear :: "'a list \<Rightarrow> span" where
  "make_span_linear s =
     (let start_ptr = (if length s \<noteq> 0 then 0 else null_pointer) in span_count start_ptr (length s))"

text \<open>A \<open>static_span\<close> is a span whose extent is part of its type and hides the size of the span.\<close>

record static_span = span +
  extent :: nat

definition make_static_span :: "'a list \<Rightarrow> static_span" where
  "make_static_span arr = span.extend (span_array arr) (static_span.fields (length arr))"

definition static_size :: "static_span \<Rightarrow> nat" where
  "static_size s = extent s"

definition static_size_bytes :: "nat \<Rightarrow> static_span \<Rightarrow> nat" where
  "static_size_bytes sizeof s = (extent s * sizeof) mod 2 ^ 64"

definition static_empty :: "static_span \<Rightarrow> bool" where
  "static_empty s \<longleftrightarrow> extent s = 0"

section \<open>What a span views\<close>

definition span_in :: "'a list \<Rightarrow> 's span_scheme \<Rightarrow> bool" where
  "span_in mem s \<longleftrightarrow> span_data s + span_size s \<le> length mem"

definition view :: "'a list \<Rightarrow> 's span_scheme \<Rightarrow> 'a list" where
  "view mem s = take (span_size s) (drop (span_data s) mem)"

lemma span_loop_view: "it + n \<le> length mem \<Longrightarrow> span_loop mem it n = Inr (take n (drop it mem))"
  by (induction n arbitrary: it) (auto simp: span_at_def Cons_nth_drop_Suc [symmetric])

lemma span_elements_view: "span_in mem s \<Longrightarrow> span_elements mem s = Inr (view mem s)"
  by (simp add: span_elements_def span_in_def view_def span_loop_view)

lemma view_subspan:
  "span_in mem s \<Longrightarrow> p + c \<le> span_size s \<Longrightarrow>
   span_in mem (span_count (span_data s + p) c) \<and>
   view mem (span_count (span_data s + p) c) = take c (drop p (view mem s))"
  by (auto simp: span_in_def view_def span_count_def drop_take add.commute min_def)

lemma view_take: "take (span_size s) (view mem s) = view mem s"
  by (simp add: view_def)

text \<open>Every way of making a span of a whole container gives a span of all its elements.\<close>

lemma made_spans:
  "span_in s (span_array s) \<and> view s (span_array s) = s"
  "make_span_array s = span_array s" "make_span_linear s = span_array s"
  "make_span_count 0 (length s) = span_array s"
  "make_span_range 0 (length s) = (if s = [] then Inl (Length_error ''span'') else Inr (span_array s))"
  by (auto simp: span_in_def view_def make_span_array_def make_span_linear_def span_array_def
      span_count_def null_pointer_def make_span_count_def make_span_range_def span_range_def)

lemma made_static_span:
  "span.truncate (make_static_span s) = span_array s"
  "static_size (make_static_span s) = span_size (make_static_span s)"
  "static_size_bytes k (make_static_span s) = size_bytes_span k (make_static_span s)"
  "static_empty (make_static_span s) = span_empty (make_static_span s)"
  "span_in s (make_static_span s)" "view s (make_static_span s) = s"
  by (auto simp: make_static_span_def span_array_def span.defs static_span.defs static_size_def
      static_size_bytes_def size_bytes_span_def static_empty_def span_empty_def span_in_def view_def)

lemma first_view:
  "span_in mem s \<Longrightarrow>
   rbind (span_first s c) (span_elements mem) =
     (if c \<le> span_size s then Inr (take c (view mem s)) else Inl (Length_error ''span''))"
  using view_subspan [of mem s 0 c] by (simp add: span_first_def span_elements_view)

lemma last_view:
  "span_in mem s \<Longrightarrow>
   rbind (span_last s c) (span_elements mem) =
     (if c \<le> span_size s then Inr (drop (span_size s - c) (view mem s)) else Inl (Length_error ''span''))"
  using view_subspan [of mem s "span_size s - c" c] view_take [of s mem]
  by (auto simp: span_last_def span_elements_view drop_take [symmetric])

lemma subspan_view:
  "span_in mem s \<Longrightarrow> p + c < 2 ^ 64 \<Longrightarrow>
   rbind (subspan s p c) (span_elements mem) =
     (if p + c \<le> span_size s then Inr (take c (drop p (view mem s))) else Inl (Length_error ''span''))"
  using view_subspan [of mem s p c] by (simp add: subspan_def span_elements_view)



text \<open>
  The bound check of \<open>subspan\<close> wraps: whatever the span, an offset of \<open>2 ^ 64 - count\<close>
  passes it, and the span it returns lies outside every array that fits into memory, so that
  iterating over it is undefined behaviour instead of a \<open>length_error\<close>.
\<close>

theorem subspan_wraps:
  assumes "length mem < 2 ^ 63" "0 < c" "c \<le> 2 ^ 63"
  shows "\<exists>p. subspan s (2 ^ 64 - c) c = Inr p \<and>
    span_elements mem p = Inl (Undefined ''read outside the array'')"
proof -
  have "\<not> span_data s + (2 ^ 64 - c) < length mem" using assms by simp
  moreover obtain c' where "c = Suc c'" using assms(2) by (cases c) auto
  ultimately have "span_loop mem (span_data s + (2 ^ 64 - c)) c = Inl (Undefined ''read outside the array'')"
    by (simp add: span_at_def)
  moreover have "2 ^ 64 - c + c = (2 ^ 64 :: nat)" using assms(3) by simp
  ultimately show ?thesis by (simp add: subspan_def span_count_def span_elements_def)
qed

theorem subspan_wraps_witness:
  "\<exists>p. subspan \<lparr>span_data = 0, span_size = 3\<rparr> (2 ^ 64 - 2) 2 = Inr p \<and>
     span_elements ''abc'' p = Inl (Undefined ''read outside the array'')"
  using subspan_wraps [of "''abc''" 2 "\<lparr>span_data = 0, span_size = 3\<rparr>"] by simp

end
