(* ===== verification/Message_Protocol.thy ===== *)
theory Message_Protocol
  imports Serialization
begin

text \<open>
  The wire protocol of src/network/protocol.{hpp,cpp}: the eight-byte header that precedes
  every message, the buffer types, and \<open>build\<close>/\<open>cast\<close>, which write a list of objects to a
  buffer of exactly their size and read a list of objects from a buffer.
\<close>

section \<open>Headers\<close>

record header =
  msg_type :: "8 word"
  body_length :: "32 word"

datatype header_message_type = Heartbeat | Normal

fun header_message_code :: "header_message_type \<Rightarrow> 8 word" where
  "header_message_code Heartbeat = 0"
| "header_message_code Normal = 1"

text \<open>
  \<open>sizeof(Header)\<close>: one byte, three bytes of padding that align the length, four bytes of
  length, least significant byte first. Assigning the struct copies the padding, whose bytes
  \<open>pad\<close> are not specified.
\<close>

definition header_size :: nat where
  "header_size = 8"

definition header_to_string :: "byte list \<Rightarrow> header \<Rightarrow> byte list \<Rightarrow> byte list res" where
  "header_to_string pad h buf =
     (if length buf < header_size then Inl (Undefined ''write behind the buffer'')
      else Inr (write_at 0 (msg_type h # pad @ le_bytes 4 (unat (body_length h))) buf))"

definition string_to_header :: "byte list \<Rightarrow> header res" where
  "string_to_header buf =
     (if length buf < header_size then Inl (Undefined ''read behind the buffer'')
      else Inr \<lparr>msg_type = buf ! 0, body_length = of_nat (le_val (take 4 (drop 4 buf)))\<rparr>)"

lemma string_to_header_append:
  assumes "length pad = 3"
  shows "string_to_header (msg_type h # pad @ le_bytes 4 (unat (body_length h)) @ r) = Inr h"
proof -
  have "unat (body_length h) < 256 ^ 4"
    by (rule order_less_le_trans [OF unsigned_less]) simp
  then have "le_val (le_bytes 4 (unat (body_length h))) = unat (body_length h)"
    by (rule le_val_le_bytes)
  then show ?thesis using assms by (simp add: string_to_header_def header_size_def)
qed

text \<open>
  A header written to a buffer is read back, whatever the padding holds, and nothing but
  the first eight bytes of the buffer is written.
\<close>

theorem header_roundtrip:
  assumes "length pad = 3" "header_size \<le> length buf"
  shows "\<exists>buf'. header_to_string pad h buf = Inr buf' \<and> string_to_header buf' = Inr h \<and>
    length buf' = length buf \<and> drop header_size buf' = drop header_size buf"
  using assms string_to_header_append [OF assms(1), of h "drop 8 buf"]
  by (simp add: header_to_string_def header_size_def write_at_def)

theorem header_roundtrip_witness:
  "\<exists>buf'. header_to_string [1, 2, 3] \<lparr>msg_type = 0, body_length = 321432\<rparr> (replicate 8 0) = Inr buf' \<and>
     string_to_header buf' = Inr \<lparr>msg_type = 0, body_length = 321432\<rparr>"
  using header_roundtrip [of "[1, 2, 3]" "replicate 8 0" "\<lparr>msg_type = 0, body_length = 321432\<rparr>"]
  by (auto simp: header_size_def)

section \<open>Buffers\<close>

text \<open>
  A \<open>CopyableBuffer\<close> is a vector of bytes; a \<open>ZeroCopyBuffer\<close> is one that is moved only. The
  move constructors return the new buffer and what is left in the old one.
\<close>

type_synonym copyable_buffer = "byte list"
type_synonym zero_copy_buffer = "byte list"

definition zero_copy_buffer_fill :: "nat \<Rightarrow> byte \<Rightarrow> zero_copy_buffer" where
  "zero_copy_buffer_fill n value = replicate n value"

definition zero_copy_buffer_move :: "zero_copy_buffer \<Rightarrow> zero_copy_buffer \<times> zero_copy_buffer" where
  "zero_copy_buffer_move other = (other, [])"

definition copyable_ref :: "zero_copy_buffer \<Rightarrow> copyable_buffer" where
  "copyable_ref b = b"

text \<open>
  A \<open>ReadOnlyBuffer\<close> points to bytes owned by others; it is serialized as a span of bytes,
  so like a vector.
\<close>

record read_only_buffer =
  ro_data :: "byte list"

definition read_only_val :: "read_only_buffer \<Rightarrow> val" where
  "read_only_val b = VVec (map (\<lambda>x. VTriv [x]) (ro_data b))"

definition rest_at_least :: "nat \<Rightarrow> nat \<Rightarrow> unit res" where
  "rest_at_least rest at_least =
     (if rest < at_least then
        rbind (format ''bad cast: destination size: {}, availabe size: {}''
            [show_nat at_least, show_nat rest])
          (\<lambda>m. Inl (Runtime_error m))
      else Inr ())"

section \<open>Reading and writing lists of objects\<close>

text \<open>\<open>_cast\<close>: the objects read and the offset behind them.\<close>

fun cast_loop :: "(ty \<Rightarrow> nat) \<Rightarrow> ty list \<Rightarrow> fix_load_archive \<Rightarrow> (val list \<times> nat) res" where
  "cast_loop msz [] ar = Inr ([], ro_cursor ar)"
| "cast_loop msz (t # ts) ar =
     rbind (load fl_get msz t ar) (\<lambda>(v, ar).
     rbind (cast_loop msz ts ar) (\<lambda>(vs, pos). Inr (v # vs, pos)))"

definition cast_buf :: "(ty \<Rightarrow> nat) \<Rightarrow> ty list \<Rightarrow> byte list \<Rightarrow> (val list \<times> nat) res" where
  "cast_buf msz ts buf = cast_loop msz ts (fix_load_init buf)"

text \<open>\<open>_build\<close>, and \<open>variadic_sum\<close> over \<open>size_t\<close>, which has no instance for no argument.\<close>

fun build_loop :: "(ty \<times> val) list \<Rightarrow> fix_save_archive \<Rightarrow> fix_save_archive res" where
  "build_loop [] ar = Inr ar"
| "build_loop ((t, v) # args) ar = rbind (save fs_put t v ar) (build_loop args)"

fun variadic_sum :: "nat list \<Rightarrow> nat" where
  "variadic_sum [] = 0"
| "variadic_sum [t] = t"
| "variadic_sum (t # ts) = (t + variadic_sum ts) mod 2 ^ 64"

definition build :: "(ty \<times> val) list \<Rightarrow> byte list res" where
  "build args =
     (let total = variadic_sum (map (\<lambda>(t, v). real_size v t) args)
      in rbind (build_loop args (fix_save_init (zero_copy_buffer_fill total 0)))
           (\<lambda>ar. Inr (fix_buf ar)))"

section \<open>Building writes the encodings, casting reads them\<close>

abbreviation flats :: "(ty \<times> val) list \<Rightarrow> byte list" where
  "flats args \<equiv> concat (map (flat \<circ> snd) args)"

definition args_ok :: "(ty \<Rightarrow> nat) \<Rightarrow> (ty \<times> val) list \<Rightarrow> bool" where
  "args_ok msz args \<longleftrightarrow> list_all (\<lambda>(t, v). wt msz v t) args"

lemma args_ok_simps [simp]:
  "args_ok msz []"
  "args_ok msz ((t, v) # args) \<longleftrightarrow> wt msz v t \<and> args_ok msz args"
  by (simp_all add: args_ok_def)

lemma variadic_sum: "sum_list xs < 2 ^ 64 \<Longrightarrow> variadic_sum xs = sum_list xs"
proof (induction xs rule: variadic_sum.induct)
  case (3 t u us)
  from "3.prems" have "sum_list (u # us) < 2 ^ 64" by simp
  with 3 show ?case by simp
qed simp_all

lemma sum_real_sizes:
  "args_ok msz args \<Longrightarrow> sum_list (map (\<lambda>(t, v). real_size v t) args) = length (flats args)"
  by (induction args) (auto simp: real_size_flat)

lemma build_loop_saves: "args_ok msz args \<Longrightarrow> fsa.saves (build_loop args) (flats args)"
proof (induction args)
  case Nil
  have "build_loop [] = Inr" by (rule ext) simp
  then show ?case using fsa.saves_Inr by simp
next
  case (Cons p args)
  obtain t v where p: "p = (t, v)" by (rule prod.exhaust)
  have e: "build_loop (p # args) = (\<lambda>a. rbind (save fs_put t v a) (build_loop args))"
    by (rule ext) (simp add: p)
  from Cons p show ?case unfolding e by (auto intro: fsa.saves_seq fsa.saves_save)
qed

lemma build_flats:
  assumes "args_ok msz args" "length (flats args) < 2 ^ 64"
  shows "build args = Inr (flats args)"
proof -
  let ?n = "length (flats args)"
  let ?a = "fix_save_init (zero_copy_buffer_fill ?n 0)"
  have total: "variadic_sum (map (\<lambda>(t, v). real_size v t) args) = ?n"
    using variadic_sum sum_real_sizes [OF assms(1)] assms(2) by simp
  have a: "fs_ok ?a" "fs_written ?a = []" "\<And>n. fs_fits ?a n \<longleftrightarrow> n \<le> ?n"
    by (simp_all add: fs_ok_def fs_written_def fs_fits_def fix_save_init_def zero_copy_buffer_fill_def)
  then have "fs_fits ?a ?n" by simp
  with build_loop_saves [OF assms(1)] a(1) obtain b where b: "build_loop args ?a = Inr b" "fs_ok b"
      "fs_written b = fs_written ?a @ flats args" "\<forall>n. fs_fits b n \<longleftrightarrow> fs_fits ?a (?n + n)"
    unfolding fsa.saves_def by blast
  have "\<not> fs_fits b 1" using b(4) a(3) by simp
  with b(2) have "fix_cursor b = length (fix_buf b)" by (simp add: fs_fits_def fs_ok_def)
  with b(3) a(2) have "fix_buf b = flats args" by (simp add: fs_written_def)
  with b(1) show ?thesis by (simp add: build_def total)
qed

text \<open>The loading archive of a fixed buffer \<open>b\<close> never changes its buffer.\<close>

interpretation flb: load_archive fl_get fl_rest "\<lambda>a. fl_ok a \<and> ro_buf a = b" for b
  by unfold_locales (auto simp: fl_get_eq fl_advance)

lemma cast_loop_fields:
  "cast_loop msz ts ar = rbind (load_fields fl_get msz ts ar) (\<lambda>(vs, ar). Inr (vs, ro_cursor ar))"
  by (induction ts arbitrary: ar) (auto simp: rbind_def split: sum.splits)

text \<open>A list of objects is loaded like a class with these fields.\<close>

lemma wt_args:
  "args_ok msz args \<Longrightarrow> wt msz (VStruct (map snd args)) (TStruct (map fst args))"
  by (auto simp: args_ok_def list_all_iff list_all2_conv_all_nth case_prod_unfold)

lemma flat_args: "flat (VStruct (map snd args)) = flats args"
  by (simp add: comp_def)

lemma cast_buf_struct:
  "cast_buf msz ts buf =
     rbind (load fl_get msz (TStruct ts) (fix_load_init buf))
       (\<lambda>(v, ar). Inr (case v of VStruct vs \<Rightarrow> vs | _ \<Rightarrow> [], ro_cursor ar))"
  by (auto simp: cast_buf_def cast_loop_fields rbind_def split: sum.splits)

lemma fix_load_init_ok:
  "fl_ok (fix_load_init buf)" "fl_rest (fix_load_init buf) = buf" "ro_buf (fix_load_init buf) = buf"
  by (simp_all add: fl_ok_def fl_rest_def fix_load_init_def)

lemma cast_flats:
  assumes "size_limits msz" "args_ok msz args"
  shows "cast_buf msz (map fst args) (flats args @ r) = Inr (map snd args, length (flats args))"
proof -
  let ?b = "flats args @ r"
  have "flb.loads ?b (load fl_get msz (TStruct (map fst args))) (VStruct (map snd args)) (flats args)"
    using flb.loads_load [OF assms(1) wt_args [OF assms(2)]] flat_args by metis
  then obtain a where a: "load fl_get msz (TStruct (map fst args)) (fix_load_init ?b) =
      Inr (VStruct (map snd args), a)" "fl_ok a" "ro_buf a = ?b" "fl_rest a = r"
    using fix_load_init_ok unfolding flb.loads_def by metis
  from a(2-4) have "ro_cursor a \<le> length ?b" "drop (ro_cursor a) ?b = r"
    by (simp_all add: fl_ok_def fl_rest_def)
  then have "length ?b - ro_cursor a = length r" "ro_cursor a \<le> length ?b"
    using length_drop [of "ro_cursor a" ?b] by simp_all
  then have "ro_cursor a = length (flats args)" by simp
  with a(1) show ?thesis by (simp add: cast_buf_struct del: load.simps)
qed

lemma cast_short:
  assumes "size_limits msz" "list_all ty_ok (map fst args)" "args_ok msz args" "n < length (flats args)"
  shows "\<exists>e. cast_buf msz (map fst args) (take n (flats args)) = Inl e"
proof -
  have "\<exists>e. load fl_get msz (TStruct (map fst args)) (fix_load_init (take n (flats args))) = Inl e"
  proof (rule fla.load_truncated [OF assms(1) _ wt_args [OF assms(3)]])
    show "ty_ok (TStruct (map fst args))" using assms(2) by (simp add: comp_def)
    show "flat (VStruct (map snd args)) =
        fl_rest (fix_load_init (take n (flats args))) @ drop n (flats args)"
      by (simp add: fix_load_init_ok flat_args del: flat.simps)
    show "drop n (flats args) \<noteq> []" using assms(4) by simp
    show "fl_rest (fix_load_init (flats args)) = flat (VStruct (map snd args))"
      by (simp add: fix_load_init_ok flat_args del: flat.simps)
  qed (simp_all add: fix_load_init_ok)
  then show ?thesis by (auto simp: cast_buf_struct simp del: load.simps)
qed



end
