(* ===== verification/Runtime_Protocol.thy ===== *)
theory Runtime_Protocol
  imports Message_Protocol String_Tools
begin

text \<open>
  The messages of the runtime (src/runtime_protocol.{hpp,cpp}, src/worker.hpp): the cookie by
  which a worker identifies itself, its printed form and its comparison, the information a
  worker sends about its data server, and \<open>to_buffer\<close>/\<open>from_buffer\<close>, which put a message
  type in front of a message and check it. Each class that is serialized has a description
  \<open>*_ty\<close> of its fields in the order of its member \<open>serializable\<close>, and functions to and from
  the values of the serializer.
\<close>

section \<open>Message types\<close>

datatype message_type = Firstconnection | Firstconnectionok | Peersinfo | Peersconnected | Fail

text \<open>
  The enumeration has an underlying type of one byte, so a received message type is any byte.
\<close>

fun message_code :: "message_type \<Rightarrow> byte" where
  "message_code Firstconnection = 0"
| "message_code Firstconnectionok = 1"
| "message_code Peersinfo = 2"
| "message_code Peersconnected = 3"
| "message_code Fail = 4"

lemma message_code_inj [simp]: "message_code a = message_code b \<longleftrightarrow> a = b"
  by (cases a; cases b) simp_all

record runtime_header =
  header_type :: byte

definition runtime_header_ty :: ty where
  "runtime_header_ty = TStruct [TTriv 1]"

definition runtime_header_val :: "runtime_header \<Rightarrow> val" where
  "runtime_header_val h = VStruct [VTriv [header_type h]]"

fun runtime_header_of :: "val \<Rightarrow> runtime_header" where
  "runtime_header_of (VStruct [VTriv [b]]) = \<lparr>header_type = b\<rparr>"
| "runtime_header_of _ = \<lparr>header_type = 0\<rparr>"

lemma runtime_header_of_val [simp]: "runtime_header_of (runtime_header_val h) = h"
  by (simp add: runtime_header_val_def)

definition read_header_messagetype :: "(ty \<Rightarrow> nat) \<Rightarrow> byte list \<Rightarrow> byte res" where
  "read_header_messagetype msz buf =
     rbind (cast_buf msz [runtime_header_ty] buf)
       (\<lambda>(vs, pos). Inr (header_type (runtime_header_of (hd vs))))"

section \<open>Cookies\<close>

definition data_len :: nat where
  "data_len = 16"

record first_con_cookie =
  cookie_data :: "byte list"

definition bad_message :: error where
  "bad_message = Runtime_error ''bad message format!''"

definition length_assert :: "nat \<Rightarrow> nat \<Rightarrow> unit res" where
  "length_assert expected actual = (if expected \<noteq> actual then Inl bad_message else Inr ())"

text \<open>The random generator of the library is a parameter: \<open>dis i\<close> is its \<open>i\<close>-th draw.\<close>

definition random_cookie :: "(nat \<Rightarrow> byte) \<Rightarrow> first_con_cookie" where
  "random_cookie dis = \<lparr>cookie_data = map dis [0..<data_len]\<rparr>"

definition ctoi :: "char \<Rightarrow> byte res" where
  "ctoi c =
     (if char_code c \<ge> char_code CHR ''0'' \<and> char_code c \<le> char_code CHR ''9'' then
        Inr (of_nat (char_code c - char_code CHR ''0''))
      else if char_code c \<ge> char_code CHR ''A'' \<and> char_code c \<le> char_code CHR ''F'' then
        Inr (of_nat (char_code c - char_code CHR ''A'' + 10))
      else Inl (Runtime_error ''string element should be hexdecimal''))"

fun printable_loop :: "string \<Rightarrow> byte list res" where
  "printable_loop (h # l # s) =
     rbind (ctoi h) (\<lambda>x. rbind (ctoi l) (\<lambda>y.
     rbind (printable_loop s) (\<lambda>bs. Inr ((x * 16 + y) # bs))))"
| "printable_loop _ = Inr []"

definition cookie_of_printable :: "string \<Rightarrow> first_con_cookie res" where
  "cookie_of_printable printable =
     (if length printable \<noteq> data_len * 2 then
        rbind (format ''The cookie string length should be {}'' [show_nat (2 * data_len)])
          (\<lambda>m. Inl (Runtime_error m))
      else rbind (printable_loop printable) (\<lambda>bs. Inr \<lparr>cookie_data = bs\<rparr>))"

definition cookie_of_buf :: "byte list \<Rightarrow> nat \<Rightarrow> first_con_cookie res" where
  "cookie_of_buf buf n =
     rbind (length_assert n data_len) (\<lambda>_.
     if n > length buf then Inl (Undefined ''read behind the buffer'')
     else Inr \<lparr>cookie_data = take n buf\<rparr>)"

definition hex_digits :: string where
  "hex_digits = ''0123456789ABCDEF''"

definition to_printable :: "first_con_cookie \<Rightarrow> string" where
  "to_printable c =
     concat (map (\<lambda>b. [hex_digits ! (unat b div 16), hex_digits ! (unat b mod 16)]) (cookie_data c))"

fun cookie_eq_loop :: "byte list \<Rightarrow> byte list \<Rightarrow> nat \<Rightarrow> nat \<Rightarrow> bool" where
  "cookie_eq_loop a b i 0 = True"
| "cookie_eq_loop a b i (Suc n) = (if a ! i \<noteq> b ! i then False else cookie_eq_loop a b (Suc i) n)"

definition cookie_eq :: "first_con_cookie \<Rightarrow> first_con_cookie \<Rightarrow> bool" where
  "cookie_eq a b = cookie_eq_loop (cookie_data a) (cookie_data b) 0 data_len"

definition cookie_neq :: "first_con_cookie \<Rightarrow> first_con_cookie \<Rightarrow> bool" where
  "cookie_neq a b = (\<not> cookie_eq a b)"

text \<open>\<open>std::hash\<close>: the first eight bytes, read as a \<open>size_t\<close>.\<close>

definition cookie_hash :: "first_con_cookie \<Rightarrow> nat" where
  "cookie_hash c = le_val (take 8 (cookie_data c))"

definition cookie_ok :: "first_con_cookie \<Rightarrow> bool" where
  "cookie_ok c \<longleftrightarrow> length (cookie_data c) = data_len"

lemma random_cookie_ok: "cookie_ok (random_cookie dis)"
  by (simp add: cookie_ok_def random_cookie_def)

section \<open>The printed form of a cookie\<close>

text \<open>The two hexadecimal digits of a byte, and the digits as values.\<close>

definition hex_pair :: "byte \<Rightarrow> string" where
  "hex_pair b = [hex_digits ! (unat b div 16), hex_digits ! (unat b mod 16)]"

lemma less_16_cases:
  "n < (16::nat) \<Longrightarrow> n \<in> {0, 1, 2, 3, 4, 5, 6, 7, 8, 9, 10, 11, 12, 13, 14, 15}"
proof -
  assume "n < 16"
  then have "n \<in> set [0..<16]" by simp
  also have "[0..<16] = [0, 1, 2, 3, 4, 5, 6, 7, 8, 9, 10, 11, 12, 13, 14, 15]" by (simp add: upt_rec)
  finally show ?thesis by simp
qed

lemma hex_digit_code:
  "n < 16 \<Longrightarrow> char_code (hex_digits ! n) = (if n < 10 then 48 + n else 55 + n)"
  using less_16_cases [of n] by (auto simp: hex_digits_def char_code_def)

lemma char_code_eq_iff: "char_code c = char_code d \<longleftrightarrow> c = d"
  by (simp add: char_code_def)

lemma char_code_limits:
  "char_code CHR ''0'' = 48" "char_code CHR ''9'' = 57" "char_code CHR ''A'' = 65" "char_code CHR ''F'' = 70"
  by (simp_all add: char_code_def)

lemma ctoi_hex_digit: "n < 16 \<Longrightarrow> ctoi (hex_digits ! n) = Inr (of_nat n)"
  by (auto simp: ctoi_def hex_digit_code char_code_limits)

lemma ctoi_InrD:
  assumes "ctoi c = Inr b"
  shows "unat b < 16 \<and> c = hex_digits ! unat b"
proof -
  obtain n where n: "n < 16" "b = of_nat n" "char_code c = (if n < 10 then 48 + n else 55 + n)"
  proof (cases "char_code c \<le> 57")
    case True
    with assms have "48 \<le> char_code c" "b = of_nat (char_code c - 48)"
      by (auto simp: ctoi_def char_code_limits split: if_splits)
    with True show ?thesis by (intro that [of "char_code c - 48"]) auto
  next
    case False
    with assms have "65 \<le> char_code c" "char_code c \<le> 70" "b = of_nat (char_code c - 65 + 10)"
      by (auto simp: ctoi_def char_code_limits split: if_splits)
    moreover from this(1) have "char_code c - 65 + 10 = char_code c - 55" by simp
    ultimately show ?thesis by (intro that [of "char_code c - 55"]) auto
  qed
  from n(1,2) have "unat b = n" by (simp add: unat_of_nat take_bit_nat_eq_self)
  moreover have "c = hex_digits ! n" using n(1,3) hex_digit_code char_code_eq_iff by metis
  ultimately show ?thesis using n(1) by simp
qed

lemma to_printable_pairs: "to_printable c = concat (map hex_pair (cookie_data c))"
  by (simp add: to_printable_def hex_pair_def [abs_def])

lemma byte_pair: "(of_nat (unat b div 16) :: byte) * 16 + of_nat (unat b mod 16) = b"
proof -
  have "(of_nat (unat b div 16) :: byte) * 16 + of_nat (unat b mod 16) =
      of_nat (unat b div 16 * 16 + unat b mod 16)"
    by (simp only: of_nat_add of_nat_mult of_nat_numeral)
  then show ?thesis by simp
qed

lemma printable_loop_pairs: "printable_loop (concat (map hex_pair bs)) = Inr bs"
proof (induction bs)
  case (Cons b bs)
  have "unat b < 256" using unsigned_less [of b] by simp
  then have "unat b div 16 < 16" "unat b mod 16 < 16" by auto
  then show ?case using Cons ctoi_hex_digit byte_pair by (simp add: hex_pair_def)
qed simp

lemma printable_loop_InrD:
  "printable_loop s = Inr bs \<Longrightarrow> even (length s) \<Longrightarrow>
   s = concat (map hex_pair bs) \<and> length s = 2 * length bs"
proof (induction s arbitrary: bs rule: printable_loop.induct)
  case (1 h l s)
  then obtain x y cs where x: "ctoi h = Inr x" and y: "ctoi l = Inr y"
    and cs: "printable_loop s = Inr cs" "bs = (x * 16 + y) # cs"
    by (auto simp: rbind_eq_Inr_iff)
  have xy: "unat x < 16" "h = hex_digits ! unat x" "unat y < 16" "l = hex_digits ! unat y"
    using ctoi_InrD [OF x] ctoi_InrD [OF y] by simp_all
  have "unat (x * 16 + y) = unat x * 16 + unat y"
    using xy(1,3) by (simp add: unat_word_ariths)
  then have p: "hex_pair (x * 16 + y) = [h, l]"
    using xy by (simp add: hex_pair_def)
  have "s = concat (map hex_pair cs) \<and> length s = 2 * length cs"
    using 1(3) by (intro 1(1) [OF x y cs(1)]) simp
  note ih = this [THEN conjunct1] this [THEN conjunct2]
  have "h # l # s = concat (map hex_pair bs)" using p ih(1) cs(2) by simp
  moreover have "length (h # l # s) = 2 * length bs" using ih(2) cs(2) by simp
  ultimately show ?case ..
qed auto

lemma parse_printed_cookie:
  assumes "cookie_ok c"
  shows "cookie_of_printable (to_printable c) = Inr c"
proof -
  have "length (concat (map hex_pair bs)) = 2 * length bs" for bs
    by (induction bs) (simp_all add: hex_pair_def)
  with assms printable_loop_pairs [of "cookie_data c"] show ?thesis
    by (simp add: cookie_of_printable_def cookie_ok_def to_printable_pairs)
qed

text \<open>
  C37. The printed form of a cookie identifies it: parsing accepts a text exactly when it is
  what \<open>to_printable\<close> prints for a cookie of sixteen bytes, and returns that cookie. So
  printing followed by parsing is the identity, two cookies never print alike, and every
  text of another length or with a character that is no upper-case hexadecimal digit is
  refused.
\<close>

theorem cookie_printable_exact:
  "cookie_of_printable s = Inr c \<longleftrightarrow> cookie_ok c \<and> s = to_printable c"
proof
  assume *: "cookie_of_printable s = Inr c"
  then have len: "length s = 32" and p: "printable_loop s = Inr (cookie_data c)"
    by (auto simp: cookie_of_printable_def data_len_def format_def rbind_eq_Inr_iff
      split: if_splits sum.splits)
  from printable_loop_InrD [OF p] len show "cookie_ok c \<and> s = to_printable c"
    by (simp add: cookie_ok_def data_len_def to_printable_pairs)
next
  assume *: "cookie_ok c \<and> s = to_printable c"
  then show "cookie_of_printable s = Inr c" by (simp add: parse_printed_cookie)
qed

section \<open>Comparing and hashing cookies\<close>

text \<open>
  What an \<open>unordered_set\<close> needs of its keys: an equality that is an equivalence and a hash
  that respects it. Then an element is found in the bucket of its hash exactly when an equal
  one was inserted, whatever the number of buckets.
\<close>

locale hash_key =
  fixes eq :: "'k \<Rightarrow> 'k \<Rightarrow> bool"
    and hash :: "'k \<Rightarrow> nat"
    and key_ok :: "'k \<Rightarrow> bool"
  assumes eq_refl: "key_ok a \<Longrightarrow> eq a a"
    and eq_sym: "key_ok a \<Longrightarrow> key_ok b \<Longrightarrow> eq a b \<Longrightarrow> eq b a"
    and eq_trans: "key_ok a \<Longrightarrow> key_ok b \<Longrightarrow> key_ok c \<Longrightarrow> eq a b \<Longrightarrow> eq b c \<Longrightarrow> eq a c"
    and eq_hash: "key_ok a \<Longrightarrow> key_ok b \<Longrightarrow> eq a b \<Longrightarrow> hash a = hash b"
begin

definition bucket :: "nat \<Rightarrow> 'k list \<Rightarrow> nat \<Rightarrow> 'k list" where
  "bucket n ks i = filter (\<lambda>k. hash k mod n = i) ks"

definition count_in_bucket :: "nat \<Rightarrow> 'k list \<Rightarrow> 'k \<Rightarrow> nat" where
  "count_in_bucket n ks k = length (filter (eq k) (bucket n ks (hash k mod n)))"

lemma count_in_bucket:
  "key_ok k \<Longrightarrow> list_all key_ok ks \<Longrightarrow> count_in_bucket n ks k = length (filter (eq k) ks)"
  unfolding count_in_bucket_def bucket_def filter_filter
  using eq_hash by (intro arg_cong [of _ _ length] filter_cong) (auto simp: list_all_iff)

lemma found_in_bucket:
  "key_ok k \<Longrightarrow> list_all key_ok ks \<Longrightarrow> k \<in> set ks \<Longrightarrow> 0 < count_in_bucket n ks k"
  using eq_refl [of k] by (auto simp: count_in_bucket filter_empty_conv)

end

lemma cookie_eq_loop_nth: "cookie_eq_loop a b i n \<longleftrightarrow> (\<forall>j<n. a ! (i + j) = b ! (i + j))"
  by (induction n arbitrary: i) (auto simp: less_Suc_eq_0_disj)

lemma cookie_eq_iff: "cookie_ok a \<Longrightarrow> cookie_ok b \<Longrightarrow> cookie_eq a b \<longleftrightarrow> a = b"
  by (auto simp: cookie_eq_def cookie_eq_loop_nth cookie_ok_def list_eq_iff_nth_eq
    intro: first_con_cookie.equality)

interpretation ck: hash_key cookie_eq cookie_hash cookie_ok
  by unfold_locales (auto simp: cookie_eq_iff)

section \<open>What a worker says about itself\<close>

text \<open>
  Strings of the program are character lists here and byte strings in the serializer.
\<close>

definition str_bytes :: "string \<Rightarrow> byte list" where
  "str_bytes s = map (\<lambda>c. of_nat (char_code c)) s"

definition bytes_str :: "byte list \<Rightarrow> string" where
  "bytes_str bs = map (\<lambda>b. char_of (unat b)) bs"

lemma char_code_byte: "char_of (unat (of_nat (char_code c) :: byte)) = c"
proof -
  have "char_code c < 256" by (simp add: char_code_def)
  then have "unat (of_nat (char_code c) :: byte) = char_code c"
    by (simp add: unat_of_nat take_bit_nat_eq_self)
  then show ?thesis by (simp add: char_code_def)
qed

lemma bytes_str_str_bytes [simp]: "bytes_str (str_bytes s) = s"
  by (simp add: bytes_str_def str_bytes_def comp_def char_code_byte)

lemma length_str_bytes [simp]: "length (str_bytes s) = length s"
  by (simp add: str_bytes_def)

record worker_data_server_info =
  port :: "16 word"
  addr :: string

record worker_info =
  data_server :: worker_data_server_info

definition to_string :: "worker_data_server_info \<Rightarrow> string" where
  "to_string i = addr i @ '':'' @ show_nat (unat (port i))"

definition worker_info_ty :: ty where
  "worker_info_ty = TStruct [TStruct [TTriv 2, TStr]]"

definition worker_info_val :: "worker_info \<Rightarrow> val" where
  "worker_info_val w =
     VStruct [VStruct [VTriv (le_bytes 2 (unat (port (data_server w)))),
       VStr (str_bytes (addr (data_server w)))]]"

fun worker_info_of :: "val \<Rightarrow> worker_info" where
  "worker_info_of (VStruct [VStruct [VTriv p, VStr a]]) =
     \<lparr>data_server = \<lparr>port = of_nat (le_val p), addr = bytes_str a\<rparr>\<rparr>"
| "worker_info_of _ = \<lparr>data_server = \<lparr>port = 0, addr = []\<rparr>\<rparr>"

lemma le_bytes_word:
  "LENGTH('w::len) \<le> 8 * k \<Longrightarrow> of_nat (le_val (le_bytes k (unat (w :: 'w word)))) = w"
proof -
  assume "LENGTH('w) \<le> 8 * k"
  then have "2 ^ LENGTH('w) \<le> (256::nat) ^ k"
    using power_increasing [of "LENGTH('w)" "8 * k" "2::nat"] by (simp add: power_mult)
  then have "unat w < 256 ^ k" by (rule order_less_le_trans [OF unsigned_less])
  then show ?thesis by (simp add: le_val_le_bytes)
qed

lemma worker_info_of_val [simp]: "worker_info_of (worker_info_val w) = w"
  by (simp add: worker_info_val_def le_bytes_word)

section \<open>The messages\<close>

definition cookie_ty :: ty where
  "cookie_ty = TStruct [TArr data_len (TTriv 1)]"

definition cookie_val :: "first_con_cookie \<Rightarrow> val" where
  "cookie_val c = VStruct [VArr (map (\<lambda>b. VTriv [b]) (cookie_data c))]"

fun cookie_of :: "val \<Rightarrow> first_con_cookie" where
  "cookie_of (VStruct [VArr vs]) = \<lparr>cookie_data = concat (map triv_bytes vs)\<rparr>"
| "cookie_of _ = \<lparr>cookie_data = []\<rparr>"

lemma cookie_of_val [simp]: "cookie_of (cookie_val c) = c"
  by (simp add: cookie_val_def comp_def)

record firsconnection =
  firstcookie :: first_con_cookie
  fc_worker_info :: worker_info

text \<open>\<open>Firsconnection::serializable\<close> names the cookie only.\<close>

definition firsconnection_ty :: ty where
  "firsconnection_ty = TStruct [cookie_ty]"

definition firsconnection_val :: "firsconnection \<Rightarrow> val" where
  "firsconnection_val f = VStruct [cookie_val (firstcookie f)]"

text \<open>
  Loading assigns to a default-constructed object, whose \<open>worker_info\<close> has an empty address
  and a port that is not initialised: \<open>port0\<close>.
\<close>

definition default_worker_info :: "16 word \<Rightarrow> worker_info" where
  "default_worker_info port0 = \<lparr>data_server = \<lparr>port = port0, addr = []\<rparr>\<rparr>"

fun firsconnection_of :: "16 word \<Rightarrow> val \<Rightarrow> firsconnection" where
  "firsconnection_of port0 (VStruct [c]) =
     \<lparr>firstcookie = cookie_of c, fc_worker_info = default_worker_info port0\<rparr>"
| "firsconnection_of port0 _ =
     \<lparr>firstcookie = \<lparr>cookie_data = []\<rparr>, fc_worker_info = default_worker_info port0\<rparr>"

definition firsconnection_ok_ty :: ty where
  "firsconnection_ok_ty = TStruct []"

definition firsconnection_ok_val :: val where
  "firsconnection_ok_val = VStruct []"

text \<open>
  \<open>WorkerInfoMap\<close>: an \<open>unordered_map<int, WorkerInfo>\<close>, in its order of iteration. Connection
  ids are 32-bit \<open>int\<close>s.
\<close>

type_synonym conn_id = "32 word"

type_synonym worker_info_map = "(conn_id \<times> worker_info) list"

definition worker_info_map_ty :: ty where
  "worker_info_map_ty = TStruct [TMap (TTriv 4) worker_info_ty]"

definition worker_info_map_val :: "worker_info_map \<Rightarrow> val" where
  "worker_info_map_val m =
     VStruct [VMap (map (\<lambda>(k, w). (VTriv (le_bytes 4 (unat k)), worker_info_val w)) m)]"

fun worker_info_map_of :: "val \<Rightarrow> worker_info_map" where
  "worker_info_map_of (VStruct [VMap kvs]) =
     map (\<lambda>(k, w). (of_nat (le_val (triv_bytes k)), worker_info_of w)) kvs"
| "worker_info_map_of _ = []"

lemma worker_info_map_of_val [simp]: "worker_info_map_of (worker_info_map_val m) = m"
  by (simp add: worker_info_map_val_def case_prod_unfold comp_def le_bytes_word)

section \<open>Messages in buffers\<close>

definition to_buffer :: "message_type \<Rightarrow> ty \<Rightarrow> val \<Rightarrow> byte list res" where
  "to_buffer mt t v =
     build [(runtime_header_ty, runtime_header_val \<lparr>header_type = message_code mt\<rparr>), (t, v)]"

definition from_buffer :: "(ty \<Rightarrow> nat) \<Rightarrow> message_type \<Rightarrow> ty \<Rightarrow> byte list \<Rightarrow> val res" where
  "from_buffer msz mt t buf =
     rbind (cast_buf msz [runtime_header_ty, t] buf)
       (\<lambda>(vs, pos). if header_type (runtime_header_of (vs ! 0)) \<noteq> message_code mt
          then Inl (Logic_error ''Message type unmatch!'') else Inr (vs ! 1))"

definition firsconnection_to_buffer :: "firsconnection \<Rightarrow> byte list res" where
  "firsconnection_to_buffer f = to_buffer Firstconnection firsconnection_ty (firsconnection_val f)"

definition firsconnection_from_buffer ::
  "(ty \<Rightarrow> nat) \<Rightarrow> 16 word \<Rightarrow> byte list \<Rightarrow> firsconnection res" where
  "firsconnection_from_buffer msz port0 buf =
     rbind (from_buffer msz Firstconnection firsconnection_ty buf)
       (\<lambda>v. Inr (firsconnection_of port0 v))"

definition firsconnection_ok_to_buffer :: "byte list res" where
  "firsconnection_ok_to_buffer =
     to_buffer Firstconnectionok firsconnection_ok_ty firsconnection_ok_val"

definition worker_info_map_to_buffer :: "worker_info_map \<Rightarrow> byte list res" where
  "worker_info_map_to_buffer m = to_buffer Peersinfo worker_info_map_ty (worker_info_map_val m)"

definition worker_info_map_from_buffer ::
  "(ty \<Rightarrow> nat) \<Rightarrow> byte list \<Rightarrow> worker_info_map res" where
  "worker_info_map_from_buffer msz buf =
     rbind (from_buffer msz Peersinfo worker_info_map_ty buf) (\<lambda>v. Inr (worker_info_map_of v))"

text \<open>What a message of a type can be: its encoding must be smaller than the largest object.\<close>

definition message_ok :: "(ty \<Rightarrow> nat) \<Rightarrow> ty \<Rightarrow> val \<Rightarrow> bool" where
  "message_ok msz t v \<longleftrightarrow> wt msz v t \<and> length (flat v) < 2 ^ 63"

lemma header_wt: "wt msz (runtime_header_val h) runtime_header_ty"
  by (simp add: runtime_header_val_def runtime_header_ty_def)

lemma header_flat: "flat (runtime_header_val h) = [header_type h]"
  by (simp add: runtime_header_val_def)

lemma to_buffer_flat:
  "message_ok msz t v \<Longrightarrow> to_buffer mt t v = Inr (message_code mt # flat v)"
  using build_flats [of msz "[(runtime_header_ty, runtime_header_val \<lparr>header_type = message_code mt\<rparr>), (t, v)]"]
  by (simp add: to_buffer_def message_ok_def header_wt header_flat)

lemma from_buffer_flat:
  assumes "size_limits msz" "message_ok msz t v"
  shows "from_buffer msz mt' t (message_code mt # flat v @ r) =
     (if mt = mt' then Inr v else Inl (Logic_error ''Message type unmatch!''))"
proof -
  have "cast_buf msz [runtime_header_ty, t] (message_code mt # flat v @ r) =
      Inr ([runtime_header_val \<lparr>header_type = message_code mt\<rparr>, v], Suc (length (flat v)))"
    using cast_flats [OF assms(1), of "[(runtime_header_ty,
        runtime_header_val \<lparr>header_type = message_code mt\<rparr>), (t, v)]" r] assms(2)
    by (simp add: message_ok_def header_wt header_flat)
  then show ?thesis by (simp add: from_buffer_def)
qed

text \<open>Every buffer that is not empty begins with a message type; an empty one has none.\<close>

lemma load_header:
  "load fl_get msz runtime_header_ty (fix_load_init (b # r)) =
     Inr (runtime_header_val \<lparr>header_type = b\<rparr>, \<lparr>ro_buf = b # r, ro_cursor = 1\<rparr>)"
  by (simp add: runtime_header_ty_def fl_get_eq fl_ok_def fl_rest_def fix_load_init_def
      runtime_header_val_def)

lemma read_header_Cons: "read_header_messagetype msz (b # r) = Inr b"
  by (simp add: read_header_messagetype_def cast_buf_def load_header)

lemma from_buffer_Cons:
  "from_buffer msz mt t (b # r) = Inr v \<Longrightarrow> b = message_code mt"
  by (auto simp: from_buffer_def cast_buf_def load_header rbind_eq_Inr_iff split: if_splits)

text \<open>
  C32. Sending and receiving a runtime message: every message that is built carries its type
  in front, so that \<open>read_header_messagetype\<close> returns it; \<open>from_buffer\<close> for its class returns
  the message, and \<open>from_buffer\<close> for a class with another message type throws, whatever the
  fields of that class are.
\<close>

theorem messages_checked:
  assumes "size_limits msz" "message_ok msz t v" "to_buffer mt t v = Inr buf"
  shows "read_header_messagetype msz buf = Inr (message_code mt) \<and>
    from_buffer msz mt t (buf @ r) = Inr v \<and>
    (mt' \<noteq> mt \<longrightarrow> (\<exists>e. from_buffer msz mt' t' (buf @ r) = Inl e))"
proof -
  have buf: "buf = message_code mt # flat v" using to_buffer_flat [OF assms(2)] assms(3) by simp
  have "\<exists>e. from_buffer msz mt' t' (buf @ r) = Inl e" if "mt' \<noteq> mt"
    using from_buffer_Cons [of msz mt' t' "message_code mt" "flat v @ r"] that buf
    by (cases "from_buffer msz mt' t' (buf @ r)") auto
  then show ?thesis
    using from_buffer_flat [OF assms(1,2)] read_header_Cons buf by simp
qed

theorem messages_checked_witness:
  "from_buffer std_max_size Peersinfo TStr [2, 1, 0, 0, 0, 0, 0, 0, 0, 9] = Inr (VStr [9]) \<and>
   (\<exists>e. from_buffer std_max_size Fail (TTriv 4) [2, 1, 0, 0, 0, 0, 0, 0, 0, 9] = Inl e)"
proof -
  have m: "message_ok std_max_size TStr (VStr [9])" by (simp add: message_ok_def std_max_size_def)
  have "to_buffer Peersinfo TStr (VStr [9]) = Inr [2, 1, 0, 0, 0, 0, 0, 0, 0, 9]"
    unfolding to_buffer_flat [OF m] by code_simp
  from messages_checked [OF std_max_size_limits m this, of "[]" Fail "TTriv 4"]
  show ?thesis by simp
qed

lemma firsconnection_of_val [simp]:
  "firsconnection_of port0 (firsconnection_val f) = f\<lparr>fc_worker_info := default_worker_info port0\<rparr>"
  by (simp add: firsconnection_val_def)

lemma firsconnection_message_ok:
  "cookie_ok (firstcookie f) \<Longrightarrow> message_ok msz firsconnection_ty (firsconnection_val f)"
  by (simp add: message_ok_def firsconnection_ty_def firsconnection_val_def cookie_ty_def
      cookie_val_def cookie_ok_def data_len_def comp_def list_all_iff)

text \<open>
  A first-connection message carries the cookie and nothing else: the receiver gets the
  cookie of the sender, but for every \<open>WorkerInfo\<close> the sender puts in it reads the default
  one, with an empty address and an uninitialised port.
\<close>

theorem firsconnection_drops_worker_info:
  assumes "size_limits msz" "cookie_ok (firstcookie f)"
  shows "rbind (firsconnection_to_buffer f) (firsconnection_from_buffer msz port0) =
     Inr (f\<lparr>fc_worker_info := \<lparr>data_server = \<lparr>port = port0, addr = []\<rparr>\<rparr>\<rparr>)"
  using from_buffer_flat [OF assms(1) firsconnection_message_ok [OF assms(2)],
      of Firstconnection Firstconnection "[]"]
  by (simp add: firsconnection_to_buffer_def firsconnection_from_buffer_def
      to_buffer_flat [OF firsconnection_message_ok [OF assms(2)]] default_worker_info_def)

theorem firsconnection_drops_worker_info_witness:
  "rbind (firsconnection_to_buffer
      \<lparr>firstcookie = \<lparr>cookie_data = replicate 16 7\<rparr>,
        fc_worker_info = \<lparr>data_server = \<lparr>port = 80, addr = ''host''\<rparr>\<rparr>\<rparr>)
     (firsconnection_from_buffer std_max_size 3) =
   Inr \<lparr>firstcookie = \<lparr>cookie_data = replicate 16 7\<rparr>,
      fc_worker_info = \<lparr>data_server = \<lparr>port = 3, addr = []\<rparr>\<rparr>\<rparr>"
  using firsconnection_drops_worker_info [OF std_max_size_limits,
      of "\<lparr>firstcookie = \<lparr>cookie_data = replicate 16 7\<rparr>,
        fc_worker_info = \<lparr>data_server = \<lparr>port = 80, addr = ''host''\<rparr>\<rparr>\<rparr>" 3]
  by (simp add: cookie_ok_def data_len_def)

text \<open>A peer map that can be sent.\<close>

definition worker_info_map_ok :: "(ty \<Rightarrow> nat) \<Rightarrow> worker_info_map \<Rightarrow> bool" where
  "worker_info_map_ok msz m \<longleftrightarrow>
     distinct (map fst m) \<and> list_all (\<lambda>(k, w). length (addr (data_server w)) \<le> msz TStr) m \<and>
     8 + sum_list (map (\<lambda>(k, w). 14 + length (addr (data_server w))) m) < 2 ^ 63"

lemma worker_info_wt:
  "length (addr (data_server w)) \<le> msz TStr \<Longrightarrow> wt msz (worker_info_val w) worker_info_ty"
  by (simp add: worker_info_val_def worker_info_ty_def)

lemma length_peer_map:
  "length (concat (map (\<lambda>(x, y). x @ y) (map (map_prod flat flat)
      (map (\<lambda>(k, w). (VTriv (le_bytes 4 (unat (k :: conn_id))), worker_info_val w)) m)))) =
   sum_list (map (\<lambda>(k, w). 14 + length (addr (data_server w))) m)"
  by (induction m) (auto simp: worker_info_val_def)

lemma le_bytes_inj:
  "le_bytes 4 (unat (j :: conn_id)) = le_bytes 4 (unat k) \<longleftrightarrow> j = k"
proof
  assume eq: "le_bytes 4 (unat j) = le_bytes 4 (unat k)"
  have "of_nat (le_val (le_bytes 4 (unat i))) = i" for i :: conn_id
    by (rule le_bytes_word) simp
  with eq show "j = k" by metis
qed simp

lemma sum_list_length_bound: "length m \<le> sum_list (map (\<lambda>(k, w). 14 + length (addr (data_server w))) m)"
  by (induction m) auto

lemma worker_info_map_message_ok:
  assumes "worker_info_map_ok msz m"
  shows "message_ok msz worker_info_map_ty (worker_info_map_val m)"
proof -
  let ?kvs = "map (\<lambda>(k, w). (VTriv (le_bytes 4 (unat k)), worker_info_val w)) m"
  have ok: "distinct (map fst m)" "list_all (\<lambda>(k, w). length (addr (data_server w)) \<le> msz TStr) m"
    "8 + sum_list (map (\<lambda>(k, w). 14 + length (addr (data_server w))) m) < 2 ^ 63"
    using assms by (simp_all only: worker_info_map_ok_def)
  have "map fst ?kvs = map (\<lambda>k. VTriv (le_bytes 4 (unat k))) (map fst m)"
    by (simp add: case_prod_unfold comp_def)
  moreover have "inj (\<lambda>k :: conn_id. VTriv (le_bytes 4 (unat k)))"
    by (rule injI) (simp add: le_bytes_inj)
  ultimately have d: "distinct (map fst ?kvs)"
    using ok(1) distinct_map inj_on_subset by (metis subset_UNIV)
  have l: "length ?kvs < 2 ^ 64"
    using ok(3) sum_list_length_bound [of m] by simp
  have "\<forall>(x, y)\<in>set ?kvs. wt msz x (TTriv 4) \<and> wt msz y worker_info_ty"
    using ok(2) worker_info_wt by (fastforce simp: list_all_iff)
  with d l have "wt msz (VMap ?kvs) (TMap (TTriv 4) worker_info_ty)"
    by (subst wt_TMap) blast
  then have "wt msz (worker_info_map_val m) worker_info_map_ty"
    by (simp only: worker_info_map_val_def worker_info_map_ty_def wt_TStruct) simp
  moreover have "length (flat (worker_info_map_val m)) < 2 ^ 63"
    using ok(3) length_peer_map [of m] by (simp add: worker_info_map_val_def)
  ultimately show ?thesis by (simp add: message_ok_def)
qed

text \<open>
  The peer map survives the wire: every worker receives the ids, ports and addresses of
  the map that the coordinator sent, in its order.
\<close>

theorem worker_info_map_roundtrip:
  assumes "size_limits msz" "worker_info_map_ok msz m"
  shows "rbind (worker_info_map_to_buffer m) (worker_info_map_from_buffer msz) = Inr m"
  using from_buffer_flat [OF assms(1) worker_info_map_message_ok [OF assms(2)],
      of Peersinfo Peersinfo "[]"]
  by (simp add: worker_info_map_to_buffer_def worker_info_map_from_buffer_def
      to_buffer_flat [OF worker_info_map_message_ok [OF assms(2)]])

theorem worker_info_map_roundtrip_witness:
  "rbind (worker_info_map_to_buffer
       [(0, \<lparr>data_server = \<lparr>port = 80, addr = ''a''\<rparr>\<rparr>), (1, \<lparr>data_server = \<lparr>port = 81, addr = ''bc''\<rparr>\<rparr>)])
     (worker_info_map_from_buffer std_max_size) =
   Inr [(0, \<lparr>data_server = \<lparr>port = 80, addr = ''a''\<rparr>\<rparr>), (1, \<lparr>data_server = \<lparr>port = 81, addr = ''bc''\<rparr>\<rparr>)]"
  by (rule worker_info_map_roundtrip [OF std_max_size_limits])
    (simp add: worker_info_map_ok_def std_max_size_def)

text \<open>
  Cookies are sound keys of an \<open>unordered_set\<close>: for cookies of sixteen bytes the loop of
  \<open>operator==\<close> is equality, and looking for a cookie in the bucket of its hash counts exactly
  its occurrences in the whole set, for every number of buckets.
\<close>

theorem cookie_set_lookup:
  assumes "cookie_ok c" "list_all cookie_ok cs"
  shows "(d \<in> set cs \<longrightarrow> (cookie_eq c d \<longleftrightarrow> c = d)) \<and>
    ck.count_in_bucket n cs c = length (filter (\<lambda>d. c = d) cs)"
proof -
  have "filter (cookie_eq c) cs = filter (\<lambda>d. c = d) cs"
    using assms by (intro filter_cong) (auto simp: list_all_iff cookie_eq_iff)
  then show ?thesis
    using ck.count_in_bucket [OF assms] assms by (auto simp: cookie_eq_iff list_all_iff)
qed

theorem cookie_set_lookup_witness:
  "ck.count_in_bucket 5 [\<lparr>cookie_data = replicate 16 7\<rparr>, \<lparr>cookie_data = replicate 16 8\<rparr>]
     \<lparr>cookie_data = replicate 16 8\<rparr> = 1"
  using cookie_set_lookup [of "\<lparr>cookie_data = replicate 16 8\<rparr>"
      "[\<lparr>cookie_data = replicate 16 7\<rparr>, \<lparr>cookie_data = replicate 16 8\<rparr>]" _ 5]
  by (simp add: cookie_ok_def data_len_def)

end
