(* ===== verification/Id_Supply.thy ===== *)
theory Id_Supply
  imports Prelude "HOL-Library.Word"
begin

text \<open>
  The contract of a source of identifiers: what the id generators of the program (functions,
  executions, connections) promise to the tables that use their ids as keys. The code counts
  a machine integer up, so the promise holds as long as there is room for more ids.
\<close>

locale id_supply =
  fixes next_id :: "'s \<Rightarrow> 'i \<times> 's"
    and issued :: "'s \<Rightarrow> 'i set"
    and room :: "'s \<Rightarrow> nat \<Rightarrow> bool"
  assumes next_fresh: "room s (Suc n) \<Longrightarrow> next_id s = (i, s') \<Longrightarrow>
      i \<notin> issued s \<and> issued s' = insert i (issued s) \<and> room s' n"
begin

primrec draw :: "nat \<Rightarrow> 's \<Rightarrow> 'i list \<times> 's" where
  "draw 0 s = ([], s)"
| "draw (Suc n) s = (let (i, s) = next_id s; (is, s) = draw n s in (i # is, s))"

lemma draw_fresh:
  "room s n \<Longrightarrow> draw n s = (is, s') \<Longrightarrow>
   distinct is \<and> length is = n \<and> set is \<inter> issued s = {} \<and> issued s' = issued s \<union> set is"
proof (induction n arbitrary: s "is" s')
  case (Suc n)
  obtain i t where i: "next_id s = (i, t)" by (rule prod.exhaust)
  obtain js u where js: "draw n t = (js, u)" by (rule prod.exhaust)
  from Suc.prems(2) i js have "is = i # js" "s' = u" by simp_all
  with next_fresh [OF Suc.prems(1) i] Suc.IH [OF _ js] show ?case by auto
qed auto

end

text \<open>Counting a 32-bit integer up: the value before is the id.\<close>

definition post_increment :: "32 word \<Rightarrow> 32 word \<times> 32 word" where
  "post_increment c = (c, c + 1)"

definition ids_below :: "32 word \<Rightarrow> 32 word set" where
  "ids_below c = {i. i < c}"

definition count_room :: "32 word \<Rightarrow> nat \<Rightarrow> bool" where
  "count_room c n \<longleftrightarrow> unat c + n < 2 ^ 32"

lemma unat_Suc_room: "count_room c (Suc n) \<Longrightarrow> unat (c + 1) = Suc (unat c)"
  by (simp add: count_room_def unat_word_ariths)

interpretation counter: id_supply post_increment ids_below count_room
proof (unfold_locales, goal_cases)
  case (1 s n i s')
  then have "unat (s + 1) = Suc (unat s)" by (simp add: unat_Suc_room)
  with 1 show ?case
    by (auto simp: post_increment_def ids_below_def count_room_def word_less_nat_alt less_Suc_eq
        word_unat_eq_iff)
qed

end
