(* ===== verification/Function_Objects.thy ===== *)
theory Function_Objects
  imports Serialization Id_Supply
begin

text \<open>
  Remote functions (include/function_object.hpp, src/function_object.cpp): type-erased values,
  the ids of functions, the object that deserializes arguments, binds them to a function and
  calls it, and the table of registered functions.

  A \<open>BoxedValue\<close> is a shared pointer, so it is an address of a heap of objects: copies of a
  box share the object, and a parameter that is a reference lets the function change it. The
  user's function is a parameter of the model: any function from the heap and its arguments
  to a result.
\<close>

section \<open>Boxed values\<close>

type_synonym heap = "(ty \<times> val) list"

type_synonym boxed_value = nat

definition box :: "ty \<Rightarrow> val \<Rightarrow> heap \<Rightarrow> boxed_value \<times> heap" where
  "box t v h = (length h, h @ [(t, v)])"

text \<open>
  \<open>boxCast\<close> does not check the type; using the pointer at another type is undefined.
\<close>

definition box_cast :: "ty \<Rightarrow> boxed_value \<Rightarrow> heap \<Rightarrow> val res" where
  "box_cast t b h =
     (if b < length h \<and> fst (h ! b) = t then Inr (snd (h ! b))
      else Inl (Undefined ''boxCast to another type''))"

section \<open>Function types and their ids\<close>

text \<open>
  How a parameter is passed; \<open>tl_remove_cvref\<close> strips this from the type that is serialized.
\<close>

datatype passing = By_value | By_reference | By_const_reference | By_rvalue_reference

record param =
  passing :: passing
  base_type :: ty

definition tl_remove_cvref :: "param \<Rightarrow> ty" where
  "tl_remove_cvref p = base_type p"

datatype function_kind = Function_pointer | Std_function

record function_type =
  fkind :: function_kind
  ret_type :: ty
  params :: "param list"

type_synonym func_id = "32 word"

record func_id_gen =
  current :: func_id
  id_lookup :: "string \<rightharpoonup> func_id"

definition gen_id :: "func_id_gen \<Rightarrow> func_id \<times> func_id_gen" where
  "gen_id g = (current g, g\<lparr>current := current g + 1\<rparr>)"

definition get_id_from_mangled :: "string \<Rightarrow> func_id_gen \<Rightarrow> func_id \<times> func_id_gen" where
  "get_id_from_mangled s g =
     (case id_lookup g s of
        Some i \<Rightarrow> (i, g)
      | None \<Rightarrow>
          let i = current g; g = g\<lparr>current := current g + 1\<rparr>
          in (i, g\<lparr>id_lookup := (id_lookup g)(s \<mapsto> i)\<rparr>))"

text \<open>
  \<open>typeid(f).name()\<close> is a property of the compiler: the parameter \<open>typeid_name\<close>. It depends
  on the type of the function only.
\<close>

definition function_id :: "(function_type \<Rightarrow> string) \<Rightarrow> function_type \<Rightarrow> func_id_gen \<Rightarrow> func_id \<times> func_id_gen" where
  "function_id typeid_name ft g = get_id_from_mangled (typeid_name ft) g"

section \<open>Function objects\<close>

text \<open>
  What a call passes: a copy of the object, or its address. The body gets these and the heap
  and returns its result and the heap it leaves, or throws.
\<close>

datatype actual = Copy val | Address boxed_value

type_synonym body = "actual list \<Rightarrow> heap \<Rightarrow> (val \<times> heap) res"

record function_object =
  fo_type :: function_type
  fo_body :: body

definition arity_error_str :: string where
  "arity_error_str = ''Function arguments arity doesnt match: given {}, need {}''"

definition arity_error :: "nat \<Rightarrow> nat \<Rightarrow> 'a res" where
  "arity_error given need =
     rbind (format arity_error_str [show_nat given, show_nat need]) (\<lambda>m. Inl (Parameter_error m))"

fun deserialize_loop :: "(ty \<Rightarrow> nat) \<Rightarrow> nat \<Rightarrow> param list \<Rightarrow> boxed_value list \<Rightarrow> byte list list \<Rightarrow> heap
    \<Rightarrow> (boxed_value list \<times> heap) res" where
  "deserialize_loop msz index [] bvs buffers h =
     (if length bvs \<noteq> length buffers then arity_error (length buffers) index else Inr (bvs, h))"
| "deserialize_loop msz index (p # ps) bvs buffers h =
     (if index + 1 > length buffers then arity_error (length buffers) (1 + index + length ps)
      else
        rbind (create_from_string msz (tl_remove_cvref p) (buffers ! index)) (\<lambda>v.
          let (b, h) = box (tl_remove_cvref p) v h
          in deserialize_loop msz (index + 1) ps (bvs @ [b]) buffers h))"

definition deserialize_arguments ::
  "(ty \<Rightarrow> nat) \<Rightarrow> function_type \<Rightarrow> byte list list \<Rightarrow> heap \<Rightarrow> (boxed_value list \<times> heap) res" where
  "deserialize_arguments msz ft buffers h = deserialize_loop msz 0 (params ft) [] buffers h"

text \<open>
  \<open>_bindArguments\<close> wraps the function in one closure per argument. The closures are
  represented by the parameters and the boxes they hold; the innermost call happens when the
  result of \<open>bindArguments\<close> is called.
\<close>

fun bind_loop :: "nat \<Rightarrow> param list \<Rightarrow> boxed_value list \<Rightarrow> (param \<times> boxed_value) list
    \<Rightarrow> (param \<times> boxed_value) list res" where
  "bind_loop index [] bvs bound =
     (if index \<noteq> length bvs then arity_error (length bvs) index else Inr bound)"
| "bind_loop index (p # ps) bvs bound =
     (if index = length bvs then arity_error (length bvs) (1 + index + length ps)
      else bind_loop (index + 1) ps bvs (bound @ [(p, bvs ! index)]))"

definition bind_arguments ::
  "function_type \<Rightarrow> boxed_value list \<Rightarrow> (param \<times> boxed_value) list res" where
  "bind_arguments ft bvs = bind_loop 0 (params ft) bvs []"

text \<open>\<open>static_cast<Arg1>(*a1)\<close> for every argument.\<close>

fun actuals :: "(param \<times> boxed_value) list \<Rightarrow> heap \<Rightarrow> actual list res" where
  "actuals [] h = Inr []"
| "actuals ((p, b) # bound) h =
     rbind (box_cast (tl_remove_cvref p) b h) (\<lambda>v.
     rbind (actuals bound h) (\<lambda>as.
       Inr ((case passing p of By_value \<Rightarrow> Copy v | _ \<Rightarrow> Address b) # as)))"

definition call_object :: "function_object \<Rightarrow> boxed_value list \<Rightarrow> heap \<Rightarrow> (boxed_value \<times> heap) res" where
  "call_object f bvs h =
     rbind (bind_arguments (fo_type f) bvs) (\<lambda>bound.
     rbind (actuals bound h) (\<lambda>as.
     rbind (fo_body f as h) (\<lambda>(r, h). Inr (box (ret_type (fo_type f)) r h))))"

section \<open>The table of functions\<close>

text \<open>A shared pointer in the table may be null.\<close>

record func_world =
  id_gen :: func_id_gen
  f_table :: "func_id \<rightharpoonup> function_object option"

definition add_func :: "func_id \<Rightarrow> function_object \<Rightarrow> func_world \<Rightarrow> unit res \<times> func_world" where
  "add_func f_id f w =
     (if f_table w f_id \<noteq> None then
        (rbind (format ''The function: {} has been registered!'' [show_nat (unat f_id)])
           (\<lambda>m. Inl (Logic_error m)), w)
      else (Inr (), w\<lparr>f_table := (f_table w)(f_id \<mapsto> Some f)\<rparr>))"

text \<open>\<open>f_table[f_id]\<close> inserts a null pointer for an id that is not there.\<close>

definition get_func_obj :: "func_id \<Rightarrow> func_world \<Rightarrow> function_object option \<times> func_world" where
  "get_func_obj f_id w =
     (case f_table w f_id of
        Some f \<Rightarrow> (f, w)
      | None \<Rightarrow> (None, w\<lparr>f_table := (f_table w)(f_id \<mapsto> None)\<rparr>))"

definition register_func :: "(function_type \<Rightarrow> string) \<Rightarrow> function_object \<Rightarrow> func_world \<Rightarrow> unit res \<times> func_world" where
  "register_func typeid_name f w =
     (let (f_id, g) = function_id typeid_name (fo_type f) (id_gen w)
      in add_func f_id f (w\<lparr>id_gen := g\<rparr>))"

definition init_world :: func_world where
  "init_world = \<lparr>id_gen = \<lparr>current = 0, id_lookup = Map.empty\<rparr>, f_table = Map.empty\<rparr>"

section \<open>Arity and argument passing\<close>

lemma arity_error_eq [simp]:
  "arity_error given need =
     Inl (Parameter_error (''Function arguments arity doesnt match: given '' @ show_nat given @
       '', need '' @ show_nat need))"
  by (simp add: arity_error_def arity_error_str_def format_def)

lemma bind_loop_eq:
  "index \<le> length bvs \<Longrightarrow>
   bind_loop index ps bvs bound =
     (if length bvs = index + length ps then Inr (bound @ zip ps (drop index bvs))
      else arity_error (length bvs) (index + length ps))"
  by (induction index ps bvs bound rule: bind_loop.induct)
    (auto simp: Cons_nth_drop_Suc [symmetric])

lemma bind_arguments_eq:
  "bind_arguments ft bvs =
     (if length bvs = length (params ft) then Inr (zip (params ft) bvs)
      else arity_error (length bvs) (length (params ft)))"
  by (simp add: bind_arguments_def bind_loop_eq)

lemma deserialize_loop_eq:
  assumes "\<And>i. i < length ps \<Longrightarrow> index + i < length buffers \<Longrightarrow>
      create_from_string msz (tl_remove_cvref (ps ! i)) (buffers ! (index + i)) = Inr (vs ! (index + i))"
    and "index = length bvs" "index \<le> length buffers"
  shows "deserialize_loop msz index ps bvs buffers h =
     (if length buffers = index + length ps then
        Inr (bvs @ [length h..<length h + length ps],
          h @ map (\<lambda>i. (tl_remove_cvref (ps ! i), vs ! (index + i))) [0..<length ps])
      else arity_error (length buffers) (index + length ps))"
  using assms
proof (induction ps arbitrary: index bvs h)
  case (Cons p ps)
  show ?case
  proof (cases "index < length buffers")
    case True
    have "create_from_string msz (tl_remove_cvref p) (buffers ! index) = Inr (vs ! index)"
      using Cons.prems(1) [of 0] True by simp
    moreover have dec: "create_from_string msz (tl_remove_cvref (ps ! i)) (buffers ! (Suc index + i)) =
        Inr (vs ! (Suc index + i))" if "i < length ps" "Suc index + i < length buffers" for i
      using Cons.prems(1) [of "Suc i"] that by simp
    note Cons.IH [OF dec, of "bvs @ [length h]" "h @ [(tl_remove_cvref p, vs ! index)]"]
    moreover have "map (\<lambda>i. (tl_remove_cvref ((p # ps) ! i), vs ! (index + i))) [0..<length (p # ps)] =
        (tl_remove_cvref p, vs ! index) #
        map (\<lambda>i. (tl_remove_cvref (ps ! i), vs ! (Suc index + i))) [0..<length ps]"
      by (simp add: upt_conv_Cons map_Suc_upt [symmetric] del: upt_Suc)
    moreover have "[length h..<Suc (length h + length ps)] =
        length h # [Suc (length h)..<Suc (length h + length ps)]"
      by (simp add: upt_conv_Cons del: upt_Suc)
    ultimately show ?thesis using True Cons.prems(2)
      by (simp add: box_def Let_def del: upt_Suc)
  next
    case False
    with Cons.prems(3) show ?thesis by simp
  qed
qed simp

text \<open>
  The number of arguments is checked on both sides of a remote call: whenever every
  buffer that is looked at decodes, \<open>deSerializeArguments\<close> boxes one object per parameter if
  there are as many buffers as parameters, and otherwise throws the arity error with both
  numbers; a call with another number of boxes than parameters throws it without running the
  function.
\<close>

theorem arity_checked:
  assumes "\<forall>i<min (length buffers) (length (params ft)).
      create_from_string msz (base_type (params ft ! i)) (buffers ! i) = Inr (vs ! i)"
  shows "deserialize_arguments msz ft buffers h =
       (if length buffers = length (params ft) then
          Inr ([length h..<length h + length buffers],
            h @ map (\<lambda>i. (base_type (params ft ! i), vs ! i)) [0..<length buffers])
        else Inl (Parameter_error (''Function arguments arity doesnt match: given '' @
          show_nat (length buffers) @ '', need '' @ show_nat (length (params ft))))) \<and>
     (length bvs \<noteq> length (params ft) \<longrightarrow>
        call_object \<lparr>fo_type = ft, fo_body = f\<rparr> bvs h =
          Inl (Parameter_error (''Function arguments arity doesnt match: given '' @
            show_nat (length bvs) @ '', need '' @ show_nat (length (params ft)))))"
  using assms deserialize_loop_eq [of "params ft" 0 buffers msz vs "[]" h]
  by (simp add: deserialize_arguments_def tl_remove_cvref_def call_object_def bind_arguments_eq)

theorem arity_checked_witness:
  "deserialize_arguments std_max_size
     \<lparr>fkind = Function_pointer, ret_type = TTriv 4, params = [\<lparr>passing = By_value, base_type = TTriv 1\<rparr>]\<rparr>
     [[5]] [] = Inr ([0], [(TTriv 1, VTriv [5])])"
proof -
  have "create_from_string std_max_size (TTriv 1) [5] = Inr (VTriv [5])"
    using create_from_string_flat [OF std_max_size_limits, of "VTriv [5]" "TTriv 1" "[]"] by simp
  then show ?thesis
    using arity_checked [of "[[5]]" "\<lparr>fkind = Function_pointer, ret_type = TTriv 4,
        params = [\<lparr>passing = By_value, base_type = TTriv 1\<rparr>]\<rparr>" std_max_size "[VTriv [5]]" "[]" "[0]"]
    by simp
qed

text \<open>What the function sees of an argument that was sent to it.\<close>

definition passed :: "param \<Rightarrow> boxed_value \<Rightarrow> val \<Rightarrow> actual" where
  "passed p b v = (case passing p of By_value \<Rightarrow> Copy v | _ \<Rightarrow> Address b)"

lemma actuals_boxes:
  "length ps = length vs \<Longrightarrow>
   actuals (zip ps [length h..<length h + length vs])
     (h @ zip (map base_type ps) vs @ h') =
   Inr (map (\<lambda>(p, b, v). passed p b v) (zip ps (zip [length h..<length h + length vs] vs)))"
proof (induction ps vs arbitrary: h rule: list_induct2)
  case (Cons p ps v vs)
  have "[length h..<length h + length (v # vs)] =
      length h # [length (h @ [(base_type p, v)])..<length (h @ [(base_type p, v)]) + length vs]"
    by (simp add: upt_conv_Cons del: upt_Suc)
  with Cons.IH [of "h @ [(base_type p, v)]"] show ?case
    by (simp add: box_cast_def tl_remove_cvref_def passed_def del: upt_Suc)
qed simp

definition sendable :: "(ty \<Rightarrow> nat) \<Rightarrow> param \<Rightarrow> val \<Rightarrow> bool" where
  "sendable msz p v \<longleftrightarrow> wt msz v (base_type p) \<and> length (flat v) < 2 ^ 63"

lemma sent_arguments:
  assumes "size_limits msz" "list_all2 (sendable msz) ps vs"
  shows "serializeList (zip (map base_type ps) vs) = Inr (map flat vs)"
    and "i < length ps \<Longrightarrow> create_from_string msz (base_type (ps ! i)) (map flat vs ! i) = Inr (vs ! i)"
proof -
  have "\<forall>(t, v)\<in>set (zip (map base_type ps) vs). wt msz v t"
    using assms(2) by (auto simp: list_all2_conv_all_nth set_zip sendable_def)
  then have "serializeList (zip (map base_type ps) vs) = Inr (map (flat \<circ> snd) (zip (map base_type ps) vs))"
    by (rule serializeList_flat)
  also have "map (flat \<circ> snd) (zip (map base_type ps) vs) = map flat vs"
    using list_all2_lengthD [OF assms(2)] by (simp add: map_map [symmetric] del: map_map)
  finally show "serializeList (zip (map base_type ps) vs) = Inr (map flat vs)" .
  show "create_from_string msz (base_type (ps ! i)) (map flat vs ! i) = Inr (vs ! i)" if "i < length ps"
    using that assms create_from_string_flat [OF assms(1), of "vs ! i" "base_type (ps ! i)" "[]"]
    by (auto simp: list_all2_conv_all_nth sendable_def)
qed



section \<open>Function ids\<close>

text \<open>
  The generator of function ids, and the table from type names to ids: the ids in the table
  are distinct and were issued.
\<close>

interpretation func_ids: id_supply gen_id "\<lambda>g. ids_below (current g)" "\<lambda>g. count_room (current g)"
  using counter.next_fresh by unfold_locales (force simp: gen_id_def post_increment_def)

definition ids_ok :: "func_id_gen \<Rightarrow> bool" where
  "ids_ok g \<longleftrightarrow> inj_on (id_lookup g) (dom (id_lookup g)) \<and> ran (id_lookup g) \<subseteq> ids_below (current g)"

lemma get_id_known: "id_lookup g s = Some i \<Longrightarrow> get_id_from_mangled s g = (i, g)"
  by (simp add: get_id_from_mangled_def)

lemma get_id_new:
  "id_lookup g s = None \<Longrightarrow> get_id_from_mangled s g =
     (current g, g\<lparr>current := current g + 1, id_lookup := (id_lookup g)(s \<mapsto> current g)\<rparr>)"
  by (simp add: get_id_from_mangled_def Let_def)

lemma inj_on_map_upd:
  assumes "inj_on m (dom m)" "i \<notin> ran m" "m s = None"
  shows "inj_on (m(s \<mapsto> i)) (insert s (dom m))"
proof -
  have "Some i \<notin> m ` dom m" using assms(2) by (auto simp: ran_def)
  moreover have "inj_on (m(s \<mapsto> i)) (dom m)"
    using assms(1,3) unfolding inj_on_def by (metis domIff fun_upd_apply)
  moreover have "(m(s \<mapsto> i)) ` dom m = m ` dom m" using assms(3) by force
  moreover have "s \<notin> dom m" using assms(3) by auto
  ultimately show ?thesis by simp
qed

lemma ids_ok_new:
  assumes "ids_ok g" "id_lookup g s = None" "count_room (current g) (Suc n)"
  shows "ids_ok (g\<lparr>current := current g + 1, id_lookup := (id_lookup g)(s \<mapsto> current g)\<rparr>)"
    and "current g \<notin> ran (id_lookup g)" and "count_room (current g + 1) n"
proof -
  have *: "current g \<notin> ids_below (current g)"
    "ids_below (current g + 1) = insert (current g) (ids_below (current g))"
    "count_room (current g + 1) n"
    using func_ids.next_fresh [OF assms(3)] by (auto simp: gen_id_def)
  then show r: "current g \<notin> ran (id_lookup g)" and "count_room (current g + 1) n"
    using assms(1) by (auto simp: ids_ok_def)
  have "inj_on ((id_lookup g)(s \<mapsto> current g)) (insert s (dom (id_lookup g)))"
    using assms(1,2) r by (intro inj_on_map_upd) (auto simp: ids_ok_def)
  with assms(1,2) * show
    "ids_ok (g\<lparr>current := current g + 1, id_lookup := (id_lookup g)(s \<mapsto> current g)\<rparr>)"
    by (auto simp: ids_ok_def)
qed

section \<open>Registering functions\<close>

abbreviation type_key :: "(function_type \<Rightarrow> string) \<Rightarrow> function_object \<Rightarrow> string" where
  "type_key tn f \<equiv> tn (fo_type f)"

text \<open>
  After the functions \<open>seen\<close> were registered: the table holds, under the id of every type name
  that occurred, the first function with that name.
\<close>

definition registry :: "(function_type \<Rightarrow> string) \<Rightarrow> function_object list \<Rightarrow> func_world \<Rightarrow> bool" where
  "registry tn seen w \<longleftrightarrow>
     ids_ok (id_gen w) \<and> dom (id_lookup (id_gen w)) = type_key tn ` set seen \<and>
     (\<forall>n i. id_lookup (id_gen w) n = Some i \<longrightarrow>
        f_table w i = Some (find (\<lambda>f. type_key tn f = n) seen)) \<and>
     dom (f_table w) = ran (id_lookup (id_gen w))"

lemma registry_init: "registry tn [] init_world"
  by (simp add: registry_def init_world_def ids_ok_def)

lemma find_append_notin: "\<not> P x \<Longrightarrow> find P (xs @ [x]) = find P xs"
  by (induction xs) auto

lemma find_append_in: "\<exists>y\<in>set xs. P y \<Longrightarrow> find P (xs @ zs) = find P xs"
  by (induction xs) auto

lemma find_append_new: "\<forall>y\<in>set xs. \<not> P y \<Longrightarrow> P x \<Longrightarrow> find P (xs @ [x]) = Some x"
  by (induction xs) auto

lemma register_known:
  assumes "registry tn seen w" "type_key tn f \<in> type_key tn ` set seen"
  shows "registry tn (seen @ [f]) w \<and> (\<exists>m. register_func tn f w = (Inl (Logic_error m), w))"
proof -
  from assms obtain i where i: "id_lookup (id_gen w) (type_key tn f) = Some i"
    unfolding registry_def by blast
  with assms(1) have "f_table w i \<noteq> None" by (simp add: registry_def)
  then have "\<exists>m. register_func tn f w = (Inl (Logic_error m), w)"
    by (simp add: register_func_def function_id_def get_id_known [OF i] add_func_def format_def)
  moreover
  have keep: "find (\<lambda>f. type_key tn f = n) (seen @ [f]) = find (\<lambda>f. type_key tn f = n) seen"
    if "id_lookup (id_gen w) n = Some i" for n i
  proof -
    have "n \<in> type_key tn ` set seen" using that assms(1) unfolding registry_def by blast
    then show ?thesis by (intro find_append_in) auto
  qed
  have "registry tn (seen @ [f]) w"
    unfolding registry_def
  proof (intro conjI allI impI)
    show "ids_ok (id_gen w)" "dom (f_table w) = ran (id_lookup (id_gen w))"
      using assms(1) unfolding registry_def by blast+
    have "dom (id_lookup (id_gen w)) = type_key tn ` set seen"
      using assms(1) unfolding registry_def by blast
    then show "dom (id_lookup (id_gen w)) = type_key tn ` set (seen @ [f])"
      using assms(2) by (simp add: insert_absorb)
  next
    fix n i assume i: "id_lookup (id_gen w) n = Some i"
    with assms(1) have "f_table w i = Some (find (\<lambda>f. type_key tn f = n) seen)"
      by (simp add: registry_def)
    then show "f_table w i = Some (find (\<lambda>f. type_key tn f = n) (seen @ [f]))"
      by (simp only: keep [OF i])
  qed
  with calculation show ?thesis by simp
qed

lemma register_new:
  assumes "registry tn seen w" "type_key tn f \<notin> type_key tn ` set seen"
    and "count_room (current (id_gen w)) (Suc k)"
  shows "\<exists>w'. register_func tn f w = (Inr (), w') \<and> registry tn (seen @ [f]) w' \<and>
    count_room (current (id_gen w')) k"
proof -
  let ?g = "id_gen w" and ?n = "type_key tn f"
  let ?g' = "?g\<lparr>current := current ?g + 1, id_lookup := (id_lookup ?g)(?n \<mapsto> current ?g)\<rparr>"
  let ?w' = "w\<lparr>id_gen := ?g', f_table := (f_table w)(current ?g \<mapsto> Some f)\<rparr>"
  have reg: "ids_ok ?g" "dom (id_lookup ?g) = type_key tn ` set seen"
    "\<And>n i. id_lookup ?g n = Some i \<Longrightarrow> f_table w i = Some (find (\<lambda>f. type_key tn f = n) seen)"
    "dom (f_table w) = ran (id_lookup ?g)"
    using assms(1) by (auto simp: registry_def)
  with assms(2) have new: "id_lookup ?g ?n = None" by (metis domIff)
  note g' = ids_ok_new [OF reg(1) new assms(3)]
  from g'(2) reg(4) have "f_table w (current ?g) = None" by (metis domIff)
  then have "register_func tn f w = (Inr (), ?w')"
    by (simp add: register_func_def function_id_def get_id_new [OF new] add_func_def)
  moreover have "registry tn (seen @ [f]) ?w'"
    unfolding registry_def
  proof (intro conjI allI impI)
    show "ids_ok (id_gen ?w')" using g'(1) by simp
    show "dom (id_lookup (id_gen ?w')) = type_key tn ` set (seen @ [f])" using reg(2) by simp
    show "dom (f_table ?w') = ran (id_lookup (id_gen ?w'))" using reg(4) new by simp
  next
    fix n i assume "id_lookup (id_gen ?w') n = Some i"
    then consider "n = ?n" "i = current ?g" | "n \<noteq> ?n" "id_lookup ?g n = Some i"
      by (auto split: if_splits)
    then show "f_table ?w' i = Some (find (\<lambda>f. type_key tn f = n) (seen @ [f]))"
    proof cases
      case 1
      have "\<forall>y\<in>set seen. \<not> type_key tn y = n" using 1(1) assms(2) by (metis imageI)
      from find_append_new [OF this, of f] 1 show ?thesis by simp
    next
      case 2
      then have "i \<noteq> current ?g" using g'(2) ranI by metis
      with 2 reg(3) [OF 2(2)] find_append_notin [of "\<lambda>f. type_key tn f = n" f seen] show ?thesis by simp
    qed
  qed
  ultimately show ?thesis using g'(3) by simp
qed

fun register_all :: "(function_type \<Rightarrow> string) \<Rightarrow> function_object list \<Rightarrow> func_world
    \<Rightarrow> unit res list \<times> func_world" where
  "register_all tn [] w = ([], w)"
| "register_all tn (f # fs) w =
     (let (r, w) = register_func tn f w; (rs, w) = register_all tn fs w in (r # rs, w))"

text \<open>Which functions have a type name that does not occur before.\<close>

fun first_of_type :: "(function_type \<Rightarrow> string) \<Rightarrow> string set \<Rightarrow> function_object list \<Rightarrow> bool list" where
  "first_of_type tn ns [] = []"
| "first_of_type tn ns (f # fs) =
     (type_key tn f \<notin> ns) # first_of_type tn (insert (type_key tn f) ns) fs"

lemma register_all_ok:
  assumes "registry tn seen w" "count_room (current (id_gen w)) (length fs)"
    and "register_all tn fs w = (rs, w')"
  shows "registry tn (seen @ fs) w' \<and>
    map (\<lambda>r. r = Inr ()) rs = first_of_type tn (type_key tn ` set seen) fs"
  using assms
proof (induction fs arbitrary: seen w rs)
  case (Cons f fs)
  obtain r v where r: "register_func tn f w = (r, v)" by (rule prod.exhaust)
  obtain rs' where rs': "register_all tn fs v = (rs', w')" "rs = r # rs'"
    using Cons.prems(3) r by (auto split: prod.splits)
  have *: "registry tn (seen @ [f]) v \<and> count_room (current (id_gen v)) (length fs) \<and>
      (r = Inr () \<longleftrightarrow> type_key tn f \<notin> type_key tn ` set seen)"
  proof (cases "type_key tn f \<in> type_key tn ` set seen")
    case True
    from register_known [OF Cons.prems(1) True] r Cons.prems(2) True show ?thesis
      by (auto simp: count_room_def)
  next
    case False
    have "count_room (current (id_gen w)) (Suc (length fs))" using Cons.prems(2) by simp
    from register_new [OF Cons.prems(1) False this] r False show ?thesis by auto
  qed
  with Cons.IH [of "seen @ [f]" v rs'] rs' show ?case by simp
qed simp

text \<open>
  C28. Registering functions, from the start and for fewer than \<open>2 ^ 32\<close> of them: a
  registration succeeds exactly when no earlier function has the same type name, and from
  then on the id of a function leads to the first function registered with its type name. So
  of two different functions of the same type the second is refused, and its id, with which
  it would be called remotely, runs the first.
\<close>

theorem registry_by_type:
  assumes "length fs < 2 ^ 32" "f \<in> set fs"
  shows "let (rs, w) = register_all tn fs init_world;
      (f_id, g) = function_id tn (fo_type f) (id_gen w)
    in map (\<lambda>r. r = Inr ()) rs = first_of_type tn {} fs \<and>
       fst (get_func_obj f_id w) = find (\<lambda>f'. tn (fo_type f') = tn (fo_type f)) fs"
proof -
  obtain rs w where w: "register_all tn fs init_world = (rs, w)" by (rule prod.exhaust)
  have "count_room (current (id_gen init_world)) (length fs)"
    using assms(1) by (simp add: count_room_def init_world_def)
  from register_all_ok [OF registry_init this w]
  have reg: "registry tn fs w" "map (\<lambda>r. r = Inr ()) rs = first_of_type tn {} fs" by simp_all
  from reg(1) assms(2) obtain i where i: "id_lookup (id_gen w) (type_key tn f) = Some i"
    unfolding registry_def by blast
  moreover from i reg(1) have "f_table w i = Some (find (\<lambda>f'. type_key tn f' = type_key tn f) fs)"
    by (simp add: registry_def)
  ultimately show ?thesis
    using w reg(2) by (simp add: function_id_def get_id_known get_func_obj_def)
qed

definition constant_function :: "byte \<Rightarrow> function_object" where
  "constant_function r =
     \<lparr>fo_type = \<lparr>fkind = Function_pointer, ret_type = TTriv 1, params = []\<rparr>,
      fo_body = (\<lambda>as h. Inr (VTriv [r], h))\<rparr>"

theorem registry_by_type_witness:
  "let (rs, w) = register_all (\<lambda>ft. ''PFcvE'') [constant_function 1, constant_function 2] init_world;
     (f_id, g) = function_id (\<lambda>ft. ''PFcvE'') (fo_type (constant_function 2)) (id_gen w)
   in map (\<lambda>r. r = Inr ()) rs = [True, False] \<and>
      fst (get_func_obj f_id w) = Some (constant_function 1)"
  using registry_by_type [of "[constant_function 1, constant_function 2]" "constant_function 2"
      "\<lambda>ft. ''PFcvE''"]
  by simp

text \<open>
  Asking for an unknown function poisons its id: \<open>getFuncObj\<close> returns a null pointer and
  leaves one in the table, after which every attempt to add the function under this id throws
  that it has been registered, and the table is not changed any more.
\<close>

theorem unknown_lookup_blocks_registration:
  assumes "f_table w f_id = None" "get_func_obj f_id w = (p, w')"
  shows "p = None \<and>
    add_func f_id f w' =
      (Inl (Logic_error (''The function: '' @ show_nat (unat f_id) @ '' has been registered!'')), w') \<and>
    fst (get_func_obj f_id w') = None"
  using assms by (auto simp: get_func_obj_def add_func_def format_def)

theorem unknown_lookup_blocks_registration_witness:
  "fst (get_func_obj 3 init_world) = None \<and>
   fst (add_func 3 (constant_function 1) (snd (get_func_obj 3 init_world))) =
     Inl (Logic_error ''The function: 3 has been registered!'')"
proof -
  obtain p w where w: "get_func_obj 3 init_world = (p, w)" by (rule prod.exhaust)
  have "f_table init_world 3 = None" by (simp add: init_world_def)
  moreover have "show_nat 3 = ''3''" by code_simp
  ultimately show ?thesis using unknown_lookup_blocks_registration [OF _ w] w by simp
qed

end
