(* ===== verification/Executions.thy ===== *)
theory Executions
  imports Function_Objects
begin

text \<open>
  Submitting executions (include/thallium.hpp, src/thallium.cpp): executions and their ids,
  the hub that owns them, finish blocks with their stack of monitors, and the two execution
  managers behind \<open>Coordinator::Submit\<close> and \<open>Coordinator::BlockedSubmit\<close>. The singletons and
  the static counter are one state record. A \<open>BuffersPtr\<close> may be null: it is moved from.
\<close>

section \<open>Executions and the hub\<close>

type_synonym exe_id = "32 word"

datatype exe_state = Pre_run | Disptached | Running | Collecting | Finished

record execution =
  exe_id :: exe_id
  exe_f_id :: func_id
  exe_args :: "byte list list option"
  exe_state :: exe_state

record runtime =
  current_id :: exe_id
  all_exes :: "exe_id \<rightharpoonup> execution option"
  f_stack :: "exe_id list list"
  func_gen :: func_id_gen

definition init_execution_statics :: "runtime \<Rightarrow> runtime" where
  "init_execution_statics s = s\<lparr>current_id := 0\<rparr>"

definition make_execution :: "func_id \<Rightarrow> byte list list option \<Rightarrow> runtime \<Rightarrow> execution \<times> runtime" where
  "make_execution f_id s_l s =
     (\<lparr>exe_id = current_id s, exe_f_id = f_id, exe_args = s_l, exe_state = Pre_run\<rparr>,
      s\<lparr>current_id := current_id s + 1\<rparr>)"

definition new_execution :: "func_id \<Rightarrow> byte list list option \<Rightarrow> runtime \<Rightarrow> exe_id \<times> runtime" where
  "new_execution f_id s_l s =
     (let (p, s) = make_execution f_id s_l s; i = exe_id p
      in (i, s\<lparr>all_exes := (all_exes s)(i \<mapsto> Some p)\<rparr>))"

text \<open>\<open>ExecutionFactory\<close>.\<close>

definition execution_factory :: "func_id \<Rightarrow> byte list list option \<Rightarrow> runtime \<Rightarrow> exe_id \<times> runtime" where
  "execution_factory f_id s_l s = new_execution f_id s_l s"

text \<open>
  \<open>wait\<close> does not wait yet: it looks the execution up, which inserts a null pointer for an
  unknown id, and returns an empty buffer.
\<close>

definition hub_wait :: "exe_id \<Rightarrow> runtime \<Rightarrow> byte list \<times> runtime" where
  "hub_wait i s =
     ([], if all_exes s i = None then s\<lparr>all_exes := (all_exes s)(i \<mapsto> None)\<rparr> else s)"

section \<open>Finish blocks\<close>

text \<open>A monitor is the list of its executions; the top of the stack is the last of the list.\<close>

fun wait_all :: "exe_id list \<Rightarrow> runtime \<Rightarrow> runtime" where
  "wait_all [] s = s"
| "wait_all (x # xs) s = wait_all xs (snd (hub_wait x s))"

definition push_monitor :: "exe_id list \<Rightarrow> runtime \<Rightarrow> runtime" where
  "push_monitor fm s = s\<lparr>f_stack := f_stack s @ [fm]\<rparr>"

definition get_top :: "runtime \<Rightarrow> exe_id list res" where
  "get_top s =
     (if f_stack s = [] then
        Inl (Logic_error ''There is no finish in finish stack. Should not reach here!'')
      else Inr (last (f_stack s)))"

definition delete_top :: "runtime \<Rightarrow> runtime" where
  "delete_top s = s\<lparr>f_stack := butlast (f_stack s)\<rparr>"

definition new_finish :: "runtime \<Rightarrow> runtime" where
  "new_finish s = push_monitor [] s"

definition end_finish :: "(runtime, unit) action" where
  "end_finish s =
     (case get_top s of
        Inl e \<Rightarrow> (Inl e, s)
      | Inr fm \<Rightarrow> (Inr (), delete_top (wait_all fm s)))"

definition add_execution_to_current_finish :: "exe_id \<Rightarrow> (runtime, unit) action" where
  "add_execution_to_current_finish i s =
     (case get_top s of
        Inl e \<Rightarrow> (Inl e, s)
      | Inr fm \<Rightarrow> (Inr (), s\<lparr>f_stack := butlast (f_stack s) @ [fm @ [i]]\<rparr>))"

section \<open>Submitting\<close>

definition async_submit_execution :: "func_id \<Rightarrow> byte list list option \<Rightarrow> (runtime, exe_id) action" where
  "async_submit_execution f_id s_l s =
     (let (i, s) = execution_factory f_id s_l s
      in sbind (add_execution_to_current_finish i) (\<lambda>_. sreturn i) s)"

definition blocked_submit_execution :: "func_id \<Rightarrow> byte list list option \<Rightarrow> (runtime, exe_id) action" where
  "blocked_submit_execution f_id s_l s = (let (i, s) = execution_factory f_id s_l s in (Inr i, s))"

definition remote_submit ::
  "(func_id \<Rightarrow> byte list list option \<Rightarrow> (runtime, exe_id) action) \<Rightarrow> (function_type \<Rightarrow> string)
    \<Rightarrow> function_type \<Rightarrow> (ty \<times> val) list \<Rightarrow> (runtime, exe_id) action" where
  "remote_submit submit_execution tn ft args s =
     (let (f_id, g) = function_id tn ft (func_gen s); s = s\<lparr>func_gen := g\<rparr>
      in case serializeList args of
           Inl e \<Rightarrow> (Inl e, s)
         | Inr s_l \<Rightarrow> submit_execution f_id (Some s_l) s)"

definition submit :: "(function_type \<Rightarrow> string) \<Rightarrow> function_type \<Rightarrow> (ty \<times> val) list \<Rightarrow> (runtime, unit) action" where
  "submit tn ft args =
     sbind (remote_submit async_submit_execution tn ft args) (\<lambda>_. sreturn ())"

definition blocked_submit :: "(function_type \<Rightarrow> string) \<Rightarrow> function_type \<Rightarrow> (ty \<times> val) list \<Rightarrow> (runtime, exe_id) action" where
  "blocked_submit tn ft args = remote_submit blocked_submit_execution tn ft args"

definition get_return_value :: "(ty \<Rightarrow> nat) \<Rightarrow> ty \<Rightarrow> exe_id \<Rightarrow> (runtime, val) action" where
  "get_return_value msz ret e_id s =
     (let (ret_buf, s) = hub_wait e_id s in (create_from_string msz ret ret_buf, s))"

text \<open>\<open>BlockedSubmitter::operator()\<close>: submit, then get the value.\<close>

definition blocked_call :: "(ty \<Rightarrow> nat) \<Rightarrow> (function_type \<Rightarrow> string) \<Rightarrow> function_type \<Rightarrow> (ty \<times> val) list
    \<Rightarrow> (runtime, val) action" where
  "blocked_call msz tn ft args =
     sbind (blocked_submit tn ft args) (\<lambda>i. get_return_value msz (ret_type ft) i)"

section \<open>Execution ids\<close>

interpretation exe_ids: id_supply "\<lambda>s. (current_id s, s\<lparr>current_id := current_id s + 1\<rparr>)"
  "\<lambda>s. ids_below (current_id s)" "\<lambda>s. count_room (current_id s)"
  using counter.next_fresh by unfold_locales (force simp: post_increment_def)

text \<open>
  The invariant of the runtime: the hub knows exactly the ids that were issued, each with its
  execution, and the monitors only hold ids of the hub.
\<close>

definition runtime_ok :: "runtime \<Rightarrow> bool" where
  "runtime_ok s \<longleftrightarrow>
     dom (all_exes s) = ids_below (current_id s) \<and>
     (\<forall>i p. all_exes s i = Some p \<longrightarrow> (\<exists>e. p = Some e \<and> exe_id e = i)) \<and>
     (\<forall>fm\<in>set (f_stack s). set fm \<subseteq> ids_below (current_id s))"

lemma new_execution_ok:
  assumes "runtime_ok s" "count_room (current_id s) (Suc n)" "new_execution f_id s_l s = (i, s')"
  shows "runtime_ok s' \<and> count_room (current_id s') n \<and> i = current_id s \<and> i \<notin> dom (all_exes s) \<and>
    f_stack s' = f_stack s \<and> func_gen s' = func_gen s \<and>
    all_exes s' = (all_exes s)(i \<mapsto> Some \<lparr>exe_id = i, exe_f_id = f_id, exe_args = s_l, exe_state = Pre_run\<rparr>)"
proof -
  have *: "current_id s \<notin> ids_below (current_id s)"
    "ids_below (current_id s + 1) = insert (current_id s) (ids_below (current_id s))"
    "count_room (current_id s + 1) n"
    using exe_ids.next_fresh [OF assms(2) refl] by auto
  have s': "s' = s\<lparr>current_id := current_id s + 1, all_exes := (all_exes s)(current_id s \<mapsto>
      Some \<lparr>exe_id = current_id s, exe_f_id = f_id, exe_args = s_l, exe_state = Pre_run\<rparr>)\<rparr>"
    "i = current_id s"
    using assms(3) by (auto simp: new_execution_def make_execution_def Let_def)
  have "runtime_ok s'"
    using assms(1) * s' by (auto simp: runtime_ok_def)
  with * s' assms(1) show ?thesis by (simp add: runtime_ok_def)
qed

text \<open>Waiting for executions of the hub changes nothing.\<close>

lemma wait_all_known: "set xs \<subseteq> dom (all_exes s) \<Longrightarrow> wait_all xs s = s"
  by (induction xs) (auto simp: hub_wait_def)

section \<open>Programs with finish blocks\<close>

text \<open>
  What user code does with this interface: submit executions, throw exceptions and open blocks with
  \<open>FinishSugar\<close>, whose constructor calls \<open>newFinish\<close> and whose destructor, which also runs when an
  exception leaves the block, calls \<open>endFinish\<close>.
\<close>

datatype prog = Submit func_id "byte list list option" | Raise error | Block "prog list"

definition finish_sugar :: "(runtime, unit) action \<Rightarrow> (runtime, unit) action" where
  "finish_sugar body s =
     (let (r, s1) = body (new_finish s); (r2, s2) = end_finish s1 in (rbind r (\<lambda>_. r2), s2))"

fun run_prog :: "prog \<Rightarrow> (runtime, unit) action"
  and run_progs :: "prog list \<Rightarrow> (runtime, unit) action" where
  "run_prog (Submit f b) = sbind (async_submit_execution f b) (\<lambda>_. sreturn ())"
| "run_prog (Raise e) = sthrow e"
| "run_prog (Block ps) = finish_sugar (run_progs ps)"
| "run_progs [] = sreturn ()"
| "run_progs (p # ps) = sbind (run_prog p) (\<lambda>_. run_progs ps)"

text \<open>What a program submits until it ends or throws, and what it throws.\<close>

fun submits :: "prog \<Rightarrow> (func_id \<times> byte list list option) list \<times> unit res"
  and all_submits :: "prog list \<Rightarrow> (func_id \<times> byte list list option) list \<times> unit res" where
  "submits (Submit f b) = ([(f, b)], Inr ())"
| "submits (Raise e) = ([], Inl e)"
| "submits (Block ps) = all_submits ps"
| "all_submits [] = ([], Inr ())"
| "all_submits (p # ps) =
     (case submits p of
        (xs, Inl e) \<Rightarrow> (xs, Inl e)
      | (xs, Inr _) \<Rightarrow> (let (ys, r) = all_submits ps in (xs @ ys, r)))"

fun hub_after :: "(exe_id \<rightharpoonup> execution option) \<Rightarrow> exe_id \<Rightarrow> (func_id \<times> byte list list option) list
    \<Rightarrow> (exe_id \<rightharpoonup> execution option)" where
  "hub_after m c [] = m"
| "hub_after m c ((f, b) # xs) =
     hub_after (m(c \<mapsto> Some \<lparr>exe_id = c, exe_f_id = f, exe_args = b, exe_state = Pre_run\<rparr>)) (c + 1) xs"

lemma hub_after_append:
  "hub_after m c (xs @ ys) = hub_after (hub_after m c xs) (c + of_nat (length xs)) ys"
  by (induction m c xs rule: hub_after.induct) (simp_all add: add.assoc fun_upd_def)

definition after :: "runtime \<Rightarrow> (func_id \<times> byte list list option) list \<Rightarrow> runtime" where
  "after s xs = s\<lparr>current_id := current_id s + of_nat (length xs),
     all_exes := hub_after (all_exes s) (current_id s) xs\<rparr>"

lemma after_Nil [simp]: "after s [] = s"
  by (simp add: after_def)

lemma after_append: "after (after s xs) ys = after s (xs @ ys)"
  by (simp add: after_def hub_after_append add.assoc)

lemma after_stack [simp]: "f_stack (after s xs) = f_stack s" "current_id (after s xs) = current_id s + of_nat (length xs)"
  by (simp_all add: after_def)

lemma after_set_stack: "after (s\<lparr>f_stack := st\<rparr>) xs = (after s xs)\<lparr>f_stack := st\<rparr>"
  by (simp add: after_def)

lemma after_one: "after s [(f, b)] = snd (new_execution f b s)" "fst (new_execution f b s) = current_id s"
  by (simp_all add: after_def new_execution_def make_execution_def Let_def)

text \<open>Issuing ids keeps the invariant, as long as there is room.\<close>

lemma after_ok:
  "runtime_ok s \<Longrightarrow> count_room (current_id s) (length xs + n) \<Longrightarrow>
   runtime_ok (after s xs) \<and> count_room (current_id (after s xs)) n \<and>
   dom (all_exes (after s xs)) \<supseteq> dom (all_exes s)"
proof (induction xs arbitrary: s)
  case (Cons x xs)
  obtain f b where x: "x = (f, b)" by (rule prod.exhaust)
  obtain i t where t: "new_execution f b s = (i, t)" by (rule prod.exhaust)
  have e: "after s (x # xs) = after t xs"
    using after_append [of s "[x]" xs] after_one [where s = s and f = f and b = b] x t by simp
  have "count_room (current_id s) (Suc (length xs + n))" using Cons.prems(2) by simp
  note new = new_execution_ok [OF Cons.prems(1) this t]
  then have "dom (all_exes s) \<subseteq> dom (all_exes t)" by simp blast
  with new Cons.IH [of t] show ?case unfolding e by (meson order_trans)
qed auto

lemma room_add: "count_room c (k + n) \<Longrightarrow> unat (c + of_nat k) = unat c + k"
  by (simp add: count_room_def unat_word_ariths unat_of_nat take_bit_nat_eq_self)

lemma room_after: "count_room c (k + n) \<Longrightarrow> count_room (c + of_nat k) n"
  using room_add [of c k n] by (simp add: count_room_def)

text \<open>
  The effect of a program inside a block: the hub gains its submissions, and the monitor on top
  gains ids of the hub.
\<close>

definition in_block ::
  "exe_id list list \<Rightarrow> exe_id list \<Rightarrow> (func_id \<times> byte list list option) list \<times> unit res \<Rightarrow> runtime \<Rightarrow>
    unit res \<times> runtime \<Rightarrow> bool" where
  "in_block st fm xr s rs \<longleftrightarrow>
     (\<exists>ids. rs = (snd xr, (after s (fst xr))\<lparr>f_stack := st @ [fm @ ids]\<rparr>)) \<and> runtime_ok (snd rs)"

lemma in_block_quiet:
  assumes "f_stack s = st @ [fm]" "runtime_ok (after s xs)"
  shows "in_block st fm (xs, r) s (r, after s xs)"
proof -
  have "f_stack (after s xs) = st @ [fm @ []]" using assms(1) by simp
  then have "(after s xs)\<lparr>f_stack := st @ [fm @ []]\<rparr> = after s xs" by (cases "after s xs") simp
  with assms(2) show ?thesis by (auto simp: in_block_def intro!: exI [of _ "[]"])
qed

lemma in_block_submit:
  assumes "f_stack s = st @ [fm]" "runtime_ok s" "count_room (current_id s) (Suc n)"
  shows "in_block st fm ([(f, b)], Inr ()) s (sbind (async_submit_execution f b) (\<lambda>_. sreturn ()) s)"
proof -
  obtain i t where t: "new_execution f b s = (i, t)" by (rule prod.exhaust)
  note new = new_execution_ok [OF assms(2,3) t]
  have a: "after s [(f, b)] = t" using after_one [where s = s and f = f and b = b] t by simp
  have "i \<in> ids_below (current_id t)" using new by (auto simp: runtime_ok_def)
  then have "runtime_ok (t\<lparr>f_stack := st @ [fm @ [i]]\<rparr>)"
    using new assms(1) by (auto simp: runtime_ok_def)
  moreover have "sbind (async_submit_execution f b) (\<lambda>_. sreturn ()) s = (Inr (), t\<lparr>f_stack := st @ [fm @ [i]]\<rparr>)"
    using t new assms(1) by (simp add: async_submit_execution_def execution_factory_def
        add_execution_to_current_finish_def get_top_def sbind_def)
  ultimately show ?thesis using a by (auto simp: in_block_def)
qed

lemma finish_sugar_after:
  assumes "in_block (f_stack s) [] xr (new_finish s) (body (new_finish s))"
  shows "finish_sugar body s = (snd xr, after s (fst xr))" and "runtime_ok (after s (fst xr))"
proof -
  let ?s = "new_finish s"
  from assms obtain ids where b: "body ?s = (snd xr, (after ?s (fst xr))\<lparr>f_stack := f_stack s @ [ids]\<rparr>)"
      and ok: "runtime_ok ((after ?s (fst xr))\<lparr>f_stack := f_stack s @ [ids]\<rparr>)"
    by (auto simp: in_block_def)
  let ?t = "(after ?s (fst xr))\<lparr>f_stack := f_stack s @ [ids]\<rparr>"
  have e: "?t\<lparr>f_stack := f_stack s\<rparr> = after s (fst xr)" by (simp add: new_finish_def push_monitor_def after_def)
  have "set ids \<subseteq> dom (all_exes ?t)" using ok by (auto simp: runtime_ok_def)
  then have "end_finish ?t = (Inr (), ?t\<lparr>f_stack := f_stack s\<rparr>)"
    by (simp add: end_finish_def get_top_def wait_all_known delete_top_def)
  with b e show "finish_sugar body s = (snd xr, after s (fst xr))"
    by (cases "snd xr") (simp_all add: finish_sugar_def)
  show "runtime_ok (after s (fst xr))" unfolding e [symmetric] using ok by (auto simp: runtime_ok_def)
qed

lemma new_finish_ok: "runtime_ok s \<Longrightarrow> runtime_ok (new_finish s)"
  by (auto simp: new_finish_def push_monitor_def runtime_ok_def)

lemma run_in_block:
  "f_stack s = st @ [fm] \<Longrightarrow> runtime_ok s \<Longrightarrow> count_room (current_id s) (length (fst (submits p)) + n) \<Longrightarrow>
   in_block st fm (submits p) s (run_prog p s)"
  "f_stack s = st @ [fm] \<Longrightarrow> runtime_ok s \<Longrightarrow> count_room (current_id s) (length (fst (all_submits ps)) + n) \<Longrightarrow>
   in_block st fm (all_submits ps) s (run_progs ps s)"
proof (induction p and ps arbitrary: s st fm n and s st fm n rule: run_prog_run_progs.induct)
  case (1 f b)
  then have "count_room (current_id s) (Suc n)" by simp
  from in_block_submit [OF 1(1,2) this] show ?case by simp
next
  case (2 e)
  then show ?case using in_block_quiet [of s st fm "[]" "Inl e"] by simp
next
  case (3 ps)
  have "f_stack (new_finish s) = f_stack s @ [[]]" "current_id (new_finish s) = current_id s"
    by (simp_all add: new_finish_def push_monitor_def)
  with 3(1) [of "new_finish s" "f_stack s" "[]" n] 3(3,4) new_finish_ok
  have "in_block (f_stack s) [] (all_submits ps) (new_finish s) (run_progs ps (new_finish s))" by simp
  from finish_sugar_after [where body = "run_progs ps", OF this] in_block_quiet [OF 3(2)] show ?case
    by (metis prod.collapse run_prog.simps(3) submits.simps(3))
next
  case 4
  then show ?case using in_block_quiet [of s st fm "[]" "Inr ()"] by simp
next
  case (5 p ps)
  obtain xs r where p: "submits p = (xs, r)" by (rule prod.exhaust)
  obtain ys q where ps: "all_submits ps = (ys, q)" by (rule prod.exhaust)
  show ?case
  proof (cases r)
    case (Inl e)
    have "in_block st fm (submits p) s (run_prog p s)" using 5(1) [OF 5(3,4), of n] 5(5) p Inl by simp
    then show ?thesis using p Inl by (auto simp: in_block_def sbind_def)
  next
    case (Inr u)
    have room: "count_room (current_id s) (length xs + (length ys + n))" using 5(5) p ps Inr by (simp add: add.assoc)
    have "in_block st fm (submits p) s (run_prog p s)" using 5(1) [OF 5(3,4), of "length ys + n"] room p by simp
    then obtain ids where t: "run_prog p s = (Inr u, (after s xs)\<lparr>f_stack := st @ [fm @ ids]\<rparr>)"
        "runtime_ok ((after s xs)\<lparr>f_stack := st @ [fm @ ids]\<rparr>)"
      using p Inr by (auto simp: in_block_def)
    let ?t = "(after s xs)\<lparr>f_stack := st @ [fm @ ids]\<rparr>"
    have "count_room (current_id ?t) (length ys + n)" using room_after [OF room] by simp
    with 5(2) [of ?t st "fm @ ids" n] t(2) ps have "in_block st (fm @ ids) (ys, q) ?t (run_progs ps ?t)" by simp
    then show ?thesis using t(1) p ps Inr
      by (auto simp: in_block_def sbind_def after_set_stack after_append)
  qed
qed

lemma finish_block_run:
  assumes "runtime_ok s" "submits (Block ps) = (xs, r)" "unat (current_id s) + length xs < 2 ^ 32"
  shows "run_prog (Block ps) s =
      (r, s\<lparr>current_id := current_id s + of_nat (length xs),
         all_exes := hub_after (all_exes s) (current_id s) xs\<rparr>) \<and>
    runtime_ok (snd (run_prog (Block ps) s))"
proof -
  have "count_room (current_id (new_finish s)) (length (fst (all_submits ps)) + 0)"
    using assms(2,3) by (simp add: count_room_def new_finish_def push_monitor_def)
  from run_in_block(2) [OF _ new_finish_ok [OF assms(1)] this, of "f_stack s" "[]"]
  have "in_block (f_stack s) [] (all_submits ps) (new_finish s) (run_progs ps (new_finish s))"
    by (simp add: new_finish_def push_monitor_def)
  from finish_sugar_after [where body = "run_progs ps", OF this] assms(2) show ?thesis by (simp add: after_def)
qed

text \<open>
  C26. A finish block, with any nesting of blocks, submissions and exceptions inside and on any
  stack, and fewer than \<open>2 ^ 32\<close> executions in all: it ends with the exception that its body throws, or
  without one, and in both cases it leaves the stack of monitors as it was; the hub has gained one
  execution per submission up to that point, in the order of the program, each under the next id with
  its function and arguments; and waiting has added no null execution, because every monitor only
  waits for executions of the hub.
\<close>

theorem finish_block:
  assumes "runtime_ok s" "submits (Block ps) = (xs, r)" "unat (current_id s) + length xs < 2 ^ 32"
  shows "run_prog (Block ps) s =
      (r, s\<lparr>current_id := current_id s + of_nat (length xs),
         all_exes := hub_after (all_exes s) (current_id s) xs\<rparr>) \<and>
    runtime_ok (snd (run_prog (Block ps) s))"
  by (rule finish_block_run [OF assms])

definition init_runtime :: runtime where
  "init_runtime =
     \<lparr>current_id = 0, all_exes = Map.empty, f_stack = [], func_gen = \<lparr>current = 0, id_lookup = Map.empty\<rparr>\<rparr>"

lemma init_runtime_ok: "runtime_ok init_runtime"
  by (simp add: runtime_ok_def init_runtime_def ids_below_def)

theorem finish_block_witness:
  "run_prog (Block [Submit 7 None, Block [Submit 8 (Some []), Raise (Logic_error ''user'')], Submit 9 None]) init_runtime =
     (Inl (Logic_error ''user''), init_runtime\<lparr>current_id := 2, all_exes :=
        [0 \<mapsto> Some \<lparr>exe_id = 0, exe_f_id = 7, exe_args = None, exe_state = Pre_run\<rparr>,
         1 \<mapsto> Some \<lparr>exe_id = 1, exe_f_id = 8, exe_args = Some [], exe_state = Pre_run\<rparr>]\<rparr>)"
  using finish_block [OF init_runtime_ok,
      of "[Submit 7 None, Block [Submit 8 (Some []), Raise (Logic_error ''user'')], Submit 9 None]"]
  by (simp add: init_runtime_def)

text \<open>
  Submitting outside every finish block throws, but only after the execution was put into
  the hub: the caller gets the exception and no id, while the execution stays there under an
  id that was issued.
\<close>

theorem submit_outside_finish:
  assumes "f_stack s = []"
  shows "async_submit_execution f_id s_l s =
    (Inl (Logic_error ''There is no finish in finish stack. Should not reach here!''),
     snd (new_execution f_id s_l s)) \<and>
    all_exes (snd (async_submit_execution f_id s_l s)) (current_id s) =
      Some (Some \<lparr>exe_id = current_id s, exe_f_id = f_id, exe_args = s_l, exe_state = Pre_run\<rparr>)"
  using assms
  by (simp add: async_submit_execution_def execution_factory_def new_execution_def make_execution_def Let_def
      add_execution_to_current_finish_def get_top_def sbind_def)

theorem submit_outside_finish_witness:
  "fst (async_submit_execution 3 None init_runtime) =
     Inl (Logic_error ''There is no finish in finish stack. Should not reach here!'')"
  using submit_outside_finish [of init_runtime 3 None] by (simp add: init_runtime_def)

section \<open>Blocked calls\<close>

text \<open>
  The types whose first field that is stored has at least one byte: reading one from an empty
  buffer fails at once.
\<close>

fun reads_first :: "ty \<Rightarrow> bool" where
  "reads_first (TTriv n) \<longleftrightarrow> 0 < n \<and> n < 2 ^ 63"
| "reads_first TStr \<longleftrightarrow> True"
| "reads_first (TVec t) \<longleftrightarrow> True"
| "reads_first (TArr n t) \<longleftrightarrow> 0 < n \<and> reads_first t \<and> (\<forall>k. t = TTriv k \<longrightarrow> n * k < 2 ^ 63)"
| "reads_first (TMap k t) \<longleftrightarrow> True"
| "reads_first (TStruct ts) \<longleftrightarrow> (case ts of [] \<Rightarrow> False | t # ts \<Rightarrow> reads_first t)"

lemma sl_get_empty: "0 < n \<Longrightarrow> n < 2 ^ 63 \<Longrightarrow>
   sl_get n (string_load_init []) = Inl (Logic_error ''buf load overflow!'')"
  using sl_get_eq [of "string_load_init []" n] by (simp add: sl_ok_def sl_rest_def string_load_init_def)

lemma load_empty:
  "reads_first t \<Longrightarrow> load sl_get msz t (string_load_init []) = Inl (Logic_error ''buf load overflow!'')"
proof (induction t)
  case (TVec t)
  then show ?case by (cases t) (simp_all add: sl_get_empty)
next
  case (TArr n t)
  then obtain m where n: "n = Suc m" by (cases n) auto
  show ?case
  proof (cases "is_trivially_serializable t")
    case True
    with TArr show ?thesis by (auto simp: is_triv_iff sl_get_empty)
  next
    case False
    with TArr n show ?thesis by (simp add: sla.load_TArr_other)
  qed
next
  case (TStruct ts)
  then show ?case by (cases ts) auto
qed (simp_all add: sl_get_empty)

text \<open>
  A blocked call never returns a value: whatever the function and its arguments, when
  they can be serialized and the function returns an object that takes space, submitting
  succeeds and then \<open>getReturnValue\<close> throws "buf load overflow!", because \<open>wait\<close> is a stub;
  the execution stays in the hub, not run.
\<close>

theorem blocked_call_throws:
  assumes "serializeList args = Inr bs" "reads_first (ret_type ft)"
  shows "fst (blocked_call msz tn ft args s) = Inl (Logic_error ''buf load overflow!'') \<and>
    all_exes (snd (blocked_call msz tn ft args s)) =
      (all_exes s)(current_id s \<mapsto> Some \<lparr>exe_id = current_id s,
         exe_f_id = fst (function_id tn ft (func_gen s)), exe_args = Some bs, exe_state = Pre_run\<rparr>)"
proof -
  obtain i g where g: "function_id tn ft (func_gen s) = (i, g)" by (rule prod.exhaust)
  show ?thesis
    using assms g load_empty [OF assms(2), of msz]
    by (simp add: blocked_call_def blocked_submit_def remote_submit_def blocked_submit_execution_def execution_factory_def
        new_execution_def make_execution_def Let_def sbind_def get_return_value_def hub_wait_def
        create_from_string_def)
qed

theorem blocked_call_throws_witness:
  "fst (blocked_call std_max_size (\<lambda>ft. ''PFihE'')
      \<lparr>fkind = Function_pointer, ret_type = TTriv 4, params = [\<lparr>passing = By_value, base_type = TTriv 1\<rparr>]\<rparr>
      [(TTriv 1, VTriv [5])] init_runtime) = Inl (Logic_error ''buf load overflow!'')"
proof -
  have "serializeList [(TTriv 1, VTriv [5])] = Inr [[5]]"
    by (simp add: create_string_flat [of undefined])
  from blocked_call_throws [OF this] show ?thesis by simp
qed

end
