(* ===== verification/Queue_Contract.thy ===== *)
theory Queue_Contract
  imports Prelude
begin

text \<open>
  What the queues of include/concurrent.hpp promise to their users: the operations that do not
  block (\<open>try_send\<close> or \<open>send\<close>, and \<open>try_receive\<close>) behave like a first-in first-out list of
  bounded or unbounded length. The contract is a locale over the operations; the users rely on
  the results of a whole sequence of operations, which are derived from it once.
\<close>

datatype 'a queue_op = Enq 'a | Deq

datatype 'a outcome = Sent bool | Got "'a option"

definition fits :: "nat option \<Rightarrow> nat \<Rightarrow> bool" where
  "fits cap n \<longleftrightarrow> (case cap of None \<Rightarrow> True | Some c \<Rightarrow> n < c)"

text \<open>The reference: a list.\<close>

fun spec_op :: "nat option \<Rightarrow> 'a queue_op \<Rightarrow> 'a list \<Rightarrow> 'a outcome \<times> 'a list" where
  "spec_op cap (Enq x) q = (if fits cap (length q) then (Sent True, q @ [x]) else (Sent False, q))"
| "spec_op cap Deq q = (case q of [] \<Rightarrow> (Got None, []) | x # q \<Rightarrow> (Got (Some x), q))"

fun spec_ops :: "nat option \<Rightarrow> 'a queue_op list \<Rightarrow> 'a list \<Rightarrow> 'a outcome list \<times> 'a list" where
  "spec_ops cap [] q = ([], q)"
| "spec_ops cap (p # ops) q =
     (let (r, q) = spec_op cap p q; (rs, q) = spec_ops cap ops q in (r # rs, q))"

text \<open>What was sent, and what was received.\<close>

fun accepted :: "'a queue_op list \<Rightarrow> 'a outcome list \<Rightarrow> 'a list" where
  "accepted (Enq x # ops) (Sent True # rs) = x # accepted ops rs"
| "accepted (p # ops) (r # rs) = accepted ops rs"
| "accepted _ _ = []"

fun delivered :: "'a outcome list \<Rightarrow> 'a list" where
  "delivered [] = []"
| "delivered (Got (Some x) # rs) = x # delivered rs"
| "delivered (r # rs) = delivered rs"

lemma spec_fifo:
  "spec_ops cap ops q = (rs, q') \<Longrightarrow> q @ accepted ops rs = delivered rs @ q'"
proof (induction ops arbitrary: q rs q')
  case (Cons p ops)
  obtain r q1 where 1: "spec_op cap p q = (r, q1)" by (rule prod.exhaust)
  obtain rs' q2 where 2: "spec_ops cap ops q1 = (rs', q2)" by (rule prod.exhaust)
  from Cons.prems 1 2 have "rs = r # rs'" "q' = q2" by simp_all
  with Cons.IH [OF 2] 1 show ?case
    by (cases p; cases q) (auto split: if_splits)
qed simp

locale bounded_queue =
  fixes enq :: "'a \<Rightarrow> 'q \<Rightarrow> bool \<times> 'q"
    and deq :: "'q \<Rightarrow> 'a option \<times> 'q"
    and contents :: "'q \<Rightarrow> 'a list"
    and ok :: "'q \<Rightarrow> bool"
    and cap :: "nat option"
  assumes enq_law: "ok q \<Longrightarrow> enq x q = (b, q') \<Longrightarrow>
      ok q' \<and> b = fits cap (length (contents q)) \<and> contents q' = contents q @ (if b then [x] else [])"
    and deq_law: "ok q \<Longrightarrow> deq q = (r, q') \<Longrightarrow>
      ok q' \<and> (case contents q of [] \<Rightarrow> r = None \<and> contents q' = []
               | x # xs \<Rightarrow> r = Some x \<and> contents q' = xs)"
begin

fun run_op :: "'a queue_op \<Rightarrow> 'q \<Rightarrow> 'a outcome \<times> 'q" where
  "run_op (Enq x) q = (let (b, q) = enq x q in (Sent b, q))"
| "run_op Deq q = (let (r, q) = deq q in (Got r, q))"

fun run_ops :: "'a queue_op list \<Rightarrow> 'q \<Rightarrow> 'a outcome list \<times> 'q" where
  "run_ops [] q = ([], q)"
| "run_ops (p # ops) q = (let (r, q) = run_op p q; (rs, q) = run_ops ops q in (r # rs, q))"

lemma run_op_spec:
  assumes "ok q" "run_op p q = (r, q')"
  shows "ok q' \<and> spec_op cap p (contents q) = (r, contents q')"
proof (cases p)
  case (Enq x)
  obtain b q1 where "enq x q = (b, q1)" by (rule prod.exhaust)
  with Enq assms enq_law [OF assms(1) this] show ?thesis by auto
next
  case Deq
  obtain x q1 where "deq q = (x, q1)" by (rule prod.exhaust)
  with Deq assms deq_law [OF assms(1) this] show ?thesis by (auto split: list.splits)
qed

lemma run_ops_spec:
  "ok q \<Longrightarrow> run_ops ops q = (rs, q') \<Longrightarrow> ok q' \<and> spec_ops cap ops (contents q) = (rs, contents q')"
proof (induction ops arbitrary: q rs q')
  case (Cons p ops)
  obtain r q1 where 1: "run_op p q = (r, q1)" by (rule prod.exhaust)
  obtain rs' q2 where 2: "run_ops ops q1 = (rs', q2)" by (rule prod.exhaust)
  from run_op_spec [OF Cons.prems(1) 1] Cons.IH [OF _ 2] Cons.prems(2) 1 2 show ?case by simp
qed simp

text \<open>Nothing is lost, duplicated or reordered by any sequence of operations.\<close>

lemma fifo:
  assumes "ok q" "run_ops ops q = (rs, q')"
  shows "contents q @ accepted ops rs = delivered rs @ contents q'"
  using run_ops_spec [OF assms] spec_fifo by blast

end

text \<open>A queue without a bound never refuses.\<close>

locale unbounded_queue = bounded_queue enq deq contents ok None
  for enq :: "'a \<Rightarrow> 'q \<Rightarrow> bool \<times> 'q"
    and deq :: "'q \<Rightarrow> 'a option \<times> 'q"
    and contents :: "'q \<Rightarrow> 'a list"
    and ok :: "'q \<Rightarrow> bool"
begin

lemma enq_accepts: "ok q \<Longrightarrow> fst (enq x q)"
  using enq_law [of q x "fst (enq x q)" "snd (enq x q)"] by (simp add: fits_def)

end

end
