(* ===== verification/Lock_Free_Channel.thy ===== *)
theory Lock_Free_Channel
  imports Queue_Contract
begin

text \<open>
  \<open>LockFreeChannel\<close> of include/concurrent.hpp, the Lamport queue for one producer and one
  consumer. First its operations as functions, when nothing else runs between their memory
  accesses; then the producer and the consumer as a step relation with one step per memory
  access, in which a thread may read an index that the other thread has changed in the
  meantime. A slot that was never written is \<open>None\<close>; \<open>moved\<close> is what moving from an object of
  the element type leaves behind.

  The step relation keeps ring accesses in program order between the index accesses, which is
  what the acquire loads and release stores give. The consumer's load of \<open>head\<close> is relaxed in
  the code, which the C++ memory model does not order with the read of the slot; on machines
  that order loads the relation describes the code as it runs.
\<close>

section \<open>The operations\<close>

record 'a channel =
  ring_buffer :: "'a option list"
  head :: nat
  tail :: nat

definition init_channel :: "nat \<Rightarrow> 'a channel" where
  "init_channel buffer_size = \<lparr>ring_buffer = replicate buffer_size None, head = 0, tail = 0\<rparr>"

definition next_pos :: "nat \<Rightarrow> nat \<Rightarrow> nat" where
  "next_pos buffer_size pos = (pos + 1) mod buffer_size"

abbreviation buffer_size :: "'a channel \<Rightarrow> nat" where
  "buffer_size c \<equiv> length (ring_buffer c)"

definition try_send :: "'a \<Rightarrow> 'a channel \<Rightarrow> bool \<times> 'a channel" where
  "try_send t c =
     (let head_v = head c; tail_v = tail c
      in if next_pos (buffer_size c) head_v = tail_v then (False, c)
         else (True, c\<lparr>ring_buffer := (ring_buffer c)[head_v := Some t],
                       head := next_pos (buffer_size c) head_v\<rparr>))"

definition try_receive :: "('a \<Rightarrow> 'a) \<Rightarrow> 'a channel \<Rightarrow> 'a option \<times> 'a channel" where
  "try_receive moved c =
     (let head_v = head c; tail_v = tail c
      in if head_v = tail_v then (None, c)
         else (ring_buffer c ! tail_v,
               c\<lparr>ring_buffer := (ring_buffer c)[tail_v := map_option moved (ring_buffer c ! tail_v)],
                 tail := next_pos (buffer_size c) tail_v\<rparr>))"

text \<open>
  The blocking operations retry, sleeping for \<open>t\<close> microseconds in between; \<open>env i\<close> is what the
  other thread does to the channel while this one sleeps for the \<open>i\<close>-th time. The loop may
  never end, so it has fuel; the result is the list of sleeps and the channel.
\<close>

definition back_off :: "nat \<Rightarrow> nat" where
  "back_off t = (if t < 1024 then t * 2 else t)"

fun send_loop :: "(nat \<Rightarrow> 'a channel \<Rightarrow> 'a channel) \<Rightarrow> nat \<Rightarrow> nat \<Rightarrow> nat \<Rightarrow> 'a \<Rightarrow> 'a channel
    \<Rightarrow> (nat list \<times> 'a channel) option" where
  "send_loop env 0 i t x c = None"
| "send_loop env (Suc fuel) i t x c =
     (case try_send x c of
        (True, c) \<Rightarrow> Some ([], c)
      | (False, c) \<Rightarrow>
          map_option (\<lambda>(ts, c). (t # ts, c)) (send_loop env fuel (Suc i) (back_off t) x (env i c)))"

definition send :: "(nat \<Rightarrow> 'a channel \<Rightarrow> 'a channel) \<Rightarrow> nat \<Rightarrow> 'a \<Rightarrow> 'a channel \<Rightarrow> (nat list \<times> 'a channel) option" where
  "send env fuel x c = send_loop env fuel 0 2 x c"

fun receive_loop :: "('a \<Rightarrow> 'a) \<Rightarrow> (nat \<Rightarrow> 'a channel \<Rightarrow> 'a channel) \<Rightarrow> nat \<Rightarrow> nat \<Rightarrow> nat \<Rightarrow> 'a channel
    \<Rightarrow> (nat list \<times> 'a \<times> 'a channel) option" where
  "receive_loop moved env 0 i t c = None"
| "receive_loop moved env (Suc fuel) i t c =
     (case try_receive moved c of
        (Some x, c) \<Rightarrow> Some ([], x, c)
      | (None, c) \<Rightarrow>
          map_option (\<lambda>(ts, r). (t # ts, r)) (receive_loop moved env fuel (Suc i) (back_off t) (env i c)))"

definition receive :: "('a \<Rightarrow> 'a) \<Rightarrow> (nat \<Rightarrow> 'a channel \<Rightarrow> 'a channel) \<Rightarrow> nat \<Rightarrow> 'a channel
    \<Rightarrow> (nat list \<times> 'a \<times> 'a channel) option" where
  "receive moved env fuel c = receive_loop moved env fuel 0 2 c"

section \<open>A ring is a bounded list\<close>

text \<open>How many elements are between the indices, and which.\<close>

definition used :: "'a channel \<Rightarrow> nat" where
  "used c = (head c + buffer_size c - tail c) mod buffer_size c"

definition items :: "'a channel \<Rightarrow> 'a list" where
  "items c = map (\<lambda>i. the (ring_buffer c ! ((tail c + i) mod buffer_size c))) [0..<used c]"

definition channel_ok :: "'a channel \<Rightarrow> bool" where
  "channel_ok c \<longleftrightarrow> head c < buffer_size c \<and> tail c < buffer_size c \<and>
     (\<forall>i<used c. ring_buffer c ! ((tail c + i) mod buffer_size c) \<noteq> None)"

lemma length_items [simp]: "length (items c) = used c"
  by (simp add: items_def)

lemma used_less: "channel_ok c \<Longrightarrow> used c < buffer_size c"
  unfolding channel_ok_def used_def by (auto intro: mod_less_divisor)

lemma mod_once: "a < 2 * n \<Longrightarrow> a mod n = (if a < n then a else a - n)" for n :: nat
  by (simp add: mod_if)

lemma mod_add_cancel:
  "t < n \<Longrightarrow> i < n \<Longrightarrow> j < n \<Longrightarrow> (t + i) mod n = (t + j) mod n \<longleftrightarrow> i = j" for n :: nat
  by (auto simp: mod_once split: if_splits)

lemma head_used: "channel_ok c \<Longrightarrow> head c = (tail c + used c) mod buffer_size c"
  by (auto simp: channel_ok_def used_def mod_once split: if_splits)

lemma full_iff: "channel_ok c \<Longrightarrow> next_pos (buffer_size c) (head c) = tail c \<longleftrightarrow> Suc (used c) = buffer_size c"
  using used_less [of c] by (auto simp: channel_ok_def used_def next_pos_def mod_once split: if_splits)

lemma empty_iff:
  assumes "channel_ok c"
  shows "head c = tail c \<longleftrightarrow> used c = 0"
proof -
  have lt: "head c < buffer_size c" "tail c < buffer_size c" using assms by (auto simp: channel_ok_def)
  then have "head c + buffer_size c - tail c < 2 * buffer_size c" by linarith
  from mod_once [OF this] lt show ?thesis unfolding used_def by auto
qed

lemma try_send_ok:
  assumes "channel_ok c" "try_send x c = (b, c')"
  shows "channel_ok c' \<and> b = (Suc (used c) < buffer_size c) \<and>
    items c' = items c @ (if b then [x] else []) \<and> buffer_size c' = buffer_size c"
proof (cases "Suc (used c) < buffer_size c")
  case True
  let ?n = "buffer_size c"
  have c': "c' = c\<lparr>ring_buffer := (ring_buffer c)[head c := Some x], head := next_pos ?n (head c)\<rparr>" "b"
    using assms True full_iff [OF assms(1)] by (auto simp: try_send_def Let_def)
  have lt: "head c < ?n" "tail c < ?n" using assms(1) by (auto simp: channel_ok_def)
  have less: "m mod ?n < ?n" for m using lt by (intro mod_less_divisor) linarith
  have used: "used c' = Suc (used c)"
    using c'(1) lt True by (auto simp: used_def next_pos_def mod_once split: if_splits)
  have new: "ring_buffer c' ! ((tail c + used c) mod ?n) = Some x"
    using c'(1) lt head_used [OF assms(1)] by simp
  have old: "ring_buffer c' ! ((tail c + i) mod ?n) = ring_buffer c ! ((tail c + i) mod ?n)"
    if "i < used c" for i
    using c'(1) head_used [OF assms(1)] mod_add_cancel [of "tail c" ?n i "used c"] that lt True by simp
  have "channel_ok c'"
    using assms(1) c'(1) lt used new old less
    by (auto simp: channel_ok_def less_Suc_eq next_pos_def)
  moreover have "items c' = items c @ [x]"
    using used new old c'(1) by (simp add: items_def)
  ultimately show ?thesis using True c' by simp
next
  case False
  then have "Suc (used c) = buffer_size c" using used_less [OF assms(1)] by simp
  with assms full_iff [OF assms(1)] show ?thesis by (auto simp: try_send_def Let_def)
qed

lemma try_receive_ok:
  assumes "channel_ok c" "try_receive moved c = (r, c')"
  shows "channel_ok c' \<and> buffer_size c' = buffer_size c \<and>
    (case items c of [] \<Rightarrow> r = None \<and> items c' = [] | x # xs \<Rightarrow> r = Some x \<and> items c' = xs)"
proof (cases "used c")
  case 0
  with assms empty_iff [OF assms(1)] show ?thesis by (auto simp: try_receive_def Let_def items_def)
next
  case (Suc k)
  let ?n = "buffer_size c"
  have c': "c' = c\<lparr>ring_buffer := (ring_buffer c)[tail c := map_option moved (ring_buffer c ! tail c)],
      tail := next_pos ?n (tail c)\<rparr>" "r = ring_buffer c ! tail c"
    using assms Suc empty_iff [OF assms(1)] by (auto simp: try_receive_def Let_def)
  have lt: "head c < ?n" "tail c < ?n" "Suc k < ?n"
    using assms(1) used_less [OF assms(1)] Suc by (auto simp: channel_ok_def)
  have used: "used c' = k"
    using c'(1) lt Suc by (auto simp: used_def next_pos_def mod_once split: if_splits)
  have ne: "ring_buffer c \<noteq> []" using lt(1) by auto
  have less: "m mod ?n < ?n" for m using lt by (intro mod_less_divisor) linarith
  have slot: "(next_pos ?n (tail c) + i) mod ?n = (tail c + Suc i) mod ?n" for i
    by (simp add: next_pos_def mod_simps)
  have old: "ring_buffer c' ! ((tail c' + i) mod ?n) = ring_buffer c ! ((tail c + Suc i) mod ?n)"
    if "i < k" for i
    using c'(1) slot [of i] mod_add_cancel [of "tail c" ?n "Suc i" 0] that lt ne by simp
  have full: "\<forall>i<Suc k. \<exists>y. ring_buffer c ! ((tail c + i) mod ?n) = Some y"
    using assms(1) Suc by (auto simp: channel_ok_def)
  have "channel_ok c'"
    using c'(1) lt used old full less by (auto simp: channel_ok_def next_pos_def)
  moreover have "items c = the (ring_buffer c ! tail c) # items c'"
  proof -
    have "items c = the (ring_buffer c ! tail c) #
        map (\<lambda>i. the (ring_buffer c ! ((tail c + Suc i) mod ?n))) [0..<k]"
      using Suc lt by (simp add: items_def upt_conv_Cons map_Suc_upt [symmetric] del: upt_Suc)
    also have "map (\<lambda>i. the (ring_buffer c ! ((tail c + Suc i) mod ?n))) [0..<k] = items c'"
      using used old c'(1) by (simp add: items_def)
    finally show ?thesis .
  qed
  moreover have "ring_buffer c ! tail c = Some (the (ring_buffer c ! tail c))"
    using full lt by fastforce
  ultimately show ?thesis using c' by (auto split: list.splits)
qed

lemma init_channel_ok:
  "0 < n \<Longrightarrow> channel_ok (init_channel n)" "0 < n \<Longrightarrow> items (init_channel n) = []"
  by (simp_all add: channel_ok_def init_channel_def items_def used_def)

interpretation lfc: bounded_queue try_send "try_receive moved" items
  "\<lambda>c. channel_ok c \<and> buffer_size c = n" "Some (n - 1)" for moved n
proof (unfold_locales, goal_cases)
  case (1 c x b c')
  with try_send_ok [of c x b c'] show ?case by (auto simp: fits_def)
next
  case (2 c r c')
  with try_receive_ok [of c moved r c'] show ?case by (auto split: list.splits)
qed

text \<open>
  C25. The ring buffer is a bounded first-in first-out queue: for every size and every
  sequence of \<open>try_send\<close> and \<open>try_receive\<close>, each call returns what it returns on a list that
  holds at most \<open>buffer_size - 1\<close> elements, and what was accepted is what was delivered
  followed by what is still in the buffer, in this order, whatever moving leaves behind.
\<close>

theorem channel_is_bounded_fifo:
  assumes "0 < n" "lfc.run_ops moved ops (init_channel n) = (rs, c :: 'a channel)"
  shows "fst (spec_ops (Some (n - 1)) ops []) = rs \<and> accepted ops rs = delivered rs @ items c \<and>
    length (items c) \<le> n - 1"
proof -
  let ?c = "init_channel n :: 'a channel"
  have ok: "channel_ok ?c \<and> buffer_size ?c = n" and e: "items ?c = []"
    using init_channel_ok [OF assms(1)] by simp_all (simp add: init_channel_def)
  note spec = lfc.run_ops_spec [OF ok assms(2)] and fifo = lfc.fifo [OF ok assms(2)]
  from spec have "length (items c) < n" using used_less [of c] by simp
  with spec fifo e show ?thesis by simp
qed

theorem channel_is_bounded_fifo_witness:
  "let (rs, c) = lfc.run_ops (\<lambda>x. 0) [Enq 1, Enq 2, Enq 3, Deq, Deq, Deq] (init_channel 3)
   in rs = [Sent True, Sent True, Sent False, Got (Some (1::nat)), Got (Some 2), Got None]"
proof -
  let ?ops = "[Enq 1, Enq 2, Enq 3, Deq, Deq, Deq] :: nat queue_op list"
  obtain rs c where r: "lfc.run_ops (\<lambda>x. 0) ?ops (init_channel 3) = (rs, c)"
    by (rule prod.exhaust)
  from channel_is_bounded_fifo [OF _ r] r show ?thesis by (simp add: fits_def)
qed

section \<open>Blocking operations\<close>

text \<open>
  The channel after the other thread has run during the first \<open>i\<close> sleeps of a sender that
  was refused each time (a refused \<open>try_send\<close> changes nothing).
\<close>

fun env_after :: "(nat \<Rightarrow> 'a channel \<Rightarrow> 'a channel) \<Rightarrow> nat \<Rightarrow> nat \<Rightarrow> 'a channel \<Rightarrow> 'a channel" where
  "env_after env i 0 c = c"
| "env_after env i (Suc k) c = env_after env (Suc i) k (env i c)"

fun sleeps :: "nat \<Rightarrow> nat \<Rightarrow> nat list" where
  "sleeps t 0 = []"
| "sleeps t (Suc k) = t # sleeps (back_off t) k"

lemma refused_unchanged: "try_send x c = (False, c') \<Longrightarrow> c' = c"
  by (auto simp: try_send_def Let_def split: if_splits)

lemma send_loop_retries:
  "(\<And>j. j < k \<Longrightarrow> \<not> fst (try_send x (env_after env i j c))) \<Longrightarrow>
   fst (try_send x (env_after env i k c)) \<Longrightarrow> k < fuel \<Longrightarrow>
   send_loop env fuel i t x c = Some (sleeps t k, snd (try_send x (env_after env i k c)))"
proof (induction k arbitrary: i t c fuel)
  case 0
  then obtain f where "fuel = Suc f" by (cases fuel) auto
  with 0 show ?case by (auto split: prod.splits bool.splits)
next
  case (Suc k)
  then obtain f where f: "fuel = Suc f" "k < f" by (cases fuel) auto
  from Suc.prems(1) [of 0] have "try_send x c = (False, c)"
    using refused_unchanged [of x c] by (cases "try_send x c") auto
  moreover have "send_loop env f (Suc i) (back_off t) x (env i c) =
      Some (sleeps (back_off t) k, snd (try_send x (env_after env (Suc i) k (env i c))))"
    using Suc.prems(1) [of "Suc j" for j] Suc.prems(2) f(2) by (intro Suc.IH) auto
  ultimately show ?case by (simp add: f(1))
qed

lemma back_off_power: "j \<le> 10 \<Longrightarrow> back_off (2 ^ j) = 2 ^ min 10 (Suc j)"
proof -
  assume "j \<le> 10"
  moreover have "(2::nat) ^ j < 2 ^ 10 \<longleftrightarrow> j < 10" by (rule power_strict_increasing_iff) simp
  ultimately show ?thesis by (cases "j = 10") (simp_all add: back_off_def)
qed

lemma sleeps_eq: "j \<le> 10 \<Longrightarrow> sleeps (2 ^ j) k = map (\<lambda>i. 2 ^ min 10 (j + i)) [0..<k]"
proof (induction k arbitrary: j)
  case (Suc k)
  have "sleeps (back_off (2 ^ j)) k = map (\<lambda>i. 2 ^ min 10 (min 10 (Suc j) + i)) [0..<k]"
    using Suc.IH [of "min 10 (Suc j)"] Suc.prems by (simp add: back_off_power)
  also have "\<dots> = map (\<lambda>i. 2 ^ min 10 (j + Suc i)) [0..<k]"
    by (intro map_cong arg_cong [of _ _ "power 2"]) auto
  finally show ?case using Suc.prems by (simp add: upt_conv_Cons map_Suc_upt [symmetric] min_def del: upt_Suc)
qed simp

text \<open>
  A blocking \<open>send\<close> returns as soon as there is room: if the other thread keeps the channel
  intact and leaves room for the first time during the \<open>k\<close>-th sleep, \<open>send\<close> has slept \<open>k\<close> times,
  for 2, 4, 8, ... and from the tenth time on 1024 microseconds, and has appended the element
  to what the channel held then.
\<close>

theorem send_returns:
  assumes "\<And>j. j \<le> k \<Longrightarrow> channel_ok (env_after env 0 j c)"
    and "\<And>j. j < k \<Longrightarrow> Suc (used (env_after env 0 j c)) = buffer_size (env_after env 0 j c)"
    and "Suc (used (env_after env 0 k c)) < buffer_size (env_after env 0 k c)" "k < fuel"
  shows "\<exists>c'. send env fuel x c = Some (map (\<lambda>i. 2 ^ min 10 (Suc i)) [0..<k], c') \<and> channel_ok c' \<and>
    items c' = items (env_after env 0 k c) @ [x]"
proof -
  have sends: "fst (try_send x (env_after env 0 j c)) \<longleftrightarrow>
      Suc (used (env_after env 0 j c)) < buffer_size (env_after env 0 j c)" if "j \<le> k" for j
    using try_send_ok [OF assms(1) [OF that], of x] by (cases "try_send x (env_after env 0 j c)") auto
  have "send env fuel x c = Some (sleeps (2 ^ 1) k, snd (try_send x (env_after env 0 k c)))"
    unfolding send_def using sends assms(2-4) send_loop_retries [of k x env 0 c fuel 2] by simp
  moreover have "channel_ok (snd (try_send x (env_after env 0 k c))) \<and>
      items (snd (try_send x (env_after env 0 k c))) = items (env_after env 0 k c) @ [x]"
    using try_send_ok [OF assms(1) [of k], of x] assms(3)
    by (cases "try_send x (env_after env 0 k c)") auto
  ultimately show ?thesis using sleeps_eq [of 1 k] by simp
qed

theorem send_returns_witness:
  "\<exists>c'. send (\<lambda>i c. if i = 1 then snd (try_receive id c) else c) 5 (3::nat)
      \<lparr>ring_buffer = [Some 1, None], head = 1, tail = 0\<rparr> = Some ([2, 4], c') \<and> items c' = [3]"
proof -
  let ?env = "\<lambda>i c. if i = 1 then snd (try_receive id c) else (c :: nat channel)"
  let ?c = "\<lparr>ring_buffer = [Some 1, None], head = 1, tail = 0\<rparr> :: nat channel"
  have c: "try_receive id ?c = (Some 1, \<lparr>ring_buffer = [Some 1, None], head = 1, tail = 1\<rparr>)"
    by (simp add: try_receive_def next_pos_def)
  have e: "env_after ?env 0 0 ?c = ?c" "env_after ?env 0 1 ?c = ?c"
    "env_after ?env 0 2 ?c = \<lparr>ring_buffer = [Some 1, None], head = 1, tail = 1\<rparr>"
    using c by (simp_all add: numeral_2_eq_2)
  have m: "Suc (Suc (Suc 0)) mod Suc (Suc 0) = Suc 0" by code_simp
  have "\<And>j. j \<le> 2 \<Longrightarrow> channel_ok (env_after ?env 0 j ?c)"
    "\<And>j. j < 2 \<Longrightarrow> Suc (used (env_after ?env 0 j ?c)) = buffer_size (env_after ?env 0 j ?c)"
    using e by (auto simp: le_Suc_eq less_Suc_eq numeral_2_eq_2 channel_ok_def used_def m)
  moreover have u: "used (env_after ?env 0 2 ?c) = 0" unfolding e by (simp add: used_def)
  then have "Suc (used (env_after ?env 0 2 ?c)) < buffer_size (env_after ?env 0 2 ?c)"
    unfolding e by simp
  ultimately obtain c' where c': "send ?env 5 3 ?c = Some (map (\<lambda>i. 2 ^ min 10 (Suc i)) [0..<2], c')"
      "items c' = items (env_after ?env 0 2 ?c) @ [3]"
    using send_returns [of 2 ?env ?c 5 3] by auto
  have "items (env_after ?env 0 2 ?c) = []" using u by (simp add: items_def)
  moreover have "[0..<2] = [0, 1::nat]" by (simp add: upt_rec)
  ultimately show ?thesis using c' by simp
qed

section \<open>The producer and the consumer, interleaved\<close>

text \<open>
  Where a thread is between two memory accesses, with its local \<open>head_v\<close> and \<open>tail_v\<close>. The
  lists \<open>sent\<close> and \<open>received\<close> record the completed operations; after \<open>k\<close> of them the index of
  the thread is \<open>k mod buffer_size\<close>. A load of the other thread's index returns a value that
  the index has had, and never one older than the last one this thread has seen.
\<close>

datatype 'a producer = P_idle | P_head 'a nat | P_tail 'a nat nat | P_written 'a nat

datatype 'a consumer = C_idle | C_head nat | C_tail nat nat | C_read 'a nat

datatype 'a event = Silent | Sends 'a | Refused 'a | Receives 'a | Nothing_there

record 'a chan_sys =
  chan :: "'a channel"
  producer :: "'a producer"
  consumer :: "'a consumer"
  sent :: "'a list"
  received :: "'a list"
  p_seen :: nat
  c_seen :: nat

abbreviation size_of :: "'a chan_sys \<Rightarrow> nat" where
  "size_of s \<equiv> buffer_size (chan s)"

inductive chan_step :: "('a \<Rightarrow> 'a) \<Rightarrow> 'a chan_sys \<Rightarrow> 'a event \<Rightarrow> 'a chan_sys \<Rightarrow> bool" for moved where
  send_load_head: "producer s = P_idle \<Longrightarrow>
     chan_step moved s Silent (s\<lparr>producer := P_head x (head (chan s))\<rparr>)"
| send_load_tail: "producer s = P_head x h \<Longrightarrow> p_seen s \<le> k \<Longrightarrow> k \<le> length (received s) \<Longrightarrow>
     chan_step moved s Silent (s\<lparr>producer := P_tail x h (k mod size_of s), p_seen := k\<rparr>)"
| send_refuse: "producer s = P_tail x h t \<Longrightarrow> next_pos (size_of s) h = t \<Longrightarrow>
     chan_step moved s (Refused x) (s\<lparr>producer := P_idle\<rparr>)"
| send_write: "producer s = P_tail x h t \<Longrightarrow> next_pos (size_of s) h \<noteq> t \<Longrightarrow>
     chan_step moved s Silent
       (s\<lparr>chan := (chan s)\<lparr>ring_buffer := (ring_buffer (chan s))[h := Some x]\<rparr>, producer := P_written x h\<rparr>)"
| send_publish: "producer s = P_written x h \<Longrightarrow>
     chan_step moved s (Sends x)
       (s\<lparr>chan := (chan s)\<lparr>head := next_pos (size_of s) h\<rparr>, producer := P_idle, sent := sent s @ [x]\<rparr>)"
| receive_load_head: "consumer s = C_idle \<Longrightarrow> c_seen s \<le> k \<Longrightarrow> k \<le> length (sent s) \<Longrightarrow>
     chan_step moved s Silent (s\<lparr>consumer := C_head (k mod size_of s), c_seen := k\<rparr>)"
| receive_load_tail: "consumer s = C_head h \<Longrightarrow>
     chan_step moved s Silent (s\<lparr>consumer := C_tail h (tail (chan s))\<rparr>)"
| receive_nothing: "consumer s = C_tail h t \<Longrightarrow> h = t \<Longrightarrow>
     chan_step moved s Nothing_there (s\<lparr>consumer := C_idle\<rparr>)"
| receive_read: "consumer s = C_tail h t \<Longrightarrow> h \<noteq> t \<Longrightarrow> ring_buffer (chan s) ! t = Some x \<Longrightarrow>
     chan_step moved s Silent
       (s\<lparr>chan := (chan s)\<lparr>ring_buffer := (ring_buffer (chan s))[t := Some (moved x)]\<rparr>, consumer := C_read x t\<rparr>)"
| receive_publish: "consumer s = C_read x t \<Longrightarrow>
     chan_step moved s (Receives x)
       (s\<lparr>chan := (chan s)\<lparr>tail := next_pos (size_of s) t\<rparr>, consumer := C_idle, received := received s @ [x]\<rparr>)"

definition init_sys :: "nat \<Rightarrow> 'a chan_sys" where
  "init_sys n = \<lparr>chan = init_channel n, producer = P_idle, consumer = C_idle, sent = [], received = [],
     p_seen = 0, c_seen = 0\<rparr>"

inductive chan_run :: "('a \<Rightarrow> 'a) \<Rightarrow> nat \<Rightarrow> 'a event list \<Rightarrow> 'a chan_sys \<Rightarrow> bool" for moved n where
  run_start: "chan_run moved n [] (init_sys n)"
| run_step: "chan_run moved n es s \<Longrightarrow> chan_step moved s e s' \<Longrightarrow> chan_run moved n (es @ [e]) s'"

text \<open>
  The invariant. The occupied slots hold the elements sent and not yet received, except that
  the consumer may have moved the first one out already.
\<close>

definition slots_ok :: "nat \<Rightarrow> 'a chan_sys \<Rightarrow> bool" where
  "slots_ok n s \<longleftrightarrow> (\<forall>i. length (received s) \<le> i \<and> i < length (sent s) \<longrightarrow>
     ring_buffer (chan s) ! (i mod n) = Some (sent s ! i) \<or>
     (i = length (received s) \<and> (\<exists>x t. consumer s = C_read x t)))"

definition producer_ok :: "nat \<Rightarrow> 'a chan_sys \<Rightarrow> bool" where
  "producer_ok n s \<longleftrightarrow>
     (case producer s of
        P_idle \<Rightarrow> True
      | P_head x h \<Rightarrow> h = length (sent s) mod n
      | P_tail x h t \<Rightarrow> h = length (sent s) mod n \<and> t = p_seen s mod n
      | P_written x h \<Rightarrow> h = length (sent s) mod n \<and> ring_buffer (chan s) ! h = Some x \<and>
          Suc (length (sent s)) - p_seen s < n)"

definition consumer_ok :: "nat \<Rightarrow> 'a chan_sys \<Rightarrow> bool" where
  "consumer_ok n s \<longleftrightarrow>
     (case consumer s of
        C_idle \<Rightarrow> True
      | C_head h \<Rightarrow> h = c_seen s mod n
      | C_tail h t \<Rightarrow> h = c_seen s mod n \<and> t = length (received s) mod n
      | C_read x t \<Rightarrow> t = length (received s) mod n \<and> length (received s) < c_seen s \<and>
          x = sent s ! length (received s))"

definition counts_ok :: "nat \<Rightarrow> 'a chan_sys \<Rightarrow> bool" where
  "counts_ok n s \<longleftrightarrow>
     0 < n \<and> size_of s = n \<and> head (chan s) = length (sent s) mod n \<and> tail (chan s) = length (received s) mod n \<and>
     received s = take (length (received s)) (sent s) \<and>
     p_seen s \<le> length (received s) \<and> length (received s) \<le> c_seen s \<and> c_seen s \<le> length (sent s) \<and>
     length (sent s) - p_seen s < n"

definition sys_ok :: "nat \<Rightarrow> 'a chan_sys \<Rightarrow> bool" where
  "sys_ok n s \<longleftrightarrow> counts_ok n s \<and> slots_ok n s \<and> producer_ok n s \<and> consumer_ok n s"

lemmas sys_ok_defs = sys_ok_def counts_ok_def slots_ok_def producer_ok_def consumer_ok_def

lemma mod_neq: "i < j \<Longrightarrow> j - i < n \<Longrightarrow> i mod n \<noteq> j mod n" for n :: nat
proof
  assume *: "i < j" "j - i < n" "i mod n = j mod n"
  then have "n dvd j - i" by (metis mod_eq_dvd_iff_nat less_imp_le)
  with * show False by (metis dvd_imp_le less_le_not_le zero_less_diff)
qed

lemma next_pos_mod: "next_pos n (m mod n) = Suc m mod n"
  by (simp add: next_pos_def mod_Suc_eq)

lemma next_neq: "0 < n \<Longrightarrow> p \<le> m \<Longrightarrow> m - p < n \<Longrightarrow> Suc m mod n \<noteq> p mod n \<Longrightarrow> Suc m - p < n" for n :: nat
proof (rule ccontr)
  assume *: "0 < n" "p \<le> m" "m - p < n" "Suc m mod n \<noteq> p mod n" "\<not> Suc m - p < n"
  then have "Suc m = p + n" by linarith
  with *(4) show False by simp
qed

lemma init_sys_ok: "0 < n \<Longrightarrow> sys_ok n (init_sys n)"
  by (simp add: sys_ok_defs init_sys_def init_channel_def)

text \<open>Writing a free slot, and moving out of the first occupied one, keeps the others.\<close>

lemma seen_bounds:
  "counts_ok n s \<Longrightarrow> p_seen s \<le> length (received s)"
  "counts_ok n s \<Longrightarrow> length (received s) \<le> length (sent s)"
  "counts_ok n s \<Longrightarrow> length (sent s) - p_seen s < n"
  by (simp_all add: counts_ok_def)

lemma free_slot_kept:
  assumes "counts_ok n s" "length (received s) \<le> i" "i < length (sent s)"
  shows "(ring_buffer (chan s))[length (sent s) mod n := v] ! (i mod n) = ring_buffer (chan s) ! (i mod n)"
proof -
  have "length (sent s) - i < n" using seen_bounds [OF assms(1)] assms(2) by linarith
  with assms mod_neq [of i "length (sent s)" n] show ?thesis by simp
qed

lemma first_slot_kept:
  assumes "counts_ok n s" "length (received s) < i" "i \<le> length (sent s)"
  shows "(ring_buffer (chan s))[length (received s) mod n := v] ! (i mod n) = ring_buffer (chan s) ! (i mod n)"
proof -
  have "i - length (received s) < n" using seen_bounds [OF assms(1)] assms(2,3) by linarith
  with assms mod_neq [of "length (received s)" i n] show ?thesis by simp
qed

lemma write_ok:
  assumes "sys_ok n s" "producer s = P_tail x h t" "next_pos n h \<noteq> t"
  shows "sys_ok n (s\<lparr>chan := (chan s)\<lparr>ring_buffer := (ring_buffer (chan s))[h := Some x]\<rparr>, producer := P_written x h\<rparr>)"
proof -
  have s: "counts_ok n s" "slots_ok n s" "consumer_ok n s" "h = length (sent s) mod n" "t = p_seen s mod n"
    using assms(1,2) by (auto simp: sys_ok_def producer_ok_def)
  have "p_seen s \<le> length (sent s)" "0 < n" "length (sent s) - p_seen s < n" "h < length (ring_buffer (chan s))"
    using s(1,4) by (auto simp: counts_ok_def)
  then have "Suc (length (sent s)) - p_seen s < n"
    using next_neq [of n "p_seen s" "length (sent s)"] assms(3) s(4,5) by (simp add: next_pos_mod)
  moreover have "slots_ok n (s\<lparr>chan := (chan s)\<lparr>ring_buffer := (ring_buffer (chan s))[h := Some x]\<rparr>, producer := P_written x h\<rparr>)"
    using s(2,4) free_slot_kept [OF s(1)] by (simp add: slots_ok_def)
  ultimately show ?thesis
    using s \<open>h < length (ring_buffer (chan s))\<close>
    by (simp add: sys_ok_def producer_ok_def consumer_ok_def counts_ok_def split: consumer.splits)
qed

lemma publish_ok:
  assumes "sys_ok n s" "producer s = P_written x h"
  shows "sys_ok n (s\<lparr>chan := (chan s)\<lparr>head := next_pos n h\<rparr>, producer := P_idle, sent := sent s @ [x]\<rparr>)"
proof -
  have s: "counts_ok n s" "slots_ok n s" "consumer_ok n s" "h = length (sent s) mod n"
    "ring_buffer (chan s) ! h = Some x" "Suc (length (sent s)) - p_seen s < n"
    using assms by (auto simp: sys_ok_def producer_ok_def)
  have le: "length (received s) \<le> c_seen s" "c_seen s \<le> length (sent s)" using s(1) by (auto simp: counts_ok_def)
  have "slots_ok n (s\<lparr>chan := (chan s)\<lparr>head := next_pos n h\<rparr>, producer := P_idle, sent := sent s @ [x]\<rparr>)"
    using s(2,4,5) by (auto simp: slots_ok_def nth_append less_Suc_eq)
  moreover have "consumer_ok n (s\<lparr>chan := (chan s)\<lparr>head := next_pos n h\<rparr>, producer := P_idle, sent := sent s @ [x]\<rparr>)"
    using s(3) le by (auto simp: consumer_ok_def nth_append split: consumer.splits)
  moreover have "counts_ok n (s\<lparr>chan := (chan s)\<lparr>head := next_pos n h\<rparr>, producer := P_idle, sent := sent s @ [x]\<rparr>)"
    using s(1,4,6) le by (simp add: counts_ok_def next_pos_mod)
  ultimately show ?thesis by (simp add: sys_ok_def producer_ok_def)
qed

lemma read_ok:
  assumes "sys_ok n s" "consumer s = C_tail h t" "h \<noteq> t" "ring_buffer (chan s) ! t = Some x"
  shows "sys_ok n (s\<lparr>chan := (chan s)\<lparr>ring_buffer := (ring_buffer (chan s))[t := Some y]\<rparr>, consumer := C_read x t\<rparr>)"
proof -
  have s: "counts_ok n s" "slots_ok n s" "producer_ok n s" "h = c_seen s mod n" "t = length (received s) mod n"
    using assms(1,2) by (auto simp: sys_ok_def consumer_ok_def)
  have "length (received s) \<le> c_seen s" "c_seen s \<le> length (sent s)" using s(1) by (auto simp: counts_ok_def)
  with assms(3) s(4,5) have seen: "length (received s) < c_seen s" by (cases "length (received s) = c_seen s") auto
  then have lt: "length (received s) < length (sent s)" using \<open>c_seen s \<le> length (sent s)\<close> by simp
  have "x = sent s ! length (received s)"
    using s(2,5) assms(2,4) lt by (auto simp: slots_ok_def)
  moreover have "slots_ok n (s\<lparr>chan := (chan s)\<lparr>ring_buffer := (ring_buffer (chan s))[t := Some y]\<rparr>, consumer := C_read x t\<rparr>)"
    using s(2,5) first_slot_kept [OF s(1)] assms(2) by (auto simp: slots_ok_def)
  moreover have "producer_ok n (s\<lparr>chan := (chan s)\<lparr>ring_buffer := (ring_buffer (chan s))[t := Some y]\<rparr>, consumer := C_read x t\<rparr>)"
    using s(3,5) first_slot_kept [OF s(1) lt order_refl] by (auto simp: producer_ok_def split: producer.splits)
  ultimately show ?thesis using s(1,5) seen by (simp add: sys_ok_def consumer_ok_def counts_ok_def)
qed

lemma receive_ok:
  assumes "sys_ok n s" "consumer s = C_read x t"
  shows "sys_ok n (s\<lparr>chan := (chan s)\<lparr>tail := next_pos n t\<rparr>, consumer := C_idle, received := received s @ [x]\<rparr>)"
proof -
  have s: "counts_ok n s" "slots_ok n s" "producer_ok n s" "t = length (received s) mod n"
    "length (received s) < c_seen s" "x = sent s ! length (received s)"
    using assms by (auto simp: sys_ok_def consumer_ok_def)
  then have lt: "length (received s) < length (sent s)" by (auto simp: counts_ok_def)
  have "received s @ [x] = take (Suc (length (received s))) (sent s)"
    using s(1,6) lt by (simp add: counts_ok_def take_Suc_conv_app_nth)
  then have "counts_ok n (s\<lparr>chan := (chan s)\<lparr>tail := next_pos n t\<rparr>, consumer := C_idle, received := received s @ [x]\<rparr>)"
    using s(1,4,5) by (simp add: counts_ok_def next_pos_mod)
  moreover have "slots_ok n (s\<lparr>chan := (chan s)\<lparr>tail := next_pos n t\<rparr>, consumer := C_idle, received := received s @ [x]\<rparr>)"
    using s(2) by (simp add: slots_ok_def Suc_le_eq) (metis less_imp_le_nat less_irrefl)
  ultimately show ?thesis
    using s(3) by (simp add: sys_ok_def producer_ok_def consumer_ok_def split: producer.splits)
qed

text \<open>The other steps change where a thread is, and what it has seen.\<close>

lemma producer_moves:
  "slots_ok n (s\<lparr>producer := p\<rparr>) = slots_ok n s"
  "slots_ok n (s\<lparr>producer := p, p_seen := k\<rparr>) = slots_ok n s"
  "consumer_ok n (s\<lparr>producer := p\<rparr>) = consumer_ok n s"
  "consumer_ok n (s\<lparr>producer := p, p_seen := k\<rparr>) = consumer_ok n s"
  "counts_ok n (s\<lparr>producer := p\<rparr>) = counts_ok n s"
  by (simp_all add: slots_ok_def consumer_ok_def counts_ok_def split: consumer.splits)

lemma consumer_moves:
  "slots_ok n s \<Longrightarrow> \<forall>x t. consumer s \<noteq> C_read x t \<Longrightarrow> slots_ok n (s\<lparr>consumer := c\<rparr>)"
  "slots_ok n s \<Longrightarrow> \<forall>x t. consumer s \<noteq> C_read x t \<Longrightarrow> slots_ok n (s\<lparr>consumer := c, c_seen := k\<rparr>)"
  "producer_ok n (s\<lparr>consumer := c\<rparr>) = producer_ok n s"
  "producer_ok n (s\<lparr>consumer := c, c_seen := k\<rparr>) = producer_ok n s"
  "counts_ok n (s\<lparr>consumer := c\<rparr>) = counts_ok n s"
  by (simp_all add: slots_ok_def producer_ok_def counts_ok_def split: producer.splits)

lemma step_ok:
  assumes "chan_step moved s e s'" "sys_ok n s"
  shows "sys_ok n s'"
proof -
  have n: "size_of s = n" using assms(2) by (simp add: sys_ok_def counts_ok_def)
  from assms show ?thesis
  proof (cases rule: chan_step.cases)
    case (send_write x h t)
    with write_ok [OF assms(2)] n show ?thesis by simp
  next
    case (send_publish x h)
    with publish_ok [OF assms(2)] n show ?thesis by simp
  next
    case (receive_read h t x)
    with read_ok [OF assms(2)] show ?thesis by simp
  next
    case (receive_publish x t)
    with receive_ok [OF assms(2)] n show ?thesis by simp
  next
    case (send_load_head x)
    with assms(2) show ?thesis
      by (simp add: sys_ok_def producer_moves) (simp add: producer_ok_def counts_ok_def)
  next
    case (send_load_tail x h k)
    have "length (sent s) - k < n"
      using seen_bounds [of n s] assms(2) send_load_tail(4) unfolding sys_ok_def by linarith
    with assms(2) n send_load_tail show ?thesis
      by (simp add: sys_ok_def producer_moves) (simp add: producer_ok_def counts_ok_def)
  next
    case (send_refuse x h t)
    with assms(2) show ?thesis by (simp add: sys_ok_def producer_moves) (simp add: producer_ok_def)
  next
    case (receive_load_head k)
    with assms(2) n show ?thesis
      by (simp add: sys_ok_def consumer_moves) (simp add: consumer_ok_def counts_ok_def)
  next
    case (receive_load_tail h)
    with assms(2) show ?thesis
      by (simp add: sys_ok_def consumer_moves) (simp add: consumer_ok_def counts_ok_def)
  next
    case (receive_nothing h t)
    with assms(2) show ?thesis by (simp add: sys_ok_def consumer_moves) (simp add: consumer_ok_def)
  qed
qed

lemma run_ok: "chan_run moved n es s \<Longrightarrow> 0 < n \<Longrightarrow> sys_ok n s"
  by (induction rule: chan_run.induct) (auto intro: init_sys_ok step_ok)

text \<open>What is in the channel, as the bounded queue of the contract.\<close>

definition pending :: "'a chan_sys \<Rightarrow> 'a list" where
  "pending s = drop (length (received s)) (sent s)"

lemma length_pending: "sys_ok n s \<Longrightarrow> length (pending s) < n"
  using seen_bounds [of n s] unfolding sys_ok_def pending_def by simp

inductive_cases sends_cases: "chan_step moved s (Sends x) s'"
inductive_cases receives_cases: "chan_step moved s (Receives x) s'"
inductive_cases refused_cases: "chan_step moved s (Refused x) s'"
inductive_cases nothing_cases: "chan_step moved s Nothing_there s'"
inductive_cases silent_cases: "chan_step moved s Silent s'"

text \<open>
  Every step of the two threads refines the bounded queue, in every state they can reach
  and whatever the threads have last seen of each other's index: a send that completes appends
  its element to a queue with fewer than \<open>buffer_size - 1\<close> elements, a receive that completes
  takes the first one, no other step changes the queue; a send is refused only when the queue
  had \<open>buffer_size - 1\<close> elements as of the last index the producer has seen, and nothing is
  received only when the consumer has received all it has seen.
\<close>

theorem channel_steps_refine:
  assumes "0 < n" "chan_run moved n es s" "chan_step moved s e s'"
  shows "case e of
      Sends x \<Rightarrow> spec_op (Some (n - 1)) (Enq x) (pending s) = (Sent True, pending s')
    | Receives x \<Rightarrow> spec_op (Some (n - 1)) Deq (pending s) = (Got (Some x), pending s')
    | Refused x \<Rightarrow> pending s' = pending s \<and> length (sent s) - p_seen s = n - 1
    | Nothing_there \<Rightarrow> pending s' = pending s \<and> c_seen s = length (received s)
    | Silent \<Rightarrow> pending s' = pending s"
proof -
  have ok: "sys_ok n s" using run_ok [OF assms(2,1)] .
  have ok': "sys_ok n s'" using step_ok [OF assms(3) ok] .
  have le: "length (received s) \<le> length (sent s)" "p_seen s \<le> length (sent s)" "length (sent s) - p_seen s < n"
      "length (received s) \<le> c_seen s" "c_seen s - length (received s) < n"
    using seen_bounds [of n s] ok unfolding sys_ok_def counts_ok_def by auto
  show ?thesis
  proof (cases e)
    case (Sends x)
    with assms(3) have p: "pending s' = pending s @ [x]"
      using le by (auto simp: pending_def elim!: sends_cases)
    with length_pending [OF ok'] Sends show ?thesis by (simp add: fits_def)
  next
    case (Receives x)
    with assms(3) obtain t where c: "consumer s = C_read x t" "received s' = received s @ [x]" "sent s' = sent s"
      by (auto elim!: receives_cases)
    with ok have "x = sent s ! length (received s)" "length (received s) < length (sent s)"
      unfolding sys_ok_def consumer_ok_def counts_ok_def by auto
    then have "pending s = x # pending s'" using c by (simp add: pending_def Cons_nth_drop_Suc)
    with Receives show ?thesis by simp
  next
    case (Refused x)
    with assms(3) obtain h t where t: "producer s = P_tail x h t" "next_pos (size_of s) h = t"
        "pending s' = pending s"
      by (auto simp: pending_def elim!: refused_cases)
    with ok have "Suc (length (sent s)) mod n = p_seen s mod n"
      by (auto simp: sys_ok_def producer_ok_def counts_ok_def next_pos_mod)
    then have "\<not> Suc (length (sent s)) - p_seen s < n"
      using mod_neq [of "p_seen s" "Suc (length (sent s))" n] le by fastforce
    with le have "length (sent s) - p_seen s = n - 1" by linarith
    with Refused t show ?thesis by simp
  next
    case Nothing_there
    with assms(3) obtain h where h: "consumer s = C_tail h h" "pending s' = pending s"
      by (auto simp: pending_def elim!: nothing_cases)
    with ok have "c_seen s mod n = length (received s) mod n" by (auto simp: sys_ok_def consumer_ok_def)
    then have "c_seen s = length (received s)"
      using mod_neq [of "length (received s)" "c_seen s" n] le by fastforce
    with Nothing_there h show ?thesis by simp
  next
    case Silent
    with assms(3) show ?thesis by (auto simp: pending_def elim!: silent_cases)
  qed
qed

text \<open>A run of the channel with two slots in which the number 7 is sent.\<close>

definition sample_sys :: "nat chan_sys" where
  "sample_sys = \<lparr>chan = \<lparr>ring_buffer = [Some 7, None], head = 0, tail = 0\<rparr>, producer = P_written 7 0,
     consumer = C_idle, sent = [], received = [], p_seen = 0, c_seen = 0\<rparr>"

lemma sample_run:
  "chan_run id 2 [Silent, Silent, Silent] sample_sys"
  "chan_step id sample_sys (Sends 7) (sample_sys\<lparr>chan := \<lparr>ring_buffer = [Some 7, None], head = 1, tail = 0\<rparr>,
     producer := P_idle, sent := [7]\<rparr>)"
proof -
  let ?s = "init_sys 2 :: nat chan_sys"
  let ?t = "?s\<lparr>producer := P_tail 7 0 0\<rparr>"
  have "chan_step id ?s Silent (?s\<lparr>producer := P_head 7 0\<rparr>)"
    using send_load_head [of ?s id 7] by (simp add: init_sys_def init_channel_def)
  from run_step [OF run_start this] have 1: "chan_run id 2 [Silent] (?s\<lparr>producer := P_head 7 0\<rparr>)" by simp
  have "chan_step id (?s\<lparr>producer := P_head 7 0\<rparr>) Silent ?t"
    using send_load_tail [of "?s\<lparr>producer := P_head 7 0\<rparr>" 7 0 0 id] by (simp add: init_sys_def)
  from run_step [OF 1 this] have 2: "chan_run id 2 [Silent, Silent] ?t" by simp
  have "chan_step id ?t Silent sample_sys"
    using send_write [of ?t 7 0 0 id]
    by (simp add: init_sys_def init_channel_def sample_sys_def next_pos_def numeral_2_eq_2)
  from run_step [OF 2 this] show "chan_run id 2 [Silent, Silent, Silent] sample_sys" by simp
  show "chan_step id sample_sys (Sends 7) (sample_sys\<lparr>chan := \<lparr>ring_buffer = [Some 7, None], head = 1, tail = 0\<rparr>,
     producer := P_idle, sent := [7]\<rparr>)"
    using send_publish [of sample_sys 7 0 id] by (simp add: sample_sys_def next_pos_def)
qed

theorem channel_steps_refine_witness:
  "spec_op (Some 1) (Enq 7) (pending sample_sys) = (Sent True, [7])"
  using channel_steps_refine [OF _ sample_run] by (simp add: pending_def sample_sys_def)

fun sends_of :: "'a event list \<Rightarrow> 'a list" where
  "sends_of [] = []"
| "sends_of (Sends x # es) = x # sends_of es"
| "sends_of (e # es) = sends_of es"

fun receives_of :: "'a event list \<Rightarrow> 'a list" where
  "receives_of [] = []"
| "receives_of (Receives x # es) = x # receives_of es"
| "receives_of (e # es) = receives_of es"

lemma sends_of_append: "sends_of (es @ fs) = sends_of es @ sends_of fs"
  by (induction es rule: sends_of.induct) auto

lemma receives_of_append: "receives_of (es @ fs) = receives_of es @ receives_of fs"
  by (induction es rule: receives_of.induct) auto

lemma run_records: "chan_run moved n es s \<Longrightarrow> sent s = sends_of es \<and> received s = receives_of es"
  by (induction rule: chan_run.induct)
    (auto simp: init_sys_def sends_of_append receives_of_append elim: chan_step.cases)

text \<open>
  C12. In every interleaving of the producer and the consumer the received elements are, in
  order and without loss or repetition, a prefix of the sent ones, fewer than \<open>buffer_size\<close>
  are on their way, both indices stay inside the ring, and the consumer never reads a slot
  that was not written.
\<close>

theorem channel_trace_fifo:
  assumes "0 < n" "chan_run moved n es s"
  shows "\<exists>q. sends_of es = receives_of es @ q \<and> length q < n \<and>
    head (chan s) < size_of s \<and> tail (chan s) < size_of s \<and>
    (\<forall>h t. consumer s = C_tail h t \<longrightarrow> h \<noteq> t \<longrightarrow> ring_buffer (chan s) ! t \<noteq> None)"
proof -
  have ok: "sys_ok n s" using run_ok [OF assms(2,1)] .
  then have "received s @ pending s = sent s"
    unfolding sys_ok_def counts_ok_def pending_def by (metis append_take_drop_id)
  moreover have "ring_buffer (chan s) ! t \<noteq> None" if "consumer s = C_tail h t" "h \<noteq> t" for h t
  proof -
    have "t = length (received s) mod n" "h = c_seen s mod n" using ok that(1)
      by (auto simp: sys_ok_def consumer_ok_def)
    moreover from this that(2) have "length (received s) < length (sent s)"
      using ok unfolding sys_ok_def counts_ok_def by (metis le_antisym le_neq_implies_less le_trans)
    ultimately show ?thesis using ok that(1) by (auto simp: sys_ok_def slots_ok_def)
  qed
  moreover have "head (chan s) < size_of s" "tail (chan s) < size_of s"
    using ok by (auto simp: sys_ok_def counts_ok_def)
  ultimately show ?thesis using run_records [OF assms(2)] length_pending [OF ok] by metis
qed

theorem channel_trace_fifo_witness:
  "\<exists>q. sends_of [Silent, Silent, Silent, Sends (7::nat)] =
       receives_of [Silent, Silent, Silent, Sends 7] @ q \<and> length q < 2"
  using channel_trace_fifo [OF _ run_step [OF sample_run]] by auto

end
