(* ===== verification/Channel_Races.thy ===== *)
theory Channel_Races
  imports Lock_Free_Channel
begin

text \<open>
  The memory orders of the lock-free channel (include/concurrent.hpp). The slots of the ring are not
  atomic, so an access of one thread has to happen before the next access of the other. The runs of
  Lock_Free_Channel are watched by a vector clock for each thread, the way a race detector does it:
  a store with \<open>memory_order_release\<close> publishes the clock of its thread, a load with
  \<open>memory_order_acquire\<close> that reads this store takes it over, and a relaxed load does not.
\<close>

section \<open>Clocks\<close>

datatype memory_order = Relaxed | Acquire

text \<open>The orders of the two loads that read the index of the other thread.\<close>

record orders =
  tail_load :: memory_order
  head_load :: memory_order

definition code_orders :: orders where
  "code_orders = \<lparr>tail_load = Acquire, head_load = Relaxed\<rparr>"

text \<open>
  The clock of a thread counts its accesses to slots; its view is the part of the other clock that
  happened before. \<open>head_clocks\<close> and \<open>tail_clocks\<close> hold what every store of the index published,
  \<open>written\<close> and \<open>taken\<close> when each slot was last accessed.
\<close>

record clocks =
  p_clock :: nat
  c_clock :: nat
  p_view :: nat
  c_view :: nat
  head_clocks :: "nat list"
  tail_clocks :: "nat list"
  written :: "nat list"
  taken :: "nat list"
  p_race :: bool
  c_race :: bool

definition init_clocks :: "nat \<Rightarrow> clocks" where
  "init_clocks n = \<lparr>p_clock = 0, c_clock = 0, p_view = 0, c_view = 0, head_clocks = [0], tail_clocks = [0],
     written = replicate n 0, taken = replicate n 0, p_race = False, c_race = False\<rparr>"

definition acquired :: "memory_order \<Rightarrow> nat \<Rightarrow> nat \<Rightarrow> nat" where
  "acquired ord published view = (if ord = Acquire then max view published else view)"

definition write_slot :: "nat \<Rightarrow> clocks \<Rightarrow> clocks" where
  "write_slot h k =
     k\<lparr>p_clock := Suc (p_clock k), written := (written k)[h := Suc (p_clock k)],
       p_race := p_race k \<or> p_view k < taken k ! h\<rparr>"

definition take_slot :: "nat \<Rightarrow> clocks \<Rightarrow> clocks" where
  "take_slot t k =
     k\<lparr>c_clock := Suc (c_clock k), taken := (taken k)[t := Suc (c_clock k)],
       c_race := c_race k \<or> c_view k < written k ! t\<rparr>"

text \<open>What a step of either thread does to the clocks, from where the thread was and where it is now.\<close>

fun track_producer :: "orders \<Rightarrow> 'a producer \<Rightarrow> 'a producer \<Rightarrow> nat \<Rightarrow> clocks \<Rightarrow> clocks" where
  "track_producer ord (P_head x h) (P_tail _ _ _) seen k =
     k\<lparr>p_view := acquired (tail_load ord) (tail_clocks k ! seen) (p_view k)\<rparr>"
| "track_producer ord (P_tail x h t) (P_written _ _) seen k = write_slot h k"
| "track_producer ord (P_written x h) P_idle seen k = k\<lparr>head_clocks := head_clocks k @ [p_clock k]\<rparr>"
| "track_producer ord _ _ seen k = k"

fun track_consumer :: "orders \<Rightarrow> 'a consumer \<Rightarrow> 'a consumer \<Rightarrow> nat \<Rightarrow> clocks \<Rightarrow> clocks" where
  "track_consumer ord C_idle (C_head _) seen k =
     k\<lparr>c_view := acquired (head_load ord) (head_clocks k ! seen) (c_view k)\<rparr>"
| "track_consumer ord (C_tail h t) (C_read _ _) seen k = take_slot t k"
| "track_consumer ord (C_read x t) C_idle seen k = k\<lparr>tail_clocks := tail_clocks k @ [c_clock k]\<rparr>"
| "track_consumer ord _ _ seen k = k"

definition track :: "orders \<Rightarrow> 'a chan_sys \<Rightarrow> 'a chan_sys \<Rightarrow> clocks \<Rightarrow> clocks" where
  "track ord s s' k =
     track_consumer ord (consumer s) (consumer s') (c_seen s')
       (track_producer ord (producer s) (producer s') (p_seen s') k)"

inductive watched_run :: "orders \<Rightarrow> ('a \<Rightarrow> 'a) \<Rightarrow> nat \<Rightarrow> 'a event list \<Rightarrow> 'a chan_sys \<Rightarrow> clocks \<Rightarrow> bool"
  for ord moved n where
  watch_start: "watched_run ord moved n [] (init_sys n) (init_clocks n)"
| watch_step: "watched_run ord moved n es s k \<Longrightarrow> chan_step moved s e s' \<Longrightarrow>
     watched_run ord moved n (es @ [e]) s' (track ord s s' k)"

lemma watched_is_run: "watched_run ord moved n es s k \<Longrightarrow> chan_run moved n es s"
  by (induction rule: watched_run.induct) (auto intro: chan_run.intros)

text \<open>Watching does not change what the threads can do.\<close>

lemma run_is_watched: "chan_run moved n es s \<Longrightarrow> \<exists>k. watched_run ord moved n es s k"
proof (induction rule: chan_run.induct)
  case run_start
  show ?case using watch_start by blast
next
  case (run_step es s e s')
  then show ?case using watch_step by blast
qed

section \<open>The clocks of a run\<close>

abbreviation in_hand :: "'a chan_sys \<Rightarrow> bool" where
  "in_hand s \<equiv> \<exists>x t. consumer s = C_read x t"

abbreviation at_hand :: "'a chan_sys \<Rightarrow> bool" where
  "at_hand s \<equiv> \<exists>x h. producer s = P_written x h"

text \<open>
  The clocks in terms of the counts of Lock_Free_Channel: the \<open>i\<close>-th send writes its slot at the
  producer's time \<open>i + 1\<close> and its store publishes this time, and so for receives.
\<close>

definition clocks_ok :: "orders \<Rightarrow> 'a chan_sys \<Rightarrow> clocks \<Rightarrow> bool" where
  "clocks_ok ord s k \<longleftrightarrow>
     p_clock k = length (sent s) + (if at_hand s then 1 else 0) \<and>
     c_clock k = length (received s) + (if in_hand s then 1 else 0) \<and>
     head_clocks k = [0..<Suc (length (sent s))] \<and> tail_clocks k = [0..<Suc (length (received s))] \<and>
     p_view k = p_seen s \<and> c_view k = (if head_load ord = Acquire then c_seen s else 0)"

definition written_ok :: "nat \<Rightarrow> 'a chan_sys \<Rightarrow> clocks \<Rightarrow> bool" where
  "written_ok n s k \<longleftrightarrow> length (written k) = n \<and>
     (\<forall>i. length (received s) \<le> i \<and> i < p_clock k \<longrightarrow> written k ! (i mod n) = Suc i)"

definition taken_ok :: "nat \<Rightarrow> clocks \<Rightarrow> bool" where
  "taken_ok n k \<longleftrightarrow> length (taken k) = n \<and>
     (\<forall>j<n. \<forall>m. taken k ! j = Suc m \<longrightarrow> m mod n = j \<and> m < c_clock k)"

definition races_ok :: "orders \<Rightarrow> 'a chan_sys \<Rightarrow> clocks \<Rightarrow> bool" where
  "races_ok ord s k \<longleftrightarrow> \<not> p_race k \<and> (c_race k \<longleftrightarrow> head_load ord = Relaxed \<and> 0 < c_clock k)"

definition watch_ok :: "orders \<Rightarrow> nat \<Rightarrow> 'a chan_sys \<Rightarrow> clocks \<Rightarrow> bool" where
  "watch_ok ord n s k \<longleftrightarrow> clocks_ok ord s k \<and> written_ok n s k \<and> taken_ok n k \<and> races_ok ord s k"

text \<open>The steps that do not touch a slot.\<close>

lemma quiet_clocks [simp]:
  "taken_ok n (k\<lparr>p_view := v\<rparr>) = taken_ok n k" "taken_ok n (k\<lparr>c_view := v\<rparr>) = taken_ok n k"
  "taken_ok n (k\<lparr>head_clocks := cs\<rparr>) = taken_ok n k" "taken_ok n (k\<lparr>tail_clocks := cs\<rparr>) = taken_ok n k"
  "taken_ok n (write_slot h k) = taken_ok n k"
  by (simp_all add: taken_ok_def write_slot_def)

lemmas step_defs = track_def watch_ok_def clocks_ok_def written_ok_def races_ok_def acquired_def

lemma memory_order_cases: "ord \<noteq> Acquire \<longleftrightarrow> ord = Relaxed"
  by (cases ord) auto

lemma init_clocks_ok: "0 < n \<Longrightarrow> watch_ok ord n (init_sys n) (init_clocks n)"
  by (simp add: watch_ok_def clocks_ok_def written_ok_def taken_ok_def races_ok_def init_sys_def init_clocks_def)

text \<open>The slot that is written next was taken before the index that the producer has seen.\<close>

lemma next_slot_acquired:
  assumes "taken_ok n k" "c_clock k \<le> s" "s - p < n" "p \<le> s" "0 < n"
  shows "taken k ! (s mod n) \<le> p"
proof (cases "taken k ! (s mod n)")
  case (Suc m)
  moreover have "s mod n < n" using assms(5) by simp
  ultimately have m: "m mod n = s mod n" "m < s" using assms(1,2) by (auto simp: taken_ok_def)
  then have "\<not> s - m < n" using mod_neq [of m s n] by blast
  with assms(3,4) Suc show ?thesis by linarith
qed simp

lemma write_watched:
  assumes "sys_ok n s" "watch_ok ord n s k" "producer s = P_tail x h t" "next_pos n h \<noteq> t"
    and "consumer s' = consumer s" "producer s' = P_written x h" "sent s' = sent s" "received s' = received s"
    and "p_seen s' = p_seen s" "c_seen s' = c_seen s"
  shows "watch_ok ord n s' (write_slot h k)"
proof -
  have s: "counts_ok n s" "h = length (sent s) mod n" "t = p_seen s mod n" "consumer_ok n s"
    using assms(1,3) by (auto simp: sys_ok_def producer_ok_def)
  have c: "p_seen s \<le> length (sent s)" "0 < n" "length (sent s) - p_seen s < n" "c_seen s \<le> length (sent s)"
      "length (received s) \<le> c_seen s" "p_seen s \<le> length (received s)"
    using s(1) by (auto simp: counts_ok_def)
  have lt: "Suc (length (sent s)) - p_seen s < n"
    using next_neq [OF c(2,1,3)] assms(4) s(2,3) by (simp add: next_pos_mod)
  have clk: "p_clock k = length (sent s)" using assms(2,3) by (simp add: watch_ok_def clocks_ok_def)
  have taken: "taken_ok n k" using assms(2) by (simp add: watch_ok_def)
  have "c_clock k \<le> length (sent s)"
    using assms(2) s(4) c by (auto simp: watch_ok_def clocks_ok_def consumer_ok_def)
  from next_slot_acquired [OF taken this c(3,1,2)] have "taken k ! h \<le> p_view k"
    using assms(2) s(2) by (simp add: watch_ok_def clocks_ok_def)
  moreover have "written_ok n s' (write_slot h k)"
  proof -
    have "(written k)[h := Suc (p_clock k)] ! (i mod n) = Suc i"
      if i: "length (received s) \<le> i" "i \<le> length (sent s)" for i
    proof (cases "i = length (sent s)")
      case True
      then show ?thesis using assms(2) s(2) c(2) clk by (simp add: watch_ok_def written_ok_def)
    next
      case False
      then have "i < length (sent s)" "length (sent s) - i < n" using i c(3,6) by linarith+
      with mod_neq [of i "length (sent s)" n] have "i mod n \<noteq> h" using s(2) by metis
      with False i assms(2) clk show ?thesis by (simp add: watch_ok_def written_ok_def)
    qed
    with assms(2,8) clk show ?thesis by (simp add: watch_ok_def written_ok_def write_slot_def less_Suc_eq_le)
  qed
  moreover have "clocks_ok ord s' (write_slot h k)"
    using assms by (auto simp: watch_ok_def clocks_ok_def write_slot_def simp del: upt_Suc)
  moreover have "races_ok ord s' (write_slot h k)" if "taken k ! h \<le> p_view k"
    using assms(2) that by (simp add: watch_ok_def races_ok_def write_slot_def)
  ultimately show ?thesis using taken by (simp add: watch_ok_def)
qed

lemma take_watched:
  assumes "sys_ok n s" "watch_ok ord n s k" "consumer s = C_tail h t" "h \<noteq> t"
    and "producer s' = producer s" "consumer s' = C_read x t" "sent s' = sent s" "received s' = received s"
    and "p_seen s' = p_seen s" "c_seen s' = c_seen s"
  shows "watch_ok ord n s' (take_slot t k)"
proof -
  have s: "counts_ok n s" "h = c_seen s mod n" "t = length (received s) mod n"
    using assms(1,3) by (auto simp: sys_ok_def consumer_ok_def)
  have c: "0 < n" "length (received s) \<le> c_seen s" "c_seen s \<le> length (sent s)"
    using s(1) by (auto simp: counts_ok_def)
  have "length (received s) \<noteq> c_seen s" using assms(4) s by auto
  with c have seen: "length (received s) < c_seen s" by simp
  have clk: "c_clock k = length (received s)" using assms(2,3) by (simp add: watch_ok_def clocks_ok_def)
  have "length (received s) < p_clock k" using assms(2) seen c(3) by (simp add: watch_ok_def clocks_ok_def)
  then have w: "written k ! t = Suc (length (received s))"
    using assms(2) s(3) by (simp add: watch_ok_def written_ok_def)
  have "taken_ok n (take_slot t k)"
    using assms(2) s(3) c(1) clk by (auto simp: watch_ok_def taken_ok_def take_slot_def nth_list_update less_Suc_eq)
  moreover have "races_ok ord s' (take_slot t k)"
    using assms(2) w seen by (auto simp: watch_ok_def clocks_ok_def races_ok_def take_slot_def memory_order_cases)
  moreover have "clocks_ok ord s' (take_slot t k)"
    using assms by (auto simp: watch_ok_def clocks_ok_def take_slot_def simp del: upt_Suc)
  moreover have "written_ok n s' (take_slot t k)"
    using assms by (simp add: watch_ok_def written_ok_def take_slot_def)
  ultimately show ?thesis by (simp add: watch_ok_def)
qed

lemma step_watched:
  assumes "chan_step moved s e s'" "sys_ok n s" "watch_ok ord n s k" "tail_load ord = Acquire"
  shows "watch_ok ord n s' (track ord s s' k)"
proof -
  have c: "p_seen s \<le> length (received s)" "c_seen s \<le> length (sent s)" "size_of s = n"
    using assms(2) by (simp_all add: sys_ok_def counts_ok_def)
  from assms(1) show ?thesis
  proof (cases rule: chan_step.cases)
    case (send_write x h t)
    then show ?thesis
      using write_watched [OF assms(2,3), of x h t s'] c(3) by (cases "consumer s") (simp_all add: track_def)
  next
    case (receive_read h t x)
    then show ?thesis
      using take_watched [OF assms(2,3), of h t s' x] by (cases "producer s") (simp_all add: track_def)
  next
    case (send_load_tail x h i)
    then show ?thesis using assms(3,4)
      by (cases "consumer s") (simp_all add: step_defs nth_upt max_absorb2 del: upt_Suc)
  next
    case (receive_load_head i)
    then show ?thesis using assms(3)
      by (cases "producer s") (simp_all add: step_defs nth_upt max_absorb2 del: upt_Suc)
  next
    case (send_publish x h)
    then show ?thesis using assms(3)
      by (cases "consumer s") (simp_all add: step_defs)
  next
    case (receive_publish x t)
    then show ?thesis using assms(3)
      by (cases "producer s") (simp_all add: step_defs)
  next
    case (send_load_head x)
    then show ?thesis using assms(3) by (cases "consumer s") (simp_all add: step_defs del: upt_Suc)
  next
    case (send_refuse x h t)
    then show ?thesis using assms(3) by (cases "consumer s") (simp_all add: step_defs del: upt_Suc)
  next
    case (receive_load_tail h)
    then show ?thesis using assms(3) by (cases "producer s") (simp_all add: step_defs del: upt_Suc)
  next
    case (receive_nothing h t)
    then show ?thesis using assms(3) by (cases "producer s") (simp_all add: step_defs del: upt_Suc)
  qed
qed

lemma run_watched:
  assumes "watched_run ord moved n es s k" "0 < n" "tail_load ord = Acquire"
  shows "watch_ok ord n s k"
  using assms
proof (induction rule: watched_run.induct)
  case watch_start
  then show ?case by (simp add: init_clocks_ok)
next
  case (watch_step es s k e s')
  from run_ok [OF watched_is_run [OF watch_step(1)] watch_step(4)] have "sys_ok n s" .
  from step_watched [OF watch_step(2) this _ watch_step(5)] watch_step show ?case by blast
qed

text \<open>
  C13. The data races of the channel. The producer never races: whatever slot it writes, the consumer's
  last access to it happened before, because the index of the consumer is loaded with acquire. The
  consumer races in every run in which it takes an element, and with the first one: the
  index of the producer is loaded relaxed, so nothing orders the write of the slot before the read.
  With an acquire load in its place no run has a race.
\<close>

theorem channel_races:
  assumes "0 < n"
  shows "(\<forall>s k. watched_run code_orders moved n es s k \<longrightarrow>
      \<not> p_race k \<and> (c_race k \<longleftrightarrow> received s \<noteq> [] \<or> (\<exists>x t. consumer s = C_read x t))) \<and>
    (\<forall>s k. watched_run (code_orders\<lparr>head_load := Acquire\<rparr>) moved n es s k \<longrightarrow> \<not> p_race k \<and> \<not> c_race k)"
proof -
  have "\<not> p_race k \<and> (c_race k \<longleftrightarrow> received s \<noteq> [] \<or> in_hand s)"
    if "watched_run code_orders moved n es s k" for s k
    using run_watched [OF that assms]
    by (auto simp: code_orders_def watch_ok_def races_ok_def clocks_ok_def split: if_splits)
  moreover have "\<not> p_race k \<and> \<not> c_race k"
    if "watched_run (code_orders\<lparr>head_load := Acquire\<rparr>) moved n es s k" for s k
    using run_watched [OF that assms] by (simp add: code_orders_def watch_ok_def races_ok_def)
  ultimately show ?thesis by blast
qed

text \<open>The run of two slots in which 7 is sent goes on with a receive.\<close>

lemma sample_take:
  "\<exists>s. chan_run id 2 [Silent, Silent, Silent, Sends 7, Silent, Silent, Silent] s \<and> consumer s = C_read (7 :: nat) 0"
proof -
  let ?s = "sample_sys\<lparr>chan := \<lparr>ring_buffer = [Some 7, None], head = 1, tail = 0\<rparr>, producer := P_idle, sent := [7]\<rparr>"
  let ?t = "?s\<lparr>consumer := C_head 1, c_seen := 1\<rparr>"
  let ?u = "?t\<lparr>consumer := C_tail 1 0\<rparr>"
  let ?v = "?u\<lparr>chan := \<lparr>ring_buffer = [Some 7, None], head = 1, tail = 0\<rparr>, consumer := C_read 7 0\<rparr>"
  note run_step [OF sample_run]
  moreover have "chan_step id ?s Silent ?t"
    using receive_load_head [of ?s 1 id] by (simp add: sample_sys_def)
  moreover have "chan_step id ?t Silent ?u"
    using receive_load_tail [of ?t 1 id] by (simp add: sample_sys_def)
  moreover have "chan_step id ?u Silent ?v"
    using receive_read [of ?u 1 0 7 id] by (simp add: sample_sys_def)
  ultimately have "chan_run id 2 (((([Silent, Silent, Silent] @ [Sends 7]) @ [Silent]) @ [Silent]) @ [Silent]) ?v"
    by (blast intro: run_step)
  moreover have "consumer ?v = C_read 7 0" by simp
  ultimately show ?thesis by auto
qed

theorem channel_races_witness:
  "\<exists>s k. watched_run code_orders id 2 [Silent, Silent, Silent, Sends (7 :: nat), Silent, Silent, Silent] s k \<and> c_race k"
proof -
  obtain s where s: "chan_run id 2 [Silent, Silent, Silent, Sends 7, Silent, Silent, Silent] s" "consumer s = C_read (7 :: nat) 0"
    using sample_take by blast
  obtain k where k: "watched_run code_orders id 2 [Silent, Silent, Silent, Sends 7, Silent, Silent, Silent] s k"
    using run_is_watched [OF s(1)] by blast
  have "(0::nat) < 2" by simp
  from channel_races [OF this, of id "[Silent, Silent, Silent, Sends 7, Silent, Silent, Silent]"] k s(2) show ?thesis by blast
qed

end
