(* ===== verification/Lock_Queues.thy ===== *)
theory Lock_Queues
  imports Queue_Contract
begin

text \<open>
  The queues of include/concurrent.hpp that use a mutex and a condition variable:
  \<open>SenderSideLockQueue\<close> as functions on its two queues, \<open>BasicLockQueue\<close> first as functions on
  its queue and then as a step relation over any number of threads, with the mutex, the wait
  set of the condition variable, spurious wake-ups and time-outs.
\<close>

section \<open>The queue that locks on the sender side\<close>

record 'a sender_side_queue =
  in_queue :: "'a list"
  out_queue :: "'a list"

definition ss_send :: "'a \<Rightarrow> 'a sender_side_queue \<Rightarrow> bool \<times> 'a sender_side_queue" where
  "ss_send t q = (True, q\<lparr>in_queue := in_queue q @ [t]\<rparr>)"

definition swap_queues :: "'a sender_side_queue \<Rightarrow> 'a sender_side_queue" where
  "swap_queues q = \<lparr>in_queue = out_queue q, out_queue = in_queue q\<rparr>"

text \<open>\<open>move_or_copy\<close> from the front of the outgoing queue and \<open>pop\<close>.\<close>

definition ss_take :: "'a sender_side_queue \<Rightarrow> 'a option \<times> 'a sender_side_queue" where
  "ss_take q = (Some (hd (out_queue q)), q\<lparr>out_queue := tl (out_queue q)\<rparr>)"

definition ss_try_receive :: "'a sender_side_queue \<Rightarrow> 'a option \<times> 'a sender_side_queue" where
  "ss_try_receive q =
     (if length (out_queue q) = 0 then
        (if in_queue q = [] then (None, q) else ss_take (swap_queues q))
      else ss_take q)"

text \<open>
  \<open>receive\<close> and \<open>receive_for\<close> wait with the outgoing queue empty; \<open>arrived\<close> is what senders
  append until the wait ends. \<open>receive\<close> goes on when the incoming queue is not empty, so it
  stays blocked (\<open>None\<close>) if nothing ever arrives; \<open>receive_for\<close> then gives up.
\<close>

definition ss_receive :: "'a list \<Rightarrow> 'a sender_side_queue \<Rightarrow> ('a option \<times> 'a sender_side_queue) option" where
  "ss_receive arrived q =
     (if length (out_queue q) = 0 then
        (let q = q\<lparr>in_queue := in_queue q @ arrived\<rparr>
         in if in_queue q = [] then None else Some (ss_take (swap_queues q)))
      else Some (ss_take q))"

definition ss_receive_for :: "'a list \<Rightarrow> 'a sender_side_queue \<Rightarrow> 'a option \<times> 'a sender_side_queue" where
  "ss_receive_for arrived q =
     (if length (out_queue q) = 0 then
        (let q = q\<lparr>in_queue := in_queue q @ arrived\<rparr>
         in if in_queue q \<noteq> [] then ss_take (swap_queues q) else (None, q))
      else ss_take q)"

definition ss_contents :: "'a sender_side_queue \<Rightarrow> 'a list" where
  "ss_contents q = out_queue q @ in_queue q"

lemmas ss_defs = ss_send_def swap_queues_def ss_take_def ss_try_receive_def ss_receive_def
  ss_receive_for_def ss_contents_def

interpretation ssq: unbounded_queue ss_send ss_try_receive ss_contents "\<lambda>q. True"
proof (unfold_locales, goal_cases)
  case (1 q x b q')
  then show ?case by (auto simp: ss_defs fits_def)
next
  case (2 q r q')
  then show ?case by (cases "out_queue q"; cases "in_queue q") (auto simp: ss_defs)
qed

text \<open>
  The two-queue design is one first-in first-out queue of unbounded length: for every
  sequence of sends and receives, from every state of the two queues, every send is accepted
  and the calls return what they return on the outgoing queue followed by the incoming one;
  what was there and what was sent comes out in this order.
\<close>

theorem sender_side_is_fifo:
  assumes "ssq.run_ops ops q = (rs, q')"
  shows "fst (spec_ops None ops (out_queue q @ in_queue q)) = rs \<and>
    out_queue q @ in_queue q @ accepted ops rs = delivered rs @ out_queue q' @ in_queue q' \<and>
    (\<forall>x. fst (ss_send x q))"
  using ssq.run_ops_spec [OF TrueI assms] ssq.fifo [OF TrueI assms]
  by (simp add: ss_contents_def ss_send_def)

theorem sender_side_is_fifo_witness:
  "let (rs, q) = ssq.run_ops [Enq (1::nat), Enq 2, Deq, Enq 3, Deq, Deq, Deq] \<lparr>in_queue = [], out_queue = []\<rparr>
   in rs = [Sent True, Sent True, Got (Some 1), Sent True, Got (Some 2), Got (Some 3), Got None]"
proof -
  let ?ops = "[Enq (1::nat), Enq 2, Deq, Enq 3, Deq, Deq, Deq]"
  obtain rs q where r: "ssq.run_ops ?ops \<lparr>in_queue = [], out_queue = []\<rparr> = (rs, q)" by (rule prod.exhaust)
  from sender_side_is_fifo [OF r] r show ?thesis by (simp add: fits_def)
qed

text \<open>
  The blocking receives return the first element of what was in the two queues and what
  arrived while waiting, and leave the rest in order; \<open>receive\<close> stays blocked and
  \<open>receive_for\<close> returns without an element exactly when there is none.
\<close>

theorem sender_side_blocking:
  "(case ss_receive arrived q of
      None \<Rightarrow> out_queue q @ in_queue q @ arrived = []
    | Some (r, q') \<Rightarrow> \<exists>x. r = Some x \<and> out_queue q @ in_queue q @ (if out_queue q = [] then arrived else []) =
        x # out_queue q' @ in_queue q') \<and>
   (case ss_receive_for arrived q of
      (None, q') \<Rightarrow> out_queue q @ in_queue q @ arrived = [] \<and> ss_contents q' = []
    | (Some x, q') \<Rightarrow> out_queue q @ in_queue q @ (if out_queue q = [] then arrived else []) =
        x # out_queue q' @ in_queue q')"
  by (cases "out_queue q"; cases "in_queue q @ arrived") (auto simp: ss_defs)

section \<open>The queue that locks on both sides\<close>

record 'a basic_lock_queue =
  msgq :: "'a list"

definition bl_send :: "'a \<Rightarrow> 'a basic_lock_queue \<Rightarrow> bool \<times> 'a basic_lock_queue" where
  "bl_send t q = (True, q\<lparr>msgq := msgq q @ [t]\<rparr>)"

definition bl_try_receive :: "'a basic_lock_queue \<Rightarrow> 'a option \<times> 'a basic_lock_queue" where
  "bl_try_receive q =
     (if msgq q = [] then (None, q) else (Some (hd (msgq q)), q\<lparr>msgq := tl (msgq q)\<rparr>))"

interpretation blq: unbounded_queue bl_send bl_try_receive msgq "\<lambda>q. True"
proof (unfold_locales, goal_cases)
  case (2 q r q')
  then show ?case by (cases "msgq q") (auto simp: bl_try_receive_def)
qed (auto simp: bl_send_def fits_def)

text \<open>
  The threads. A receiver is in one of three modes: \<open>receive\<close>, \<open>receive_for\<close> and
  \<open>try_receive\<close>. \<open>expired\<close> marks a timed wait whose time is over: its last test of the
  predicate decides.
\<close>

datatype mode = Blocking | Timed | Trying

datatype 'a thread =
    Idle
  | Send_lock 'a
  | Send_push 'a
  | Send_unlock
  | Send_notify
  | Recv_lock mode
  | Recv_test mode bool
  | Recv_wait mode
  | Recv_woken mode bool
  | Recv_take
  | Recv_unlock "'a option"

record 'a lock_sys =
  queue :: "'a basic_lock_queue"
  mutex :: "nat option"
  threads :: "'a thread list"
  pushed :: "'a list"
  popped :: "'a list"

abbreviation at :: "'a lock_sys \<Rightarrow> nat \<Rightarrow> 'a thread \<Rightarrow> bool" where
  "at s i p \<equiv> i < length (threads s) \<and> threads s ! i = p"

definition goto :: "nat \<Rightarrow> 'a thread \<Rightarrow> 'a lock_sys \<Rightarrow> 'a lock_sys" where
  "goto i p s = s\<lparr>threads := (threads s)[i := p]\<rparr>"

definition lock :: "nat \<Rightarrow> 'a lock_sys \<Rightarrow> 'a lock_sys" where
  "lock i s = s\<lparr>mutex := Some i\<rparr>"

definition unlock :: "'a lock_sys \<Rightarrow> 'a lock_sys" where
  "unlock s = s\<lparr>mutex := None\<rparr>"

text \<open>
  One step of thread \<open>i\<close>. \<open>wait\<close> tests the predicate with the mutex locked, and if it is false
  unlocks the mutex and waits in one step; a thread leaves the wait set by a notification, a
  time-out or spuriously, and then locks the mutex and tests again.
\<close>

inductive lq_step :: "'a lock_sys \<Rightarrow> nat \<Rightarrow> 'a lock_sys \<Rightarrow> bool" where
  call_send: "at s i Idle \<Longrightarrow> lq_step s i (goto i (Send_lock x) s)"
| send_locks: "at s i (Send_lock x) \<Longrightarrow> mutex s = None \<Longrightarrow> lq_step s i (goto i (Send_push x) (lock i s))"
| send_pushes: "at s i (Send_push x) \<Longrightarrow>
     lq_step s i (goto i Send_unlock (s\<lparr>queue := snd (bl_send x (queue s)), pushed := pushed s @ [x]\<rparr>))"
| send_unlocks: "at s i Send_unlock \<Longrightarrow> lq_step s i (goto i Send_notify (unlock s))"
| send_notifies: "at s i Send_notify \<Longrightarrow> at s j (Recv_wait m) \<Longrightarrow>
     lq_step s i (goto i Idle (goto j (Recv_woken m False) s))"
| send_notifies_none: "at s i Send_notify \<Longrightarrow> \<forall>j m. \<not> at s j (Recv_wait m) \<Longrightarrow> lq_step s i (goto i Idle s)"
| call_receive: "at s i Idle \<Longrightarrow> lq_step s i (goto i (Recv_lock m) s)"
| receive_locks: "at s i (Recv_lock m) \<Longrightarrow> mutex s = None \<Longrightarrow> lq_step s i (goto i (Recv_test m False) (lock i s))"
| receive_finds: "at s i (Recv_test m e) \<Longrightarrow> msgq (queue s) \<noteq> [] \<Longrightarrow> lq_step s i (goto i Recv_take s)"
| receive_gives_up: "at s i (Recv_test m e) \<Longrightarrow> msgq (queue s) = [] \<Longrightarrow> m = Trying \<or> m = Timed \<and> e \<Longrightarrow>
     lq_step s i (goto i (Recv_unlock None) s)"
| receive_waits: "at s i (Recv_test m e) \<Longrightarrow> msgq (queue s) = [] \<Longrightarrow> \<not> (m = Trying \<or> m = Timed \<and> e) \<Longrightarrow>
     lq_step s i (goto i (Recv_wait m) (unlock s))"
| wakes_up: "at s i (Recv_wait m) \<Longrightarrow> lq_step s i (goto i (Recv_woken m False) s)"
| times_out: "at s i (Recv_wait Timed) \<Longrightarrow> lq_step s i (goto i (Recv_woken Timed True) s)"
| relocks: "at s i (Recv_woken m e) \<Longrightarrow> mutex s = None \<Longrightarrow> lq_step s i (goto i (Recv_test m e) (lock i s))"
| receive_takes: "at s i Recv_take \<Longrightarrow> bl_try_receive (queue s) = (Some x, q) \<Longrightarrow>
     lq_step s i (goto i (Recv_unlock (Some x)) (s\<lparr>queue := q, popped := popped s @ [x]\<rparr>))"
| receive_unlocks: "at s i (Recv_unlock r) \<Longrightarrow> lq_step s i (goto i Idle (unlock s))"

definition lock_init :: "nat \<Rightarrow> 'a lock_sys" where
  "lock_init n = \<lparr>queue = \<lparr>msgq = []\<rparr>, mutex = None, threads = replicate n Idle, pushed = [], popped = []\<rparr>"

inductive lq_reach :: "nat \<Rightarrow> 'a lock_sys \<Rightarrow> bool" for n where
  reach_init: "lq_reach n (lock_init n)"
| reach_step: "lq_reach n s \<Longrightarrow> lq_step s i s' \<Longrightarrow> lq_reach n s'"

section \<open>Mutual exclusion, order and wake-ups\<close>

fun holds :: "'a thread \<Rightarrow> bool" where
  "holds (Send_push x) = True"
| "holds Send_unlock = True"
| "holds (Recv_test m e) = True"
| "holds Recv_take = True"
| "holds (Recv_unlock r) = True"
| "holds _ = False"

text \<open>A sender that has pushed and not yet notified; a receiver that will test the queue or take from it.\<close>

fun pending :: "'a thread \<Rightarrow> bool" where
  "pending Send_unlock = True"
| "pending Send_notify = True"
| "pending _ = False"

fun active :: "'a thread \<Rightarrow> bool" where
  "active (Recv_woken m e) = True"
| "active (Recv_test m e) = True"
| "active Recv_take = True"
| "active _ = False"

definition cnt :: "('b \<Rightarrow> bool) \<Rightarrow> 'b list \<Rightarrow> nat" where
  "cnt P xs = length (filter P xs)"

lemma cnt_update:
  "i < length xs \<Longrightarrow> cnt P (xs[i := v]) + (if P (xs ! i) then 1 else 0) = cnt P xs + (if P v then 1 else 0)"
proof (induction xs arbitrary: i)
  case (Cons x xs)
  then show ?case
  proof (cases i)
    case (Suc j)
    with Cons.IH [of j] Cons.prems show ?thesis by (simp add: cnt_def split: if_splits)
  qed (simp add: cnt_def)
qed simp

lemma cnt_pos: "0 < cnt P xs \<longleftrightarrow> (\<exists>i<length xs. P (xs ! i))"
  unfolding cnt_def by (metis filter_empty_conv in_set_conv_nth length_greater_0_conv)

definition mutex_ok :: "'a lock_sys \<Rightarrow> bool" where
  "mutex_ok s \<longleftrightarrow> (\<forall>i<length (threads s). holds (threads s ! i) \<longleftrightarrow> mutex s = Some i) \<and>
     (\<forall>i. mutex s = Some i \<longrightarrow> i < length (threads s))"

definition order_ok :: "'a lock_sys \<Rightarrow> bool" where
  "order_ok s \<longleftrightarrow> pushed s = popped s @ msgq (queue s)"

definition take_ok :: "'a lock_sys \<Rightarrow> bool" where
  "take_ok s \<longleftrightarrow> (\<forall>i. at s i Recv_take \<longrightarrow> msgq (queue s) \<noteq> [])"

definition waiting :: "'a lock_sys \<Rightarrow> bool" where
  "waiting s \<longleftrightarrow> (\<exists>i m. at s i (Recv_wait m))"

definition wake_ok :: "'a lock_sys \<Rightarrow> bool" where
  "wake_ok s \<longleftrightarrow> (waiting s \<longrightarrow> length (msgq (queue s)) \<le> cnt pending (threads s) + cnt active (threads s))"

lemma goto_simps [simp]:
  "length (threads (goto i p s)) = length (threads s)"
  "threads (goto i p s) = (threads s)[i := p]"
  "queue (goto i p s) = queue s" "mutex (goto i p s) = mutex s"
  "pushed (goto i p s) = pushed s" "popped (goto i p s) = popped s"
  by (simp_all add: goto_def)

lemma lock_simps [simp]:
  "threads (lock i s) = threads s" "queue (lock i s) = queue s" "mutex (lock i s) = Some i"
  "pushed (lock i s) = pushed s" "popped (lock i s) = popped s"
  "threads (unlock s) = threads s" "queue (unlock s) = queue s" "mutex (unlock s) = None"
  "pushed (unlock s) = pushed s" "popped (unlock s) = popped s"
  by (simp_all add: lock_def unlock_def)

lemma bl_simps:
  "msgq (snd (bl_send x q)) = msgq q @ [x]"
  "bl_try_receive q = (Some x, q') \<longleftrightarrow> msgq q = x # msgq q'"
  by (auto simp: bl_send_def bl_try_receive_def neq_Nil_conv)

lemma step_mutex: "lq_step s i s' \<Longrightarrow> mutex_ok s \<Longrightarrow> mutex_ok s'"
  by (induction rule: lq_step.induct) (auto simp: mutex_ok_def nth_list_update split: if_splits)

lemma step_order: "lq_step s i s' \<Longrightarrow> order_ok s \<Longrightarrow> order_ok s'"
  by (induction rule: lq_step.induct) (auto simp: order_ok_def bl_simps)

lemma step_take: "lq_step s i s' \<Longrightarrow> mutex_ok s \<Longrightarrow> take_ok s \<Longrightarrow> take_ok s'"
proof (induction rule: lq_step.induct)
  case (receive_takes s i x q)
  have "\<not> at s j Recv_take" if "j \<noteq> i" for j
    using receive_takes that unfolding mutex_ok_def by (metis holds.simps(4) option.inject)
  then have "\<not> (j < length (threads s) \<and> (threads s)[i := Recv_unlock (Some x)] ! j = Recv_take)" for j
    by (cases "j = i") auto
  then show ?case by (auto simp: take_ok_def)
qed (auto simp: take_ok_def nth_list_update bl_simps split: if_splits)

lemma waiting_goto:
  "\<forall>m. p \<noteq> Recv_wait m \<Longrightarrow> waiting (goto i p s) \<Longrightarrow> waiting s"
  by (cases "i < length (threads s)") (auto simp: waiting_def nth_list_update split: if_splits)

lemma waiting_simps [simp]:
  "waiting (lock i s) = waiting s" "waiting (unlock s) = waiting s"
  "waiting (s\<lparr>queue := q, pushed := a\<rparr>) = waiting s" "waiting (s\<lparr>queue := q, popped := a\<rparr>) = waiting s"
  by (simp_all add: waiting_def)

lemma wake_goto:
  assumes "wake_ok s" "i < length (threads s)" "\<forall>m. p \<noteq> Recv_wait m"
    and "waiting s \<Longrightarrow> length (msgq (queue s)) + (if pending (threads s ! i) then 1 else 0) +
      (if active (threads s ! i) then 1 else 0) \<le>
      cnt pending (threads s) + cnt active (threads s) + (if pending p then 1 else 0) + (if active p then 1 else 0)"
  shows "wake_ok (goto i p s)"
proof -
  note pending = cnt_update [OF assms(2), of pending p] and active = cnt_update [OF assms(2), of active p]
  show ?thesis unfolding wake_ok_def
  proof
    assume "waiting (goto i p s)"
    with waiting_goto assms(3) have "waiting s" by blast
    from assms(4) [OF this] pending active
    show "length (msgq (queue (goto i p s))) \<le> cnt pending (threads (goto i p s)) + cnt active (threads (goto i p s))"
      by (simp only: goto_simps)
  qed
qed

lemma wake_move:
  assumes "wake_ok s" "i < length (threads s)" "\<forall>m. p \<noteq> Recv_wait m"
    and "pending (threads s ! i) \<longrightarrow> pending p" "active (threads s ! i) \<longrightarrow> active p"
  shows "wake_ok (goto i p s)"
  using assms by (intro wake_goto) (auto simp: wake_ok_def)

lemma wake_irrelevant [simp]:
  "wake_ok (lock i s) = wake_ok s" "wake_ok (unlock s) = wake_ok s"
  by (simp_all add: wake_ok_def)

lemma wake_empty: "msgq (queue s) = [] \<Longrightarrow> wake_ok s"
  by (simp add: wake_ok_def)

lemma step_wake: "lq_step s i s' \<Longrightarrow> wake_ok s \<Longrightarrow> wake_ok s'"
proof (induction rule: lq_step.induct)
  case (send_pushes s i x)
  let ?t = "s\<lparr>queue := snd (bl_send x (queue s)), pushed := pushed s @ [x]\<rparr>"
  note pending = cnt_update [of i "threads s" pending "Send_unlock"]
    and active = cnt_update [of i "threads s" active "Send_unlock"]
  show ?case unfolding wake_ok_def
  proof
    assume "waiting (goto i Send_unlock ?t)"
    then have "waiting s" using waiting_goto [of Send_unlock i ?t] by simp
    with send_pushes pending active show "length (msgq (queue (goto i Send_unlock ?t))) \<le>
        cnt pending (threads (goto i Send_unlock ?t)) + cnt active (threads (goto i Send_unlock ?t))"
      by (simp add: wake_ok_def bl_simps)
  qed
next
  case (send_notifies s i j m)
  let ?t = "goto j (Recv_woken m False) s"
  have ij: "i \<noteq> j" using send_notifies by auto
  have w: "waiting s" using send_notifies by (auto simp: waiting_def)
  have "cnt pending (threads ?t) = cnt pending (threads s)" "cnt active (threads ?t) = Suc (cnt active (threads s))"
    using cnt_update [of j "threads s" pending "Recv_woken m False"]
      cnt_update [of j "threads s" active "Recv_woken m False"] send_notifies by simp_all
  with send_notifies w have "length (msgq (queue ?t)) + 1 \<le> cnt pending (threads ?t) + cnt active (threads ?t)"
    "wake_ok ?t" by (simp_all add: wake_ok_def)
  with send_notifies ij show ?case by (rule_tac wake_goto) (simp_all del: One_nat_def)
next
  case (send_notifies_none s i)
  then have "\<not> waiting s" by (auto simp: waiting_def)
  with send_notifies_none show ?case by (intro wake_goto) auto
next
  case (receive_waits s i m e)
  then show ?case by (intro wake_empty) simp
next
  case (receive_gives_up s i m e)
  then show ?case by (intro wake_empty) simp
next
  case (receive_takes s i x q)
  let ?t = "s\<lparr>queue := q, popped := popped s @ [x]\<rparr>"
  have "wake_ok ?t" using receive_takes by (auto simp: wake_ok_def bl_simps)
  moreover have "Suc (length (msgq (queue ?t))) \<le> cnt pending (threads s) + cnt active (threads s)" if "waiting s"
    using receive_takes that by (auto simp: wake_ok_def bl_simps)
  ultimately show ?case using receive_takes by (intro wake_goto) auto
qed (auto intro!: wake_move)

lemma reach_ok: "lq_reach n s \<Longrightarrow> mutex_ok s \<and> order_ok s \<and> take_ok s \<and> wake_ok s"
proof (induction rule: lq_reach.induct)
  case reach_init
  show ?case
    by (auto simp: lock_init_def mutex_ok_def order_ok_def take_ok_def wake_ok_def waiting_def)
next
  case (reach_step s i s')
  then show ?case using step_mutex step_order step_take step_wake by blast
qed

text \<open>
  C18. \<open>BasicLockQueue\<close> is safe for any number of senders and receivers, in every interleaving
  with spurious wake-ups and time-outs: two threads are never in a critical section at once, a
  receiver never takes from an empty queue, and the elements that have been taken, in the
  order of the taking, followed by what is in the queue are the elements that were sent.
\<close>

theorem lock_queue_safe:
  assumes "lq_reach n s"
  shows "(at s i p \<and> holds p \<and> at s j q \<and> holds q \<longrightarrow> i = j) \<and>
    (at s i Recv_take \<longrightarrow> msgq (queue s) \<noteq> []) \<and>
    pushed s = popped s @ msgq (queue s)"
  using reach_ok [OF assms] unfolding mutex_ok_def order_ok_def take_ok_def
  by (metis option.inject)

lemma holder_steps:
  assumes "at s i p" "holds p" "take_ok s"
  shows "\<exists>s'. lq_step s i s'"
proof (cases p)
  case (Recv_test m e)
  show ?thesis
  proof (cases "msgq (queue s) = []")
    case True
    show ?thesis
    proof (cases "m = Trying \<or> m = Timed \<and> e")
      case True
      with \<open>msgq (queue s) = []\<close> Recv_test assms(1) show ?thesis by (blast intro: receive_gives_up)
    next
      case False
      with \<open>msgq (queue s) = []\<close> Recv_test assms(1) show ?thesis by (blast intro: receive_waits)
    qed
  next
    case False
    with Recv_test assms(1) show ?thesis by (blast intro: receive_finds)
  qed
next
  case Recv_take
  with assms have "msgq (queue s) \<noteq> []" by (auto simp: take_ok_def)
  then obtain x q where "bl_try_receive (queue s) = (Some x, q)"
    by (auto simp: bl_try_receive_def)
  with Recv_take assms(1) show ?thesis by (blast intro: receive_takes)
qed (use assms in \<open>auto intro: lq_step.intros\<close>)

text \<open>A state in which a receiver sleeps and a sender has just pushed.\<close>

definition sample_threads :: "nat option \<Rightarrow> nat thread list \<Rightarrow> nat lock_sys" where
  "sample_threads mu ts = \<lparr>queue = \<lparr>msgq = []\<rparr>, mutex = mu, threads = ts, pushed = [], popped = []\<rparr>"

definition sample_pushed :: "nat lock_sys" where
  "sample_pushed = \<lparr>queue = \<lparr>msgq = [7]\<rparr>, mutex = Some 0,
     threads = [Send_unlock, Recv_wait Blocking], pushed = [7], popped = []\<rparr>"

lemma sample_pushed_reached: "lq_reach 2 sample_pushed"
proof -
  note defs = goto_def lock_def unlock_def sample_threads_def sample_pushed_def lock_init_def
    bl_send_def numeral_2_eq_2
  have "lq_reach 2 (sample_threads None [Idle, Idle])"
    using reach_init [of 2] by (simp add: defs)
  from reach_step [OF this call_receive [where i = 1 and m = Blocking]]
  have "lq_reach 2 (sample_threads None [Idle, Recv_lock Blocking])" by (simp add: defs)
  from reach_step [OF this receive_locks [where i = 1 and m = Blocking]]
  have "lq_reach 2 (sample_threads (Some 1) [Idle, Recv_test Blocking False])" by (simp add: defs)
  from reach_step [OF this receive_waits [where i = 1 and m = Blocking and e = False]]
  have "lq_reach 2 (sample_threads None [Idle, Recv_wait Blocking])" by (simp add: defs)
  from reach_step [OF this call_send [where i = 0 and x = 7]]
  have "lq_reach 2 (sample_threads None [Send_lock 7, Recv_wait Blocking])" by (simp add: defs)
  from reach_step [OF this send_locks [where i = 0 and x = 7]]
  have "lq_reach 2 (sample_threads (Some 0) [Send_push 7, Recv_wait Blocking])" by (simp add: defs)
  from reach_step [OF this send_pushes [where i = 0 and x = 7]]
  show ?thesis by (simp add: defs)
qed

theorem lock_queue_safe_witness:
  "pushed sample_pushed = popped sample_pushed @ msgq (queue sample_pushed) \<and> pushed sample_pushed = [7]"
  using lock_queue_safe [OF sample_pushed_reached] by (auto simp: sample_pushed_def)

text \<open>
  C17. No wake-up is lost: whenever an element is in the queue while receivers wait, a sender
  is about to notify one of them or some receiver is about to test the queue, and such a
  thread, or the one that holds the mutex, can take a step. So the queue never gets stuck with
  an element and sleeping receivers.
\<close>

theorem no_lost_wakeup:
  assumes "lq_reach n s" "msgq (queue s) \<noteq> []" "at s j (Recv_wait m)"
  shows "\<exists>i s'. i < length (threads s) \<and> lq_step s i s' \<and>
      (holds (threads s ! i) \<or> pending (threads s ! i) \<or> active (threads s ! i)) \<and>
    (\<exists>k<length (threads s). pending (threads s ! k) \<or> active (threads s ! k))"
proof -
  have ok: "mutex_ok s" "take_ok s" "wake_ok s" using reach_ok [OF assms(1)] by auto
  have "waiting s" using assms(3) by (auto simp: waiting_def)
  with ok(3) assms(2) have "0 < cnt pending (threads s) \<or> 0 < cnt active (threads s)"
    by (cases "msgq (queue s)") (auto simp: wake_ok_def)
  then obtain k where k: "k < length (threads s)" "pending (threads s ! k) \<or> active (threads s ! k)"
    by (auto simp: cnt_pos)
  show ?thesis
  proof (cases "mutex s")
    case (Some i)
    with ok(1) have "at s i (threads s ! i)" "holds (threads s ! i)" by (auto simp: mutex_ok_def)
    with holder_steps [OF this ok(2)] k show ?thesis by blast
  next
    case None
    with ok(1) k(1) have "\<not> holds (threads s ! k)" by (simp add: mutex_ok_def)
    with k(2) consider "threads s ! k = Send_notify" | m e where "threads s ! k = Recv_woken m e"
      by (cases "threads s ! k") auto
    then show ?thesis
    proof cases
      case 1
      with k assms(3) show ?thesis by (blast intro: send_notifies)
    next
      case 2
      with k None show ?thesis by (blast intro: relocks)
    qed
  qed
qed

theorem no_lost_wakeup_witness:
  "\<exists>i s'. i < length (threads sample_pushed) \<and> lq_step sample_pushed i s'"
proof -
  have "msgq (queue sample_pushed) \<noteq> []" "at sample_pushed 1 (Recv_wait Blocking)"
    by (simp_all add: sample_pushed_def)
  from no_lost_wakeup [OF sample_pushed_reached this] show ?thesis by blast
qed

end
