(* ===== verification/Log_Levels.thy ===== *)
theory Log_Levels
  imports Prelude
begin

text \<open>
  The levels of a log message and the filter of the logger (src/logging.{hpp,cpp}). In the code a
  level is an \<open>int\<close>; the macros \<open>TI_DEBUG\<close> to \<open>TI_FATAL\<close> pass the five numbers of the type
  \<open>level\<close>, which is ordered like them.
\<close>

datatype level = Debug | Info | Warn | Err | Fatal

fun level_num :: "level \<Rightarrow> int" where
  "level_num Debug = 0"
| "level_num Info = 1"
| "level_num Warn = 2"
| "level_num Err = 3"
| "level_num Fatal = 4"

lemma level_num_inj [simp]: "level_num a = level_num b \<longleftrightarrow> a = b"
  by (cases a; cases b) simp_all

instantiation level :: linorder
begin

definition less_eq_level :: "level \<Rightarrow> level \<Rightarrow> bool" where
  "a \<le> b \<longleftrightarrow> level_num a \<le> level_num b"

definition less_level :: "level \<Rightarrow> level \<Rightarrow> bool" where
  "a < b \<longleftrightarrow> level_num a < level_num b"

instance
  by intro_classes (auto simp: less_eq_level_def less_level_def)

end

text \<open>
  \<open>LOG_LEVEL_NUM\<close>, from the macros that are defined when the program is built: the lowest of their
  levels. No other code uses it, so that all levels are compiled.
\<close>

definition log_level_num :: "level set \<Rightarrow> int" where
  "log_level_num macros =
     (if Debug \<in> macros then level_num Debug
      else if Info \<in> macros then level_num Info
      else if Warn \<in> macros then level_num Warn
      else if Err \<in> macros then level_num Err
      else if Fatal \<in> macros then level_num Fatal
      else level_num Info)"

lemma finite_levels [simp]: "finite (S :: level set)"
proof (rule finite_subset)
  show "S \<subseteq> {Debug, Info, Warn, Err, Fatal}" using level.exhaust by blast
qed simp

lemma log_level_num_lowest:
  assumes "macros \<noteq> {}"
  shows "log_level_num macros = level_num (Min macros)"
proof -
  define m where "m = Min macros"
  have m: "m \<in> macros" "\<And>k. k \<in> macros \<Longrightarrow> level_num m \<le> level_num k"
    using assms by (simp_all add: m_def less_eq_level_def [symmetric])
  have "k \<notin> macros" if "level_num k < level_num m" for k using m(2) [of k] that by auto
  then have "log_level_num macros = level_num m"
    using m(1) by (cases m) (simp_all add: log_level_num_def)
  then show ?thesis by (simp add: m_def)
qed

text \<open>\<open>LevelFilter::filter\<close> and \<open>Record::level_name\<close>.\<close>

definition level_filter :: "int \<Rightarrow> int \<Rightarrow> bool" where
  "level_filter min_level level \<longleftrightarrow> level \<ge> min_level"

definition level_name :: "int \<Rightarrow> string res" where
  "level_name num =
     (if num = 0 then Inr ''DEBUG''
      else if num = 1 then Inr ''INFO''
      else if num = 2 then Inr ''WARN''
      else if num = 3 then Inr ''ERROR''
      else if num = 4 then Inr ''FATAL''
      else Inl (Logic_error ''bad level''))"

fun name_of_level :: "level \<Rightarrow> string" where
  "name_of_level Debug = ''DEBUG''"
| "name_of_level Info = ''INFO''"
| "name_of_level Warn = ''WARN''"
| "name_of_level Err = ''ERROR''"
| "name_of_level Fatal = ''FATAL''"

lemma level_name_num [simp]: "level_name (level_num l) = Inr (name_of_level l)"
  by (cases l) (simp_all add: level_name_def)

lemma level_filter_num [simp]: "level_filter (level_num m) (level_num l) \<longleftrightarrow> m \<le> l"
  by (simp add: level_filter_def less_eq_level_def)

lemma level_name_InrD: "level_name n = Inr s \<Longrightarrow> \<exists>l. n = level_num l \<and> s = name_of_level l"
proof -
  assume "level_name n = Inr s"
  then have "n = level_num Debug \<or> n = level_num Info \<or> n = level_num Warn \<or> n = level_num Err \<or>
      n = level_num Fatal"
    by (auto simp: level_name_def split: if_splits)
  with \<open>level_name n = Inr s\<close> level_name_num show ?thesis by (metis sum.inject(2))
qed

end
