(* ===== verification/Async_Logging.thy ===== *)
theory Async_Logging
  imports Log_Levels Lock_Queues
begin

text \<open>
  The asynchronous logger (src/logging.{hpp,cpp}): a log call filters and formats a record in the
  calling thread and sends it through a \<open>SenderSideLockQueue\<close> to one daemon thread, which writes
  it; stopping sets a flag and sends an empty record as a wake-up marker. First the operations,
  then the daemon, the callers and the stopping thread as interleaved steps.

  The clock, the text of a thread id and the conversion of a time to a local date are outside the
  program: they are the fields of a record, and the parameter \<open>date\<close> (\<open>localtime_r\<close> and
  \<open>strftime\<close> with the format of the code, of a time in seconds).
\<close>

section \<open>Records\<close>

record log_record =
  record_level :: int
  line_num :: int
  thread_id :: string
  file_name :: string
  msg :: string
  logging_time :: nat

text \<open>\<open>strrchr\<close>: the suffix that begins at the last occurrence of a character.\<close>

fun strrchr :: "string \<Rightarrow> char \<Rightarrow> string option" where
  "strrchr [] c = None"
| "strrchr (x # xs) c =
     (case strrchr xs c of
        Some s \<Rightarrow> Some s
      | None \<Rightarrow> if x = c then Some (x # xs) else None)"

text \<open>
  \<open>get_file_name\<close> with its cache, which is keyed by the pointer: \<open>p\<close> is the address of the
  literal \<open>path\<close>.
\<close>

definition get_file_name :: "(nat \<rightharpoonup> string) \<Rightarrow> nat \<Rightarrow> string \<Rightarrow> (nat \<rightharpoonup> string) \<times> string" where
  "get_file_name dict p path =
     (let dict = (if dict p = None
                  then dict(p \<mapsto> (case strrchr path (CHR ''/'') of Some s \<Rightarrow> tl s | None \<Rightarrow> path))
                  else dict)
      in (dict, the (dict p)))"

text \<open>The constructor of \<open>Record\<close> takes the file name, the thread and the time.\<close>

definition make_record ::
  "nat \<Rightarrow> string \<Rightarrow> (nat \<rightharpoonup> string) \<Rightarrow> int \<Rightarrow> nat \<times> string \<Rightarrow> int \<Rightarrow> string \<Rightarrow> (nat \<rightharpoonup> string) \<times> log_record" where
  "make_record now tid dict level file line m =
     (let (dict, name) = get_file_name dict (fst file) (snd file)
      in (dict, \<lparr>record_level = level, line_num = line, thread_id = tid, file_name = name,
            msg = m, logging_time = now\<rparr>))"

text \<open>The time is in nanoseconds, the resolution of the system clock.\<close>

definition record_format :: "(nat \<Rightarrow> string) \<Rightarrow> log_record \<Rightarrow> string res" where
  "record_format date r =
     (let ms = logging_time r div 1000 mod 1000000
      in rbind (level_name (record_level r)) (\<lambda>name.
         Inr (date (logging_time r div 1000000000) @ show_nat ms @
           '' '' @ name @ '' '' @
           ''tid:'' @ thread_id r @ '' '' @
           ''in '' @ file_name r @ '':'' @ show_int (line_num r) @
           '' '' @ msg r @ [CHR 0x0A])))"

section \<open>The logger\<close>

record async_logger =
  record_queue :: "string sender_side_queue"
  dest :: string

definition insert_record :: "string \<Rightarrow> async_logger \<Rightarrow> async_logger" where
  "insert_record r lg = lg\<lparr>record_queue := snd (ss_send r (record_queue lg))\<rparr>"

definition write_record :: "string \<Rightarrow> async_logger \<Rightarrow> async_logger" where
  "write_record tmp lg = (if length tmp > 0 then lg\<lparr>dest := dest lg @ tmp\<rparr> else lg)"

text \<open>\<open>flush_one\<close> blocks (\<open>None\<close>) while nothing is in the queue.\<close>

definition flush_one :: "async_logger \<Rightarrow> async_logger option" where
  "flush_one lg =
     (case ss_receive [] (record_queue lg) of
        Some (Some tmp, q) \<Rightarrow> Some (write_record tmp (lg\<lparr>record_queue := q\<rparr>))
      | _ \<Rightarrow> None)"

definition flush_next :: "async_logger \<Rightarrow> async_logger option" where
  "flush_next lg =
     (case ss_try_receive (record_queue lg) of
        (Some tmp, q) \<Rightarrow> Some (write_record tmp (lg\<lparr>record_queue := q\<rparr>))
      | (None, q) \<Rightarrow> None)"

lemma ss_receive_cases:
  "ss_receive [] q = (case ss_contents q of [] \<Rightarrow> None | x # xs \<Rightarrow> Some (ss_try_receive q))"
  by (cases "out_queue q"; cases "in_queue q") (simp_all add: ss_defs)

lemma ss_try_receive_cases:
  "ss_contents q = [] \<Longrightarrow> ss_try_receive q = (None, q)"
  "ss_contents q = x # xs \<Longrightarrow> \<exists>q'. ss_try_receive q = (Some x, q') \<and> ss_contents q' = xs"
  by (cases "out_queue q"; cases "in_queue q"; simp add: ss_defs)+

definition pending_records :: "async_logger \<Rightarrow> string list" where
  "pending_records lg = ss_contents (record_queue lg)"

lemma insert_record_pending [simp]:
  "pending_records (insert_record r lg) = pending_records lg @ [r]"
  "dest (insert_record r lg) = dest lg"
  by (simp_all add: pending_records_def insert_record_def ss_send_def ss_contents_def)

lemma flush_next_cases:
  "pending_records lg = [] \<Longrightarrow> flush_next lg = None"
  "pending_records lg = x # xs \<Longrightarrow>
     \<exists>lg'. flush_next lg = Some lg' \<and> pending_records lg' = xs \<and> dest lg' = dest lg @ x"
  using ss_try_receive_cases [of "record_queue lg"]
  by (auto simp: flush_next_def pending_records_def write_record_def split: option.splits)

lemma flush_one_next: "flush_one lg = flush_next lg"
proof (cases "pending_records lg")
  case Nil
  then show ?thesis
    by (simp add: flush_next_cases(1) flush_one_def ss_receive_cases pending_records_def)
next
  case (Cons x xs)
  with ss_try_receive_cases(2) [of "record_queue lg" x xs] show ?thesis
    by (auto simp: flush_one_def flush_next_def ss_receive_cases pending_records_def)
qed

text \<open>\<open>flush_all\<close> by itself: every iteration takes a record, so it ends.\<close>

function flush_all :: "async_logger \<Rightarrow> async_logger" where
  "flush_all lg = (case flush_next lg of None \<Rightarrow> lg | Some lg' \<Rightarrow> flush_all lg')"
  by auto

termination
proof (relation "measure (\<lambda>lg. length (pending_records lg))", goal_cases)
  case (2 lg lg')
  then show ?case
    using flush_next_cases [of lg] by (cases "pending_records lg") auto
qed simp

declare flush_all.simps [simp del]

lemma flush_all_pending:
  "pending_records (flush_all lg) = [] \<and> dest (flush_all lg) = dest lg @ concat (pending_records lg)"
proof (induction lg rule: flush_all.induct)
  case (1 lg)
  show ?case
  proof (cases "pending_records lg")
    case Nil
    then show ?thesis by (simp add: flush_all.simps [of lg] flush_next_cases(1))
  next
    case (Cons x xs)
    from flush_next_cases(2) [OF this] obtain lg' where lg': "flush_next lg = Some lg'"
        "pending_records lg' = xs" "dest lg' = dest lg @ x" by blast
    with 1 [OF lg'(1)] Cons show ?thesis by (simp add: flush_all.simps [of lg])
  qed
qed

text \<open>
  \<open>flush_all\<close> terminates from every state of the two queues, leaves nothing behind and
  appends all queued records to the destination in the order in which they were inserted.
\<close>

theorem flush_all_terminates:
  "let lg = foldl (\<lambda>lg r. insert_record r lg) lg0 rs
   in dest (flush_all lg) = dest lg0 @ concat (pending_records lg0) @ concat rs \<and>
      flush_next (flush_all lg) = None"
proof -
  have "pending_records (foldl (\<lambda>lg r. insert_record r lg) lg0 rs) = pending_records lg0 @ rs \<and>
      dest (foldl (\<lambda>lg r. insert_record r lg) lg0 rs) = dest lg0"
    by (induction rs arbitrary: lg0) simp_all
  then show ?thesis by (simp add: flush_all_pending flush_next_cases(1))
qed

section \<open>The manager and the log calls\<close>

text \<open>
  A \<open>GlobalLoggerManager\<close>; \<open>output_to\<close> is where the destination of the logger leads. \<open>opened\<close> tells
  if the log file could be opened; otherwise a message goes to the standard error.
\<close>

datatype log_output = Cout | Log_file string

record logger_manager =
  done_flag :: bool
  output_to :: log_output
  logger :: async_logger
  min_level :: int

definition new_logger :: async_logger where
  "new_logger = \<lparr>record_queue = \<lparr>in_queue = [], out_queue = []\<rparr>, dest = []\<rparr>"

definition new_manager :: "int \<Rightarrow> logger_manager" where
  "new_manager level = \<lparr>done_flag = False, output_to = Cout, logger = new_logger, min_level = level\<rparr>"

definition new_manager_file :: "int \<Rightarrow> string \<Rightarrow> bool \<Rightarrow> logger_manager \<times> string" where
  "new_manager_file level file_path opened =
     (if \<not> opened then
        (\<lparr>done_flag = False, output_to = Cout, logger = new_logger, min_level = level\<rparr>,
         ''Can not open file:'' @ file_path @ ''. Will log to stdout.'' @ [CHR 0x0A])
      else (\<lparr>done_flag = False, output_to = Log_file file_path, logger = new_logger, min_level = level\<rparr>, []))"

definition stop_flag :: "logger_manager \<Rightarrow> logger_manager" where
  "stop_flag m = m\<lparr>done_flag := True\<rparr>"

definition stop_marker :: "logger_manager \<Rightarrow> logger_manager" where
  "stop_marker m = m\<lparr>logger := insert_record [] (logger m)\<rparr>"

text \<open>
  The destructor stops the daemon and joins it; what the daemon has written by then is shown below
  (\<open>stopped_daemon_ends\<close>): everything that was inserted.
\<close>

definition destroy_manager :: "logger_manager \<Rightarrow> logger_manager" where
  "destroy_manager m = (let m = stop_marker (stop_flag m) in m\<lparr>logger := flush_all (logger m)\<rparr>)"

text \<open>\<open>_log\<close> in a thread with the cache \<open>dict\<close>; before \<open>logging_init\<close> the manager is null.\<close>

record log_world =
  mng :: "logger_manager option"
  file_names :: "nat \<rightharpoonup> string"
  closed_logs :: "(log_output \<times> string) list"
  error_output :: string

text \<open>
  \<open>logging_init\<close> makes the new manager first; replacing the pointer destroys the old one, whose
  output is then complete. \<open>opened\<close> is as above.
\<close>

definition logging_init :: "int \<Rightarrow> string option \<Rightarrow> bool \<Rightarrow> (log_world, unit) action" where
  "logging_init level log_file_path opened w =
     (let (m, err) = (case log_file_path of
            Some path \<Rightarrow> new_manager_file level path opened
          | None \<Rightarrow> (new_manager level, []));
          closed = (case mng w of
            None \<Rightarrow> []
          | Some old \<Rightarrow> [(output_to old, dest (logger (destroy_manager old)))])
      in (Inr (), w\<lparr>mng := Some m, closed_logs := closed_logs w @ closed,
           error_output := error_output w @ err\<rparr>))"

text \<open>
  The logger and the filter of a manager and of the global one; the global pointer is null before
  \<open>logging_init\<close>.
\<close>

definition get_logger :: "logger_manager \<Rightarrow> async_logger" where
  "get_logger m = logger m"

definition get_level_filter :: "logger_manager \<Rightarrow> int" where
  "get_level_filter m = min_level m"

definition get_global_manager :: "log_world \<Rightarrow> logger_manager res" where
  "get_global_manager w = (case mng w of None \<Rightarrow> Inl (Undefined ''null logger manager'') | Some g \<Rightarrow> Inr g)"

definition get_global_level_filter :: "log_world \<Rightarrow> int res" where
  "get_global_level_filter w = rbind (get_global_manager w) (\<lambda>g. Inr (get_level_filter g))"

definition insert_global :: "string \<Rightarrow> (log_world, unit) action" where
  "insert_global r w =
     (case get_global_manager w of
        Inl e \<Rightarrow> (Inl e, w)
      | Inr g \<Rightarrow> (Inr (), w\<lparr>mng := Some (g\<lparr>logger := insert_record r (get_logger g)\<rparr>)\<rparr>))"

definition log_call ::
  "(nat \<Rightarrow> string) \<Rightarrow> nat \<Rightarrow> string \<Rightarrow> int \<Rightarrow> nat \<times> string \<Rightarrow> int \<Rightarrow> string \<Rightarrow> (log_world, unit) action" where
  "log_call date now tid level file line m w =
     (case get_global_level_filter w of
        Inl e \<Rightarrow> (Inl e, w)
      | Inr lowest \<Rightarrow>
          if \<not> level_filter lowest level then (Inr (), w)
          else
            (let (dict, r) = make_record now tid (file_names w) level file line m;
                 w = w\<lparr>file_names := dict\<rparr>
             in case record_format date r of
                  Inl e \<Rightarrow> (Inl e, w)
                | Inr s \<Rightarrow> insert_global s w))"

text \<open>\<open>TI_DEBUG\<close> to \<open>TI_FATAL\<close>: the level is the only difference.\<close>

definition log_macro ::
  "(nat \<Rightarrow> string) \<Rightarrow> nat \<Rightarrow> string \<Rightarrow> level \<Rightarrow> nat \<times> string \<Rightarrow> int \<Rightarrow> string \<Rightarrow> (log_world, unit) action" where
  "log_macro date now tid l file line m = log_call date now tid (level_num l) file line m"

lemmas log_call_defs = log_macro_def log_call_def get_global_level_filter_def get_global_manager_def
  get_level_filter_def get_logger_def insert_global_def make_record_def

lemma destroy_manager_writes:
  "dest (logger (destroy_manager m)) = dest (logger m) @ concat (pending_records (logger m))"
  by (simp add: destroy_manager_def stop_marker_def stop_flag_def flush_all_pending)

text \<open>The name behind the last slash.\<close>

lemma strrchr_None: "strrchr s c = None \<longleftrightarrow> c \<notin> set s"
  by (induction s) (auto split: option.splits)

lemma strrchr_last: "c \<notin> set b \<Longrightarrow> strrchr (a @ c # b) c = Some (c # b)"
  by (induction a) (auto simp: strrchr_None [THEN iffD2])

lemma get_file_name_last:
  assumes "dict p = None \<or> dict p = Some b" "CHR ''/'' \<notin> set b"
  shows "get_file_name dict p (a @ CHR ''/'' # b) = (dict(p \<mapsto> b), b)"
  using assms strrchr_last [of "CHR ''/''" b a] by (auto simp: get_file_name_def)

text \<open>A manager as its constructors leave it.\<close>

definition fresh_manager :: "logger_manager \<Rightarrow> bool" where
  "fresh_manager m \<longleftrightarrow> \<not> done_flag m \<and> logger m = new_logger"

text \<open>
  Initialising the logging again loses nothing of the old log: all its records are written before
  the old manager is gone.
\<close>

lemma logging_init_again:
  assumes "mng w = Some old"
  shows "\<exists>w' m. logging_init level path opened w = (Inr (), w') \<and> mng w' = Some m \<and> fresh_manager m \<and>
    closed_logs w' = closed_logs w @
      [(output_to old, dest (logger old) @ concat (pending_records (logger old)))]"
  using assms by (auto simp: logging_init_def destroy_manager_writes fresh_manager_def new_manager_def
      new_manager_file_def split: option.splits)

text \<open>
  A log call of one of the five macros from a file with a path: a message below the minimum
  level changes nothing; any other appends exactly one record to the queue, with the date, the
  microseconds, the level, the thread, the file name behind the last slash, the line and the
  message; nothing is written to the destination in the calling thread.
\<close>

theorem log_call_correct:
  assumes "mng w = Some g" "file_names w p = None \<or> file_names w p = Some b" "CHR ''/'' \<notin> set b"
  shows "\<exists>w' g'. log_macro date now tid l (p, a @ CHR ''/'' # b) line m w = (Inr (), w') \<and>
    mng w' = Some g' \<and> min_level g' = min_level g \<and> dest (logger g') = dest (logger g) \<and>
    pending_records (logger g') = pending_records (logger g) @
      (if level_num l < min_level g then [] else
       [date (now div 1000000000) @ show_nat (now div 1000 mod 1000000) @ '' '' @ name_of_level l @
        '' tid:'' @ tid @ '' in '' @ b @ '':'' @ show_int line @ '' '' @ m @ [CHR 0x0A]])"
  using assms get_file_name_last [of "file_names w" p b a]
  by (simp add: log_call_defs level_filter_def record_format_def not_le Let_def)

theorem log_call_correct_witness:
  "\<exists>w' g'. log_macro (\<lambda>_. ''2020-01-01 00:00:00.'') 5000 ''1'' Warn (7, ''src/a.cpp'') 12 ''hi''
      \<lparr>mng = Some (new_manager 1), file_names = Map.empty, closed_logs = [], error_output = []\<rparr> = (Inr (), w') \<and> mng w' = Some g' \<and>
    pending_records (logger g') =
      [''2020-01-01 00:00:00.'' @ show_nat 5 @ '' WARN tid:1 in a.cpp:'' @ show_int 12 @ '' hi'' @ [CHR 0x0A]]"
  using log_call_correct [of "\<lparr>mng = Some (new_manager 1), file_names = Map.empty, closed_logs = [], error_output = []\<rparr>" "new_manager 1" 7
      "''a.cpp''" "\<lambda>_. ''2020-01-01 00:00:00.''" 5000 "''1''" Warn "''src''" 12 "''hi''"]
  by (auto simp: new_manager_def new_logger_def pending_records_def ss_contents_def)

section \<open>The daemon, the callers and the stopping thread\<close>

text \<open>
  Where the daemon is in \<open>loop_body\<close>, and the stopping thread in \<open>stop\<close>. The queue operations are
  atomic (the queue is linearizable and has one consumer); a read or write of the flag is a step
  of its own. \<open>inserted\<close> records all insertions in their order, \<open>before_stop\<close> how many of them
  were made when the flag was set.
\<close>

datatype daemon_pc = Check_done | In_flush_one | In_flush_all | Finished

datatype stop_pc = Not_stopped | Flag_set | Stop_returned

record log_sys =
  manager :: logger_manager
  daemon :: daemon_pc
  stopper :: stop_pc
  inserted :: "string list"
  before_stop :: nat

definition daemon_step :: "log_sys \<Rightarrow> log_sys option" where
  "daemon_step s =
     (case daemon s of
        Check_done \<Rightarrow> Some (s\<lparr>daemon := if done_flag (manager s) then In_flush_all else In_flush_one\<rparr>)
      | In_flush_one \<Rightarrow>
          (case flush_one (logger (manager s)) of
             None \<Rightarrow> None
           | Some lg \<Rightarrow> Some (s\<lparr>manager := (manager s)\<lparr>logger := lg\<rparr>, daemon := Check_done\<rparr>))
      | In_flush_all \<Rightarrow>
          (case flush_next (logger (manager s)) of
             None \<Rightarrow> Some (s\<lparr>daemon := Finished\<rparr>)
           | Some lg \<Rightarrow> Some (s\<lparr>manager := (manager s)\<lparr>logger := lg\<rparr>\<rparr>))
      | Finished \<Rightarrow> None)"

inductive log_step :: "log_sys \<Rightarrow> log_sys \<Rightarrow> bool" where
  caller_inserts: "log_step s (s\<lparr>manager := (manager s)\<lparr>logger := insert_record r (logger (manager s))\<rparr>,
     inserted := inserted s @ [r]\<rparr>)"
| stop_sets_flag: "stopper s = Not_stopped \<Longrightarrow>
     log_step s (s\<lparr>manager := stop_flag (manager s), stopper := Flag_set, before_stop := length (inserted s)\<rparr>)"
| stop_inserts_marker: "stopper s = Flag_set \<Longrightarrow>
     log_step s (s\<lparr>manager := stop_marker (manager s), stopper := Stop_returned, inserted := inserted s @ [[]]\<rparr>)"
| daemon_moves: "daemon_step s = Some t \<Longrightarrow> log_step s t"

inductive_cases log_step_cases: "log_step s t"

definition log_init :: "logger_manager \<Rightarrow> log_sys" where
  "log_init m = \<lparr>manager = m, daemon = Check_done, stopper = Not_stopped, inserted = [], before_stop = 0\<rparr>"

inductive log_reach :: "logger_manager \<Rightarrow> log_sys \<Rightarrow> bool" for m where
  log_start: "log_reach m (log_init m)"
| log_next: "log_reach m s \<Longrightarrow> log_step s t \<Longrightarrow> log_reach m t"

fun daemon_run :: "nat \<Rightarrow> log_sys \<Rightarrow> log_sys" where
  "daemon_run 0 s = s"
| "daemon_run (Suc n) s = (case daemon_step s of None \<Rightarrow> s | Some t \<Rightarrow> daemon_run n t)"

abbreviation queued :: "log_sys \<Rightarrow> string list" where
  "queued s \<equiv> pending_records (logger (manager s))"

abbreviation written :: "log_sys \<Rightarrow> string" where
  "written s \<equiv> dest (logger (manager s))"

text \<open>The invariant: what was taken from the queue is written, and how the two threads agree.\<close>

definition taken_ok :: "log_sys \<Rightarrow> bool" where
  "taken_ok s \<longleftrightarrow> (\<exists>taken. inserted s = taken @ queued s \<and> written s = concat taken)"

definition stop_ok :: "log_sys \<Rightarrow> bool" where
  "stop_ok s \<longleftrightarrow>
     (done_flag (manager s) \<longleftrightarrow> stopper s \<noteq> Not_stopped) \<and>
     (stopper s \<noteq> Not_stopped \<longrightarrow> before_stop s \<le> length (inserted s)) \<and>
     (daemon s \<in> {In_flush_all, Finished} \<longrightarrow> stopper s \<noteq> Not_stopped) \<and>
     (stopper s = Stop_returned \<and> daemon s = In_flush_one \<longrightarrow> queued s \<noteq> []) \<and>
     (daemon s = Finished \<longrightarrow> before_stop s + length (queued s) \<le> length (inserted s))"

lemma taken_ok_take:
  assumes "inserted s = taken @ x # xs" "written s = concat taken"
    "inserted t = inserted s" "queued t = xs" "written t = written s @ x"
  shows "taken_ok t"
  unfolding taken_ok_def using assms by (intro exI [of _ "taken @ [x]"]) simp

text \<open>The effect of a step of the daemon, by its program counter.\<close>

lemma daemon_step_cases:
  assumes "daemon_step s = Some t"
  obtains (check) "daemon s = Check_done"
      "t = s\<lparr>daemon := if done_flag (manager s) then In_flush_all else In_flush_one\<rparr>"
    | (finish) "daemon s = In_flush_all" "queued s = []" "t = s\<lparr>daemon := Finished\<rparr>"
    | (take) x xs lg where "daemon s \<in> {In_flush_one, In_flush_all}" "queued s = x # xs"
      "pending_records lg = xs" "dest lg = written s @ x"
      "t = s\<lparr>manager := (manager s)\<lparr>logger := lg\<rparr>,
         daemon := if daemon s = In_flush_one then Check_done else In_flush_all\<rparr>"
proof (cases "queued s")
  case Nil
  with assms check finish show thesis
    by (cases "daemon s") (auto simp: daemon_step_def flush_one_next flush_next_cases(1))
next
  case (Cons x xs)
  from flush_next_cases(2) [OF this] obtain lg where lg: "flush_next (logger (manager s)) = Some lg"
      "pending_records lg = xs" "dest lg = written s @ x" by blast
  have "log_sys.daemon_update (\<lambda>_. In_flush_all) s = s" if "daemon s = In_flush_all"
    using that by simp
  with assms lg Cons check take [of x xs lg] show thesis
    by (cases "daemon s") (auto simp: daemon_step_def flush_one_next)
qed

lemma daemon_step_taken: "daemon_step s = Some t \<Longrightarrow> taken_ok s \<Longrightarrow> taken_ok t"
proof (erule daemon_step_cases, goal_cases)
  case (3 x xs lg)
  then obtain taken where "inserted s = taken @ x # xs" "written s = concat taken"
    by (auto simp: taken_ok_def)
  then show ?case using 3 by (rule_tac taken_ok_take [of s taken x xs]) simp_all
qed (simp_all add: taken_ok_def)

lemma daemon_step_stop: "daemon_step s = Some t \<Longrightarrow> stop_ok s \<Longrightarrow> stop_ok t"
  by (erule daemon_step_cases) (auto simp: stop_ok_def)

lemma log_step_inv: "log_step s t \<Longrightarrow> taken_ok s \<Longrightarrow> stop_ok s \<Longrightarrow> taken_ok t \<and> stop_ok t"
proof (erule log_step_cases, goal_cases)
  case 4
  then show ?case using daemon_step_taken daemon_step_stop by simp
qed (auto simp: taken_ok_def stop_ok_def stop_flag_def stop_marker_def)

lemma fresh_new_manager:
  "fresh_manager (new_manager level)" "fresh_manager (fst (new_manager_file level path opened))"
  by (simp_all add: fresh_manager_def new_manager_def new_manager_file_def)

lemma log_reach_inv:
  assumes "fresh_manager m"
  shows "log_reach m s \<Longrightarrow> taken_ok s \<and> stop_ok s"
proof (induction rule: log_reach.induct)
  case log_start
  then show ?case using assms
    by (simp add: taken_ok_def stop_ok_def log_init_def fresh_manager_def new_logger_def
        pending_records_def ss_contents_def)
next
  case (log_next s t)
  then show ?case using log_step_inv by blast
qed

text \<open>
  C20. In every interleaving of log calls, the daemon and \<open>stop\<close>: what is written is the records
  in the order of their insertion, as far as they were taken from the queue, and the rest is
  still in the queue, so nothing is lost, duplicated or reordered; and when the daemon has
  ended, every record that was inserted before \<open>stop\<close> set its flag has been written.
\<close>

theorem log_nothing_lost:
  assumes "fresh_manager m" "log_reach m s"
  shows "\<exists>taken. inserted s = taken @ queued s \<and> written s = concat taken \<and>
    (daemon s = Finished \<longrightarrow> (\<exists>late. taken = take (before_stop s) (inserted s) @ late))"
proof -
  from log_reach_inv [OF assms] obtain taken where t: "inserted s = taken @ queued s"
      "written s = concat taken" and s: "stop_ok s"
    by (auto simp: taken_ok_def)
  have "\<exists>late. taken = take (before_stop s) (inserted s) @ late" if "daemon s = Finished"
  proof -
    have "before_stop s + length (queued s) \<le> length (inserted s)" using s that by (simp add: stop_ok_def)
    with t(1) have "before_stop s \<le> length taken" by simp
    with t(1) show ?thesis
      by (metis append_take_drop_id take_append diff_is_0_eq take_0 append_Nil2)
  qed
  with t show ?thesis by blast
qed

lemma daemon_run_flush:
  "daemon s = In_flush_all \<Longrightarrow> taken_ok s \<Longrightarrow> length (queued s) < n \<Longrightarrow>
    daemon (daemon_run n s) = Finished \<and> written (daemon_run n s) = concat (inserted s)"
proof (induction n arbitrary: s)
  case (Suc n)
  show ?case
  proof (cases "queued s")
    case Nil
    then have "daemon_step s = Some (s\<lparr>daemon := Finished\<rparr>)"
      using Suc.prems(1) by (simp add: daemon_step_def flush_next_cases(1))
    with Nil Suc.prems(2) show ?thesis
      by (cases n) (auto simp: taken_ok_def daemon_step_def)
  next
    case (Cons x xs)
    from flush_next_cases(2) [OF this] obtain lg where lg: "flush_next (logger (manager s)) = Some lg"
        "pending_records lg = xs" by blast
    let ?t = "s\<lparr>manager := (manager s)\<lparr>logger := lg\<rparr>\<rparr>"
    have t: "daemon_step s = Some ?t" using Suc.prems(1) lg by (simp add: daemon_step_def)
    have "daemon (daemon_run n ?t) = Finished \<and> written (daemon_run n ?t) = concat (inserted ?t)"
      using Suc.prems Cons lg(2) daemon_step_taken [OF t] by (intro Suc.IH) simp_all
    with t show ?thesis by simp
  qed
qed simp

text \<open>
  C21. The destructor that joins the daemon returns: once \<open>stop\<close> has returned, wherever the daemon
  is, it never blocks again; when nothing more is logged it ends after at most two steps more
  than there are queued records, with every record ever inserted written.
\<close>

theorem stopped_daemon_ends:
  assumes "fresh_manager m" "log_reach m s" "stopper s = Stop_returned" "daemon s \<noteq> Finished"
  shows "daemon (daemon_run (length (queued s) + 2) s) = Finished \<and>
    written (daemon_run (length (queued s) + 2) s) = concat (inserted s)"
proof -
  from log_reach_inv [OF assms(1,2)] have inv: "taken_ok s" "stop_ok s" by simp_all
  have check: "daemon (daemon_run (Suc n) t) = Finished \<and> written (daemon_run (Suc n) t) = concat (inserted t)"
    if "daemon t = Check_done" "done_flag (manager t)" "taken_ok t" "length (queued t) < n" for t n
  proof -
    let ?u = "t\<lparr>daemon := In_flush_all\<rparr>"
    have u: "daemon_step t = Some ?u" using that by (simp add: daemon_step_def)
    have "daemon (daemon_run n ?u) = Finished \<and> written (daemon_run n ?u) = concat (inserted ?u)"
      using that daemon_step_taken [OF u] by (intro daemon_run_flush) simp_all
    with u show ?thesis by simp
  qed
  have d: "done_flag (manager s)" using inv assms(3) by (simp add: stop_ok_def)
  show ?thesis
  proof (cases "daemon s")
    case Check_done
    with check [OF _ d inv(1), of "Suc (length (queued s))"] show ?thesis by simp
  next
    case In_flush_one
    with inv(2) assms(3) obtain x xs where q: "queued s = x # xs" by (cases "queued s") (auto simp: stop_ok_def)
    from flush_next_cases(2) [OF q] obtain lg where lg: "flush_one (logger (manager s)) = Some lg"
        "pending_records lg = xs" by (auto simp: flush_one_next)
    let ?t = "s\<lparr>manager := (manager s)\<lparr>logger := lg\<rparr>, daemon := Check_done\<rparr>"
    have t: "daemon_step s = Some ?t" using In_flush_one lg by (simp add: daemon_step_def)
    have "daemon (daemon_run (Suc (Suc (length xs))) ?t) = Finished \<and>
        written (daemon_run (Suc (Suc (length xs))) ?t) = concat (inserted ?t)"
      using d lg(2) daemon_step_taken [OF t inv(1)] by (intro check) simp_all
    moreover have "daemon_run (length (queued s) + 2) s = daemon_run (Suc (Suc (length xs))) ?t"
      using t q by (simp add: numeral_2_eq_2)
    ultimately show ?thesis by simp
  next
    case In_flush_all
    then show ?thesis using inv(1) by (intro daemon_run_flush) simp_all
  qed (simp add: assms(4))
qed

text \<open>A run: one record is logged, the daemon waits in \<open>flush_one\<close>, and \<open>stop\<close> is called.\<close>

lemma log_reach_example:
  "\<exists>s. log_reach (new_manager 0) s \<and> stopper s = Stop_returned \<and> daemon s = In_flush_one \<and>
     inserted s = [''a'', []] \<and> before_stop s = 1 \<and> queued s = [''a'', []]"
proof -
  define s1 where "s1 = (log_init (new_manager 0))\<lparr>daemon := In_flush_one\<rparr>"
  define s2 where "s2 = s1\<lparr>manager := (manager s1)\<lparr>logger := insert_record ''a'' (logger (manager s1))\<rparr>,
     inserted := inserted s1 @ [''a'']\<rparr>"
  define s3 where "s3 = s2\<lparr>manager := stop_flag (manager s2), stopper := Flag_set,
     before_stop := length (inserted s2)\<rparr>"
  define s4 where "s4 = s3\<lparr>manager := stop_marker (manager s3), stopper := Stop_returned,
     inserted := inserted s3 @ [[]]\<rparr>"
  note defs = s1_def s2_def s3_def s4_def log_init_def new_manager_def new_logger_def stop_flag_def
    stop_marker_def
  have "log_reach (new_manager 0) s1"
    by (rule log_next [OF log_start], rule daemon_moves)
      (simp add: daemon_step_def s1_def log_init_def new_manager_def)
  then have "log_reach (new_manager 0) s2" unfolding s2_def by (rule log_next) (rule caller_inserts)
  then have "log_reach (new_manager 0) s3" unfolding s3_def
    by (rule log_next) (rule stop_sets_flag, simp add: defs)
  then have "log_reach (new_manager 0) s4" unfolding s4_def
    by (rule log_next) (rule stop_inserts_marker, simp add: defs)
  moreover have "stopper s4 = Stop_returned \<and> daemon s4 = In_flush_one \<and> inserted s4 = [''a'', []] \<and>
      before_stop s4 = 1 \<and> queued s4 = [''a'', []]"
    by (simp add: defs pending_records_def insert_record_def ss_send_def ss_contents_def)
  ultimately show ?thesis by blast
qed

theorem log_nothing_lost_witness:
  "\<exists>s taken. log_reach (new_manager 0) s \<and> stopper s = Stop_returned \<and>
     inserted s = taken @ queued s \<and> written s = concat taken"
  using log_reach_example log_nothing_lost [OF fresh_new_manager(1)] by meson

theorem stopped_daemon_ends_witness:
  "\<exists>s. log_reach (new_manager 0) s \<and> daemon (daemon_run 4 s) = Finished \<and> written (daemon_run 4 s) = ''a''"
proof -
  obtain s where s: "log_reach (new_manager 0) s" "stopper s = Stop_returned" "daemon s = In_flush_one"
      "inserted s = [''a'', []]" "queued s = [''a'', []]"
    using log_reach_example by blast
  have "daemon s \<noteq> Finished" using s(3) by simp
  from stopped_daemon_ends [OF fresh_new_manager(1) s(1,2) this] s
  have "daemon (daemon_run 4 s) = Finished \<and> written (daemon_run 4 s) = ''a''"
    by (simp add: numeral_eq_Suc)
  with s(1) show ?thesis by blast
qed

end
