(* ===== verification/Connections.thy ===== *)
theory Connections
  imports Message_Protocol Log_Levels
begin

text \<open>
  A connection (src/network/connection.{hpp,cpp}): its handlers for the completions of
  asynchronous reads and writes, the write queue, the four concrete classes and the heartbeats
  they send and receive (with src/network/heartbeat.cpp).

  The handlers are actions on the state of the connection; a virtual call is a case
  distinction on the class. The asynchronous operations of boost::asio are outside the
  repository: starting one is recorded (\<open>reading\<close>, \<open>writing\<close>, \<open>effects\<close>), and its completion
  is a call of the handler with the error code and the number of bytes. The upper layer is a
  parameter: its callbacks run inside the handlers and may act on the connection.
\<close>

section \<open>State\<close>

datatype connection_class =
  Server_connection | Client_connection | Server_with_heartbeat | Client_with_heartbeat

datatype connection_event = Timeout | Close | Pipe | Start

datatype error_code = Operation_aborted | Eof | Other_error string

fun error_message :: "error_code \<Rightarrow> string" where
  "error_message Operation_aborted = ''Operation canceled''"
| "error_message Eof = ''End of file''"
| "error_message (Other_error m) = m"

datatype effect =
    Upper_receive "byte list"
  | Upper_event connection_event
  | Cancel_socket
  | Close_socket
  | Timer_wait nat
  | Timer_cancel
  | Log level string

text \<open>
  The outstanding read: of a header, or of a body, with the length the handler is bound to and
  the number of bytes that are read, which is bounded by the size of the buffer.
\<close>

datatype outstanding_read = No_read | Header_read | Payload_read nat nat

record connection =
  cclass :: connection_class
  is_open :: bool
  receive_buffer :: "byte list"
  receive_capacity :: nat
  header_buffer :: "byte list"
  write_queue :: "byte list list list"
  socket_str :: string
  reading :: outstanding_read
  writing :: "(byte list \<times> nat) option"
  effects :: "effect list"

record upper_layer =
  on_receive :: "byte list \<Rightarrow> (connection, unit) action"
  on_event :: "connection_event \<Rightarrow> (connection, unit) action"

definition connection_buffer_size :: nat where
  "connection_buffer_size = 8192"

definition emit :: "effect \<Rightarrow> (connection, unit) action" where
  "emit e c = (Inr (), c\<lparr>effects := effects c @ [e]\<rparr>)"

definition modify :: "(connection \<Rightarrow> connection) \<Rightarrow> (connection, unit) action" where
  "modify f c = (Inr (), f c)"

definition andthen :: "(connection, unit) action \<Rightarrow> (connection, unit) action \<Rightarrow> (connection, unit) action" where
  "andthen m f = sbind m (\<lambda>_. f)"

definition skip :: "(connection, unit) action" where
  "skip = sreturn ()"

text \<open>Logging evaluates \<open>format\<close>, which throws for a wrong number of arguments.\<close>

definition log_format :: "level \<Rightarrow> string \<Rightarrow> string list \<Rightarrow> (connection, unit) action" where
  "log_format l fmt args = sbind (slift (format fmt args)) (\<lambda>m. emit (Log l m))"

definition new_connection_state :: "connection_class \<Rightarrow> string \<Rightarrow> connection" where
  "new_connection_state k addr =
     \<lparr>cclass = k, is_open = True, receive_buffer = replicate connection_buffer_size 0,
      receive_capacity = connection_buffer_size, header_buffer = replicate header_size 0,
      write_queue = [], socket_str = addr, reading = No_read, writing = None, effects = []\<rparr>"

section \<open>Timers\<close>

text \<open>
  The policy in milliseconds, as the translation unit of heartbeat.cpp defines it: the macro
  there has the value 2.
\<close>

definition heartbeat_interval :: nat where
  "heartbeat_interval = 2"

definition heartbeat_timeout :: nat where
  "heartbeat_timeout = 2 * 2"

definition server_initial_timeout :: nat where
  "server_initial_timeout = heartbeat_interval + heartbeat_timeout"

definition checker_start :: "(connection, unit) action" where
  "checker_start = emit (Timer_wait server_initial_timeout)"

definition heartbeat_received :: "(connection, unit) action" where
  "heartbeat_received = emit (Timer_wait heartbeat_timeout)"

definition sender_start :: "(connection, unit) action" where
  "sender_start = emit (Timer_wait heartbeat_interval)"

definition heartbeat_stop :: "(connection, unit) action" where
  "heartbeat_stop = emit Timer_cancel"

text \<open>The constructors: those with heartbeats start their timer.\<close>

definition construct_server_with_heartbeat :: "string \<Rightarrow> connection" where
  "construct_server_with_heartbeat addr = snd (checker_start (new_connection_state Server_with_heartbeat addr))"

definition construct_client_with_heartbeat :: "string \<Rightarrow> connection" where
  "construct_client_with_heartbeat addr = snd (sender_start (new_connection_state Client_with_heartbeat addr))"

definition construct :: "connection_class \<Rightarrow> string \<Rightarrow> connection" where
  "construct k addr =
     (case k of
        Server_with_heartbeat \<Rightarrow> construct_server_with_heartbeat addr
      | Client_with_heartbeat \<Rightarrow> construct_client_with_heartbeat addr
      | _ \<Rightarrow> new_connection_state k addr)"

lemmas constructs = construct_def construct_server_with_heartbeat_def construct_client_with_heartbeat_def

section \<open>Closing\<close>

definition base_connection_close :: "(connection, unit) action" where
  "base_connection_close c =
     (if is_open c then
        (Inr (), c\<lparr>is_open := False, effects := effects c @ [Cancel_socket, Close_socket]\<rparr>)
      else (Inr (), c))"

definition server_connection_close :: "(connection, unit) action" where
  "server_connection_close = andthen heartbeat_stop base_connection_close"

definition client_connection_close :: "(connection, unit) action" where
  "client_connection_close = andthen heartbeat_stop base_connection_close"

definition connection_close :: "(connection, unit) action" where
  "connection_close c =
     (case cclass c of
        Server_with_heartbeat \<Rightarrow> server_connection_close c
      | Client_with_heartbeat \<Rightarrow> client_connection_close c
      | _ \<Rightarrow> base_connection_close c)"

definition upper_event :: "upper_layer \<Rightarrow> connection_event \<Rightarrow> (connection, unit) action" where
  "upper_event up e = andthen (emit (Upper_event e)) (on_event up e)"

definition server_handle_eof :: "upper_layer \<Rightarrow> (connection, unit) action" where
  "server_handle_eof up c =
     andthen (log_format Debug ''Client: {} closes connection.'' [socket_str c])
       (andthen connection_close (upper_event up Close)) c"

definition client_handle_eof :: "upper_layer \<Rightarrow> (connection, unit) action" where
  "client_handle_eof up c =
     andthen (log_format Err ''Server: {} closes connection.'' [socket_str c])
       (andthen connection_close (upper_event up Close)) c"

definition handle_eof :: "upper_layer \<Rightarrow> (connection, unit) action" where
  "handle_eof up c =
     (if cclass c = Server_connection \<or> cclass c = Server_with_heartbeat then server_handle_eof up c
      else client_handle_eof up c)"

lemmas handle_eofs = handle_eof_def server_handle_eof_def client_handle_eof_def

section \<open>Receiving\<close>

definition do_receive_message :: "(connection, unit) action" where
  "do_receive_message c =
     (if \<not> is_open c then (Inr (), c) else (Inr (), c\<lparr>reading := Header_read\<rparr>))"

text \<open>
  \<open>resize(capacity())\<close>: the buffer grows at most to its capacity; \<open>asio::buffer(b, n)\<close> is
  never larger than \<open>b\<close>.
\<close>

definition resize_buffer :: "nat \<Rightarrow> byte list \<Rightarrow> byte list" where
  "resize_buffer n b = take n b @ replicate (n - length b) 0"

definition do_receive_payload :: "nat \<Rightarrow> (connection, unit) action" where
  "do_receive_payload len c =
     (let c = (if len > receive_capacity c
               then c\<lparr>receive_buffer := resize_buffer (receive_capacity c) (receive_buffer c)\<rparr> else c)
      in (Inr (), c\<lparr>reading := Payload_read len (min len (length (receive_buffer c)))\<rparr>))"

definition when_receive_heartbeat :: "(connection, unit) action" where
  "when_receive_heartbeat c =
     andthen (log_format Debug ''Receive heartbeat from {}'' [socket_str c]) heartbeat_received c"

text \<open>\<open>header_parser\<close> of the classes; the client connections share one.\<close>

definition server_header_parser :: "(connection, unit) action" where
  "server_header_parser c =
     (case string_to_header (header_buffer c) of
        Inl e \<Rightarrow> (Inl e, c)
      | Inr h \<Rightarrow>
          if msg_type h = header_message_code Normal then do_receive_payload (unat (body_length h)) c
          else (Inl (Logic_error ''Should not be here!''), c))"

definition server_heartbeat_header_parser :: "(connection, unit) action" where
  "server_heartbeat_header_parser c =
     (case string_to_header (header_buffer c) of
        Inl e \<Rightarrow> (Inl e, c)
      | Inr h \<Rightarrow>
          if msg_type h = header_message_code Heartbeat then
            andthen when_receive_heartbeat do_receive_message c
          else if msg_type h = header_message_code Normal then do_receive_payload (unat (body_length h)) c
          else (Inl (Logic_error ''Should not be here!''), c))"

definition client_header_parser :: "(connection, unit) action" where
  "client_header_parser c =
     (case string_to_header (header_buffer c) of
        Inl e \<Rightarrow> (Inl e, c)
      | Inr h \<Rightarrow>
          if msg_type h = header_message_code Normal then do_receive_payload (unat (body_length h)) c
          else (Inr (), c))"

definition header_parser :: "(connection, unit) action" where
  "header_parser c =
     (case cclass c of
        Server_connection \<Rightarrow> server_header_parser c
      | Server_with_heartbeat \<Rightarrow> server_heartbeat_header_parser c
      | Client_connection \<Rightarrow> client_header_parser c
      | Client_with_heartbeat \<Rightarrow> client_header_parser c)"

lemmas header_parsers = header_parser_def server_header_parser_def server_heartbeat_header_parser_def
  client_header_parser_def

definition when_header_received :: "upper_layer \<Rightarrow> error_code option \<Rightarrow> (connection, unit) action" where
  "when_header_received up ec c =
     (case ec of
        Some Operation_aborted \<Rightarrow> log_format Debug ''Socket {}: Read canceled.'' [socket_str c] c
      | Some Eof \<Rightarrow> handle_eof up c
      | Some e \<Rightarrow>
          andthen (log_format Err ''Socket {}: Read error: {}'' [socket_str c, error_message e])
            connection_close c
      | None \<Rightarrow> if is_open c then header_parser c else (Inr (), c))"

definition when_payload_received ::
  "upper_layer \<Rightarrow> nat \<Rightarrow> error_code option \<Rightarrow> nat \<Rightarrow> (connection, unit) action" where
  "when_payload_received up len ec bytes_read c =
     (let rest = (\<lambda>c.
        if bytes_read < len then
          andthen (log_format Err
              ''Message body need: {} but only received: {}. Maybe the peer: {} closes the connection''
              [show_nat len, show_nat bytes_read, socket_str c])
            connection_close c
        else
          andthen
            (\<lambda>c. if is_open c then
               andthen (emit (Upper_receive (take len (receive_buffer c))))
                 (on_receive up (take len (receive_buffer c))) c
             else (Inr (), c))
            do_receive_message c)
      in case ec of
           None \<Rightarrow> rest c
         | Some Operation_aborted \<Rightarrow>
             andthen (log_format Warn
               ''Socket {}: Read canceled. But should not be cancelled here'' [socket_str c]) rest c
         | Some e \<Rightarrow>
             andthen (log_format Err ''Socket {}: Read error: {}'' [socket_str c, error_message e])
               connection_close c)"

section \<open>Sending\<close>

text \<open>
  \<open>do_write\<close> writes the last element of the queue; when the write is complete, the first one
  is removed.
\<close>

definition do_write :: "(connection, unit) action" where
  "do_write c =
     (let bufs = last (write_queue c); total_size = sum_list (map length bufs)
      in (Inr (), c\<lparr>writing := Some (concat bufs, total_size)\<rparr>))"

definition push_and_write :: "byte list list \<Rightarrow> (connection, unit) action" where
  "push_and_write bufs c =
     (let c = c\<lparr>write_queue := write_queue c @ [bufs]\<rparr>
      in if length (write_queue c) = 1 then do_write c else (Inr (), c))"

definition when_message_sent ::
  "upper_layer \<Rightarrow> nat \<Rightarrow> error_code option \<Rightarrow> nat \<Rightarrow> (connection, unit) action" where
  "when_message_sent up len ec bytes_write c =
     (let pop_and_next = (\<lambda>c.
            let c = c\<lparr>write_queue := tl (write_queue c)\<rparr>
            in if length (write_queue c) > 0 then do_write c else (Inr (), c));
          rest = (\<lambda>c.
            if bytes_write \<le> len \<and> bytes_write = 0 then
              andthen (log_format Err ''Message need to write: {} but only wrote: {}. ''
                  [show_nat len, show_nat bytes_write, socket_str c])
                connection_close c
            else pop_and_next c)
      in case ec of
           None \<Rightarrow> rest c
         | Some Operation_aborted \<Rightarrow>
             andthen (log_format Warn
               ''Socket {}: Write canceled. But should not be cancelled here.'' [socket_str c]) rest c
         | Some e \<Rightarrow>
             andthen (log_format Err ''Socket {}: Write error: {}'' [socket_str c, error_message e])
               (andthen connection_close (upper_event up Pipe)) c)"

definition do_send_header :: "byte list \<Rightarrow> (connection, unit) action" where
  "do_send_header header_buf = push_and_write [header_buf]"

text \<open>\<open>pad\<close> are the padding bytes of the header that is on the stack.\<close>

definition do_send_message :: "byte list \<Rightarrow> byte list \<Rightarrow> (connection, unit) action" where
  "do_send_message pad msg =
     sbind (slift (header_to_string pad
         \<lparr>msg_type = header_message_code Normal, body_length = of_nat (length msg)\<rparr>
         (zero_copy_buffer_fill header_size 0)))
       (\<lambda>header_buf. push_and_write [header_buf, msg])"

definition send_heartbeat :: "byte list \<Rightarrow> error_code option \<Rightarrow> (connection, unit) action" where
  "send_heartbeat pad ec c =
     (case ec of
        Some Operation_aborted \<Rightarrow>
          andthen (log_format Debug ''Timer of socket id {}: {}''
              [socket_str c, error_message Operation_aborted]) connection_close c
      | Some e \<Rightarrow>
          andthen (log_format Err ''Error when {} timer expires: {}'' [socket_str c, error_message e])
            connection_close c
      | None \<Rightarrow>
          andthen (log_format Debug ''Send heartbeat to {}.'' [socket_str c])
            (sbind (slift (header_to_string pad
                \<lparr>msg_type = header_message_code Heartbeat, body_length = 0\<rparr>
                (zero_copy_buffer_fill header_size 0)))
              do_send_header) c)"

definition send_and_reset :: "byte list \<Rightarrow> error_code option \<Rightarrow> (connection, unit) action" where
  "send_and_reset pad ec =
     andthen (send_heartbeat pad ec)
       (if ec = None then emit (Timer_wait heartbeat_interval) else skip)"

definition when_timeout :: "upper_layer \<Rightarrow> error_code option \<Rightarrow> (connection, unit) action" where
  "when_timeout up ec c =
     (case ec of
        Some Operation_aborted \<Rightarrow> (Inr (), c)
      | Some e \<Rightarrow> log_format Err ''Error when {} timer expires: {}'' [socket_str c, error_message e] c
      | None \<Rightarrow>
          andthen (log_format Warn ''Peer socket: {} timeout'' [socket_str c])
            (andthen connection_close (upper_event up Timeout)) c)"


section \<open>The handlers on every branch\<close>

text \<open>The formatted log messages.\<close>

named_theorems log_texts

lemma format_eof_server [log_texts]:
  "format ''Client: {} closes connection.'' [s] = Inr (''Client: '' @ s @ '' closes connection.'')"
  by (simp add: format_def)

lemma format_eof_client [log_texts]:
  "format ''Server: {} closes connection.'' [s] = Inr (''Server: '' @ s @ '' closes connection.'')"
  by (simp add: format_def)

lemma format_heartbeat [log_texts]:
  "format ''Receive heartbeat from {}'' [s] = Inr (''Receive heartbeat from '' @ s)"
  by (simp add: format_def)

lemma format_read_canceled [log_texts]:
  "format ''Socket {}: Read canceled.'' [s] = Inr (''Socket '' @ s @ '': Read canceled.'')"
  by (simp add: format_def)

lemma format_read_error [log_texts]:
  "format ''Socket {}: Read error: {}'' [s, m] = Inr (''Socket '' @ s @ '': Read error: '' @ m)"
  by (simp add: format_def)

lemma format_body_short [log_texts]:
  "format ''Message body need: {} but only received: {}. Maybe the peer: {} closes the connection'' [n, k, s] =
   Inr (''Message body need: '' @ n @ '' but only received: '' @ k @ ''. Maybe the peer: '' @ s @
     '' closes the connection'')"
  by (simp add: format_def)

lemma format_body_canceled [log_texts]:
  "format ''Socket {}: Read canceled. But should not be cancelled here'' [s] =
   Inr (''Socket '' @ s @ '': Read canceled. But should not be cancelled here'')"
  by (simp add: format_def)

lemma format_write_canceled [log_texts]:
  "format ''Socket {}: Write canceled. But should not be cancelled here.'' [s] =
   Inr (''Socket '' @ s @ '': Write canceled. But should not be cancelled here.'')"
  by (simp add: format_def)

lemma format_write_error [log_texts]:
  "format ''Socket {}: Write error: {}'' [s, m] = Inr (''Socket '' @ s @ '': Write error: '' @ m)"
  by (simp add: format_def)

lemma format_short_write [log_texts]:
  "format ''Message need to write: {} but only wrote: {}. '' [n, k, s] = Inl (raise_too_many_args s)"
  by (simp add: format_def)

lemma format_timeout [log_texts]:
  "format ''Peer socket: {} timeout'' [s] = Inr (''Peer socket: '' @ s @ '' timeout'')"
  by (simp add: format_def)

lemma format_send_heartbeat [log_texts]:
  "format ''Send heartbeat to {}.'' [s] = Inr (''Send heartbeat to '' @ s @ ''.'')"
  by (simp add: format_def)

lemma format_timer_canceled [log_texts]:
  "format ''Timer of socket id {}: {}'' [s, m] = Inr (''Timer of socket id '' @ s @ '': '' @ m)"
  by (simp add: format_def)

lemma format_timer_error [log_texts]:
  "format ''Error when {} timer expires: {}'' [s, m] = Inr (''Error when '' @ s @ '' timer expires: '' @ m)"
  by (simp add: format_def)

lemma andthen_Inr [simp]: "m c = (Inr (), c') \<Longrightarrow> andthen m f c = f c'"
  by (simp add: andthen_def)

lemma andthen_Inl [simp]: "m c = (Inl e, c') \<Longrightarrow> andthen m f c = (Inl e, c')"
  by (simp add: andthen_def)

lemma skip_apply [simp]: "skip c = (Inr (), c)"
  by (simp add: skip_def)

lemma log_format_Inr [simp]: "format fmt args = Inr m \<Longrightarrow>
    log_format l fmt args c = (Inr (), c\<lparr>effects := effects c @ [Log l m]\<rparr>)"
  by (simp add: log_format_def sbind_def emit_def)

lemma log_format_Inl [simp]: "format fmt args = Inl e \<Longrightarrow> log_format l fmt args c = (Inl e, c)"
  by (simp add: log_format_def sbind_def)

text \<open>Closing never throws; it closes the socket and starts nothing.\<close>

definition close_effects :: "connection \<Rightarrow> effect list" where
  "close_effects c =
     (if cclass c = Server_with_heartbeat \<or> cclass c = Client_with_heartbeat then [Timer_cancel] else []) @
     (if is_open c then [Cancel_socket, Close_socket] else [])"

lemma connection_close_eq [simp]:
  "connection_close c = (Inr (), c\<lparr>is_open := False, effects := effects c @ close_effects c\<rparr>)"
  by (cases "cclass c") (auto simp: connection_close_def server_connection_close_def
      client_connection_close_def base_connection_close_def heartbeat_stop_def emit_def
      andthen_def sbind_def close_effects_def)
section \<open>Bytes arriving from the network\<close>

text \<open>
  \<open>async_read\<close> completes when its buffer is full. \<open>complete_read up inp c\<close> is the completion of
  the outstanding read with the first bytes of the input \<open>inp\<close>: it fills the buffer, calls the
  handler and leaves the other bytes; \<open>None\<close> if there is no read or not enough input. \<open>feed\<close>
  completes at most \<open>n\<close> reads; it stops early when a handler throws.
\<close>

definition complete_read ::
  "upper_layer \<Rightarrow> byte list \<Rightarrow> connection \<Rightarrow> ((unit res \<times> connection) \<times> byte list) option" where
  "complete_read up inp c =
     (case reading c of
        No_read \<Rightarrow> None
      | Header_read \<Rightarrow>
          if length inp < header_size then None
          else Some (when_header_received up None
                 (c\<lparr>header_buffer := take header_size inp, reading := No_read\<rparr>), drop header_size inp)
      | Payload_read len n \<Rightarrow>
          if length inp < n then None
          else Some (when_payload_received up len None n
                 (c\<lparr>receive_buffer := write_at 0 (take n inp) (receive_buffer c), reading := No_read\<rparr>),
               drop n inp))"

fun feed :: "nat \<Rightarrow> upper_layer \<Rightarrow> byte list \<Rightarrow> connection \<Rightarrow> byte list res \<times> connection" where
  "feed 0 up inp c = (Inr inp, c)"
| "feed (Suc n) up inp c =
     (case complete_read up inp c of
        None \<Rightarrow> (Inr inp, c)
      | Some ((Inl e, c'), rest) \<Rightarrow> (Inl e, c')
      | Some ((Inr _, c'), rest) \<Rightarrow> feed n up rest c')"

text \<open>What the upper layer was given, and how often the timer was set to the timeout.\<close>

definition received :: "connection \<Rightarrow> byte list list" where
  "received c = concat (map (\<lambda>e. case e of Upper_receive m \<Rightarrow> [m] | _ \<Rightarrow> []) (effects c))"

definition events :: "connection \<Rightarrow> connection_event list" where
  "events c = concat (map (\<lambda>e. case e of Upper_event e \<Rightarrow> [e] | _ \<Rightarrow> []) (effects c))"

definition rearmed :: "connection \<Rightarrow> nat" where
  "rearmed c = length (filter (\<lambda>e. e = Timer_wait heartbeat_timeout) (effects c))"

definition silent :: "effect \<Rightarrow> bool" where
  "silent e = (case e of Log _ _ \<Rightarrow> True | Cancel_socket \<Rightarrow> True | Close_socket \<Rightarrow> True
     | Timer_cancel \<Rightarrow> True | _ \<Rightarrow> False)"

text \<open>The two kinds of frames on the wire.\<close>

datatype packet = Keepalive | Message "byte list"

definition header_bytes :: "byte list \<Rightarrow> header \<Rightarrow> byte list" where
  "header_bytes pad h = msg_type h # pad @ le_bytes 4 (unat (body_length h))"

fun packet_bytes :: "byte list \<Rightarrow> packet \<Rightarrow> byte list" where
  "packet_bytes pad Keepalive =
     header_bytes pad \<lparr>msg_type = header_message_code Heartbeat, body_length = 0\<rparr>"
| "packet_bytes pad (Message m) =
     header_bytes pad \<lparr>msg_type = header_message_code Normal, body_length = of_nat (length m)\<rparr> @ m"

fun packet_message :: "packet \<Rightarrow> byte list list" where
  "packet_message Keepalive = []"
| "packet_message (Message m) = [m]"

definition is_keepalive :: "packet \<Rightarrow> bool" where
  "is_keepalive p = (p = Keepalive)"

text \<open>The frames a connection of class \<open>k\<close> can take.\<close>

definition packet_ok :: "connection_class \<Rightarrow> packet \<Rightarrow> bool" where
  "packet_ok k p = (case p of
       Keepalive \<Rightarrow> k = Server_with_heartbeat
     | Message m \<Rightarrow> length m \<le> connection_buffer_size)"

definition ready :: "connection \<Rightarrow> bool" where
  "ready c \<longleftrightarrow> is_open c \<and> reading c = Header_read \<and>
     length (receive_buffer c) = connection_buffer_size \<and> receive_capacity c = connection_buffer_size"

text \<open>
  An upper layer that does not close the connection from within its callbacks. It may send
  messages, so it may change everything that belongs to the sending side.
\<close>

definition harmless :: "(connection, unit) action \<Rightarrow> bool" where
  "harmless m \<longleftrightarrow> (\<forall>c. \<exists>c' es. m c = (Inr (), c') \<and> cclass c' = cclass c \<and> is_open c' = is_open c \<and>
     receive_buffer c' = receive_buffer c \<and> receive_capacity c' = receive_capacity c \<and>
     reading c' = reading c \<and> effects c' = effects c @ es \<and> list_all silent es)"

lemma harmless_skip: "harmless skip"
  by (auto simp: harmless_def)

lemma silent_effects:
  "effects c' = effects c @ es \<Longrightarrow> list_all silent es \<Longrightarrow> received c' = received c"
  "effects c' = effects c @ es \<Longrightarrow> list_all silent es \<Longrightarrow> events c' = events c"
  "effects c' = effects c @ es \<Longrightarrow> list_all silent es \<Longrightarrow> rearmed c' = rearmed c"
  by (auto simp: received_def events_def rearmed_def list_all_iff silent_def filter_empty_conv
      split: effect.splits)

lemma harmlessE:
  assumes "harmless m"
  obtains c' where "m c = (Inr (), c')" "cclass c' = cclass c" "is_open c' = is_open c"
    "receive_buffer c' = receive_buffer c" "receive_capacity c' = receive_capacity c"
    "reading c' = reading c" "received c' = received c" "events c' = events c" "rearmed c' = rearmed c"
proof -
  from assms obtain c' es where "m c = (Inr (), c')" "cclass c' = cclass c" "is_open c' = is_open c"
    "receive_buffer c' = receive_buffer c" "receive_capacity c' = receive_capacity c"
    "reading c' = reading c" "effects c' = effects c @ es" "list_all silent es"
    unfolding harmless_def by meson
  then show ?thesis using silent_effects [of c' c es] that by simp
qed

lemma header_bytes_length [simp]: "length pad = 3 \<Longrightarrow> length (header_bytes pad h) = 8"
  by (simp add: header_bytes_def)

lemma header_bytes_read [simp]:
  assumes "length pad = 3"
  shows "string_to_header (header_bytes pad h) = Inr h"
  using string_to_header_append [OF assms, of h "[]"] by (simp add: header_bytes_def)

lemma header_bytes_written [simp]:
  assumes "length pad = 3"
  shows "header_to_string pad h (zero_copy_buffer_fill header_size 0) = Inr (header_bytes pad h)"
  using assms by (simp add: header_to_string_def zero_copy_buffer_fill_def header_size_def
      write_at_def header_bytes_def)

fun reads_of :: "packet \<Rightarrow> nat" where
  "reads_of Keepalive = 1"
| "reads_of (Message m) = 2"

lemma update_simps [simp]:
  "received (c\<lparr>effects := es\<rparr>) = concat (map (\<lambda>e. case e of Upper_receive m \<Rightarrow> [m] | _ \<Rightarrow> []) es)"
  "events (c\<lparr>effects := es\<rparr>) = concat (map (\<lambda>e. case e of Upper_event e \<Rightarrow> [e] | _ \<Rightarrow> []) es)"
  "rearmed (c\<lparr>effects := es\<rparr>) = length (filter (\<lambda>e. e = Timer_wait heartbeat_timeout) es)"
  by (simp_all add: received_def events_def rearmed_def)

lemma feed_keepalive_effects:
  assumes "ready c" "cclass c = Server_with_heartbeat" "length pad = 3"
  shows "\<exists>c'. feed (Suc n) up (packet_bytes pad Keepalive @ rest) c = feed n up rest c' \<and> ready c' \<and>
    cclass c' = cclass c \<and> effects c' = effects c @
      [Log Debug (''Receive heartbeat from '' @ socket_str c), Timer_wait heartbeat_timeout]"
proof -
  let ?c = "c\<lparr>header_buffer := packet_bytes pad Keepalive,
    effects := effects c @ [Log Debug (''Receive heartbeat from '' @ socket_str c), Timer_wait heartbeat_timeout],
    reading := Header_read\<rparr>"
  have "feed (Suc n) up (packet_bytes pad Keepalive @ rest) c = feed n up rest ?c"
    using assms
    by (simp add: complete_read_def ready_def header_size_def when_header_received_def header_parsers
        when_receive_heartbeat_def do_receive_message_def heartbeat_received_def emit_def log_texts)
  then show ?thesis using assms by (intro exI [of _ ?c]) (simp add: ready_def)
qed

lemma feed_keepalive:
  assumes "ready c" "cclass c = Server_with_heartbeat" "length pad = 3"
  shows "\<exists>c'. feed (Suc n) up (packet_bytes pad Keepalive @ rest) c = feed n up rest c' \<and> ready c' \<and>
    cclass c' = cclass c \<and> received c' = received c \<and> events c' = events c \<and> rearmed c' = Suc (rearmed c)"
proof -
  from feed_keepalive_effects [OF assms, of n up rest] obtain c' where
    c': "feed (Suc n) up (packet_bytes pad Keepalive @ rest) c = feed n up rest c'" "ready c'" "cclass c' = cclass c"
      "effects c' = effects c @ [Log Debug (''Receive heartbeat from '' @ socket_str c), Timer_wait heartbeat_timeout]"
    by blast
  then have "received c' = received c" "events c' = events c" "rearmed c' = Suc (rearmed c)"
    by (simp_all add: received_def events_def rearmed_def)
  with c' show ?thesis by blast
qed

text \<open>A header of a message starts the read of its body, which is not longer than the buffer.\<close>

lemma feed_header:
  assumes "reading c = Header_read" "is_open c" "length pad = 3" "length m < 2 ^ 32"
    "length (receive_buffer c) = connection_buffer_size" "receive_capacity c = connection_buffer_size"
  shows "feed (Suc n) up (packet_bytes pad (Message m) @ rest) c =
    feed n up (m @ rest) (c\<lparr>header_buffer := header_bytes pad
          \<lparr>msg_type = header_message_code Normal, body_length = of_nat (length m)\<rparr>,
        reading := Payload_read (length m) (min (length m) connection_buffer_size)\<rparr>)"
proof -
  have "unat (of_nat (length m) :: 32 word) = length m"
    using assms(4) by (simp add: unat_of_nat take_bit_nat_eq_self)
  with assms show ?thesis
    by (cases "cclass c") (simp_all add: complete_read_def header_size_def when_header_received_def
        header_parsers do_receive_payload_def resize_buffer_def)
qed

lemma feed_message_effects:
  assumes "ready c" "harmless (on_receive up m)" "length pad = 3" "length m \<le> connection_buffer_size"
  shows "\<exists>c0 c'. feed (Suc (Suc n)) up (packet_bytes pad (Message m) @ rest) c = feed n up rest c' \<and>
    ready c' \<and> cclass c' = cclass c \<and> received c' = received c @ [m] \<and> events c' = events c \<and>
    rearmed c' = rearmed c \<and> effects c0 = effects c @ [Upper_receive m] \<and>
    effects c' = effects (snd (on_receive up m c0))"
proof -
  let ?c = "c\<lparr>header_buffer := header_bytes pad
      \<lparr>msg_type = header_message_code Normal, body_length = of_nat (length m)\<rparr>,
    receive_buffer := write_at 0 m (receive_buffer c), reading := No_read,
    effects := effects c @ [Upper_receive m]\<rparr>"
  have len: "length m < 2 ^ 32" using assms(4) by (simp add: connection_buffer_size_def)
  obtain c' where c': "on_receive up m ?c = (Inr (), c')" "cclass c' = cclass ?c"
      "is_open c' = is_open ?c" "receive_buffer c' = receive_buffer ?c"
      "receive_capacity c' = receive_capacity ?c" "received c' = received ?c"
      "events c' = events ?c" "rearmed c' = rearmed ?c"
    using assms(2) by (rule harmlessE [where c = ?c])
  have "feed (Suc (Suc n)) up (packet_bytes pad (Message m) @ rest) c =
      feed n up rest (c'\<lparr>reading := Header_read\<rparr>)"
    using feed_header [of c pad m "Suc n"] assms c' len
    by (simp add: ready_def complete_read_def when_payload_received_def emit_def
        do_receive_message_def take_write_at del: packet_bytes.simps)
  moreover have "ready (c'\<lparr>reading := Header_read\<rparr>)"
    using assms c' by (simp add: ready_def)
  moreover have "received (c'\<lparr>reading := Header_read\<rparr>) = received c @ [m]"
      "events (c'\<lparr>reading := Header_read\<rparr>) = events c" "rearmed (c'\<lparr>reading := Header_read\<rparr>) = rearmed c"
    using c'(6-8) by (simp_all add: received_def events_def rearmed_def)
  ultimately show ?thesis using c'(1,2)
    by - (rule exI [of _ ?c], rule exI [of _ "c'\<lparr>reading := Header_read\<rparr>"], simp)
qed

lemma feed_message:
  assumes "ready c" "harmless (on_receive up m)" "length pad = 3" "length m \<le> connection_buffer_size"
  shows "\<exists>c'. feed (Suc (Suc n)) up (packet_bytes pad (Message m) @ rest) c = feed n up rest c' \<and>
    ready c' \<and> cclass c' = cclass c \<and> received c' = received c @ [m] \<and> events c' = events c \<and>
    rearmed c' = rearmed c"
  using feed_message_effects [OF assms, of n rest] by blast

fun frame_bytes :: "byte list \<times> packet \<Rightarrow> byte list" where
  "frame_bytes (pad, p) = packet_bytes pad p"

fun frame_reads :: "byte list \<times> packet \<Rightarrow> nat" where
  "frame_reads (pad, p) = reads_of p"

fun frame_messages :: "byte list \<times> packet \<Rightarrow> byte list list" where
  "frame_messages (pad, p) = packet_message p"

fun frame_keepalive :: "byte list \<times> packet \<Rightarrow> bool" where
  "frame_keepalive (pad, p) = is_keepalive p"

definition frame_ok :: "connection_class \<Rightarrow> byte list \<times> packet \<Rightarrow> bool" where
  "frame_ok k f \<longleftrightarrow> length (fst f) = 3 \<and> packet_ok k (snd f)"

lemma feed_frames:
  assumes "\<And>m. harmless (on_receive up m)"
  shows "ready c \<Longrightarrow> list_all (frame_ok (cclass c)) fs \<Longrightarrow>
    \<exists>c'. feed (sum_list (map (frame_reads) fs) + n) up (concat (map frame_bytes fs) @ rest) c =
        feed n up rest c' \<and> ready c' \<and> cclass c' = cclass c \<and>
      received c' = received c @ concat (map (frame_messages) fs) \<and> events c' = events c \<and>
      rearmed c' = rearmed c + length (filter (frame_keepalive) fs)"
proof (induction fs arbitrary: c)
  case Nil
  then show ?case by auto
next
  case (Cons f fs)
  let ?n = "sum_list (map (frame_reads) fs) + n" and ?in = "concat (map frame_bytes fs) @ rest"
  obtain pad p where f: "f = (pad, p)" by (rule prod.exhaust)
  with Cons.prems have ok: "length pad = 3" "packet_ok (cclass c) p" by (simp_all add: frame_ok_def)
  have "\<exists>c1. feed (reads_of p + ?n) up (packet_bytes pad p @ ?in) c = feed ?n up ?in c1 \<and> ready c1 \<and>
      cclass c1 = cclass c \<and> received c1 = received c @ packet_message p \<and> events c1 = events c \<and>
      rearmed c1 = rearmed c + (if is_keepalive p then 1 else 0)"
  proof (cases p)
    case Keepalive
    then have "cclass c = Server_with_heartbeat" using ok by (simp add: packet_ok_def)
    from feed_keepalive [OF Cons.prems(1) this ok(1), of ?n up ?in] Keepalive
    show ?thesis by (simp add: is_keepalive_def del: packet_bytes.simps feed.simps)
  next
    case (Message m)
    then have "length m \<le> connection_buffer_size" using ok by (simp add: packet_ok_def)
    from feed_message [OF Cons.prems(1) assms ok(1) this, of ?n ?in] Message
    show ?thesis by (simp add: is_keepalive_def del: packet_bytes.simps feed.simps)
  qed
  then obtain c1 where c1: "feed (reads_of p + ?n) up (packet_bytes pad p @ ?in) c = feed ?n up ?in c1"
      "ready c1" "cclass c1 = cclass c" "received c1 = received c @ packet_message p"
      "events c1 = events c" "rearmed c1 = rearmed c + (if is_keepalive p then 1 else 0)"
    by blast
  have "list_all (frame_ok (cclass c1)) fs" using Cons.prems(2) c1(3) by simp
  from Cons.IH [OF c1(2) this] obtain c2 where c2: "feed ?n up ?in c1 = feed n up rest c2" "ready c2"
      "cclass c2 = cclass c1" "received c2 = received c1 @ concat (map (frame_messages) fs)"
      "events c2 = events c1" "rearmed c2 = rearmed c1 + length (filter (frame_keepalive) fs)"
    by blast
  have "sum_list (map (frame_reads) (f # fs)) + n = reads_of p + ?n"
      "concat (map frame_bytes (f # fs)) @ rest = packet_bytes pad p @ ?in"
    by (simp_all add: f)
  with c1 c2 f show ?case by (intro exI [of _ c2]) (simp add: add.assoc)
qed

section \<open>Properties of receiving\<close>

text \<open>
  C11. A connection that waits for a header takes any stream of frames it knows (messages of at
  most 8192 bytes, and heartbeats if it is a server connection with heartbeat), whatever the
  padding of the headers: the upper layer is given exactly the messages, complete and in order,
  every heartbeat sets the timer back to the timeout, and the connection waits for the next
  header, with the rest of the input untouched.
\<close>

theorem stream_delivered:
  assumes "ready c" "list_all (frame_ok (cclass c)) fs" "\<And>m. harmless (on_receive up m)"
  shows "\<exists>c'. feed (sum_list (map (frame_reads) fs)) up (concat (map frame_bytes fs) @ rest) c =
      (Inr rest, c') \<and> ready c' \<and>
    received c' = received c @ concat (map (frame_messages) fs) \<and> events c' = events c \<and>
    rearmed c' = rearmed c + length (filter (frame_keepalive) fs)"
  using feed_frames [OF assms(3,1,2), of 0 rest] by auto

definition quiet_layer :: upper_layer where
  "quiet_layer = \<lparr>on_receive = \<lambda>_. skip, on_event = \<lambda>_. skip\<rparr>"

definition started :: "connection_class \<Rightarrow> string \<Rightarrow> connection" where
  "started k addr = snd (do_receive_message (construct k addr))"

lemma ready_started [simp]: "ready (started k addr)" "cclass (started k addr) = k"
  by (cases k; simp add: ready_def started_def do_receive_message_def constructs
      new_connection_state_def checker_start_def sender_start_def emit_def Let_def)+

theorem stream_delivered_witness:
  "\<exists>c'. feed 5 quiet_layer
      (concat (map frame_bytes [([0, 0, 0], Message [1, 2]), ([7, 7, 7], Keepalive), ([0, 0, 0], Message [3])]) @ [9])
      (started Server_with_heartbeat ''h'') = (Inr [9], c') \<and>
    received c' = received (started Server_with_heartbeat ''h'') @ [[1, 2], [3]]"
  using stream_delivered [of "started Server_with_heartbeat ''h''"
      "[([0, 0, 0], Message [1, 2]), ([7, 7, 7], Keepalive), ([0, 0, 0], Message [3])]" quiet_layer "[9]"]
  by (force simp: frame_ok_def packet_ok_def connection_buffer_size_def quiet_layer_def harmless_skip
      numeral_eq_Suc simp del: packet_bytes.simps feed.simps)

lemma feed_oversized:
  assumes "ready c" "length pad = 3" "connection_buffer_size < length m" "length m < 2 ^ 32"
  shows "\<exists>c'. feed 2 up (packet_bytes pad (Message m) @ rest) c =
      (Inr (drop connection_buffer_size m @ rest), c') \<and>
    \<not> is_open c' \<and> reading c' = No_read \<and> received c' = received c \<and> events c' = events c"
proof -
  have "feed 2 up (packet_bytes pad (Message m) @ rest) c =
      feed 1 up (m @ rest) (c\<lparr>header_buffer := header_bytes pad
          \<lparr>msg_type = header_message_code Normal, body_length = of_nat (length m)\<rparr>,
        reading := Payload_read (length m) connection_buffer_size\<rparr>)"
    using feed_header [of c pad m 1] assms by (simp add: ready_def numeral_2_eq_2 del: packet_bytes.simps)
  with assms show ?thesis
    by (auto simp: complete_read_def ready_def when_payload_received_def log_texts close_effects_def
        received_def events_def simp del: packet_bytes.simps)
qed

text \<open>
  C30. A message that is longer than the receive buffer is never delivered: the buffer is resized
  to the capacity it already has, the body is read only as far as it fits, and the connection
  is closed as if the peer had gone away, without an event for the upper layer.
\<close>

theorem oversized_message_closes:
  assumes "ready c" "length pad = 3" "connection_buffer_size < length m" "length m < 2 ^ 32"
  shows "\<exists>c'. feed 2 up (packet_bytes pad (Message m) @ rest) c =
      (Inr (drop connection_buffer_size m @ rest), c') \<and>
    \<not> is_open c' \<and> reading c' = No_read \<and> received c' = received c \<and> events c' = events c"
  using feed_oversized [OF assms] .

theorem oversized_message_closes_witness:
  "\<exists>c'. feed 2 quiet_layer (packet_bytes [0, 0, 0] (Message (replicate 8193 1)) @ [])
      (started Client_connection ''h'') = (Inr [1], c') \<and> \<not> is_open c' \<and>
    received c' = received (started Client_connection ''h'')"
  using oversized_message_closes [of "started Client_connection ''h''" "[0, 0, 0]" "replicate 8193 1"
      quiet_layer "[]"]
  by (auto simp: connection_buffer_size_def simp del: packet_bytes.simps feed.simps)

text \<open>
  A header of another kind ends the reading in one way or another: a server connection
  throws out of the handler; a client connection neither closes nor starts another read, so it
  stays open and no later byte is ever read.
\<close>

theorem foreign_header:
  assumes "ready c" "length pad = 3" "msg_type h \<noteq> header_message_code Normal"
    and "cclass c = Server_with_heartbeat \<Longrightarrow> msg_type h \<noteq> header_message_code Heartbeat"
  shows "\<exists>c'. feed (Suc n) up (header_bytes pad h @ rest) c =
      (if cclass c = Server_connection \<or> cclass c = Server_with_heartbeat
       then Inl (Logic_error ''Should not be here!'') else Inr rest, c') \<and>
    is_open c' \<and> reading c' = No_read \<and> received c' = received c \<and> events c' = events c"
proof -
  let ?c = "c\<lparr>header_buffer := header_bytes pad h, reading := No_read\<rparr>"
  have stop: "feed n up rest ?c = (Inr rest, ?c)" by (cases n) (simp_all add: complete_read_def)
  have "feed (Suc n) up (header_bytes pad h @ rest) c =
      (if cclass c = Server_connection \<or> cclass c = Server_with_heartbeat
       then Inl (Logic_error ''Should not be here!'') else Inr rest, ?c)"
    using assms stop by (cases "cclass c") (simp_all add: complete_read_def ready_def header_size_def
        when_header_received_def header_parsers)
  with assms(1) show ?thesis by (intro exI [of _ ?c]) (simp add: ready_def received_def events_def)
qed

theorem foreign_header_witness:
  "\<exists>c'. feed 3 quiet_layer (header_bytes [0, 0, 0] \<lparr>msg_type = 0, body_length = 0\<rparr> @ [1])
      (started Client_with_heartbeat ''h'') = (Inr [1], c') \<and> is_open c' \<and> reading c' = No_read"
  using foreign_header [of "started Client_with_heartbeat ''h''" "[0, 0, 0]"
      "\<lparr>msg_type = 0, body_length = 0\<rparr>" 2 quiet_layer "[1]"]
  by (auto simp: eval_nat_numeral simp del: feed.simps)

section \<open>The ends of a connection\<close>

lemma upper_event_harmless:
  assumes "harmless (on_event up e)"
  obtains c' where "upper_event up e c = (Inr (), c')" "is_open c' = is_open c" "reading c' = reading c"
    "received c' = received c" "events c' = events c @ [e]"
proof -
  from assms obtain c' where c': "on_event up e (c\<lparr>effects := effects c @ [Upper_event e]\<rparr>) = (Inr (), c')"
      "is_open c' = is_open c" "reading c' = reading c"
      "received c' = received (c\<lparr>effects := effects c @ [Upper_event e]\<rparr>)"
      "events c' = events (c\<lparr>effects := effects c @ [Upper_event e]\<rparr>)"
    using harmlessE [of "on_event up e" "c\<lparr>effects := effects c @ [Upper_event e]\<rparr>" thesis] by force
  then have "received c' = received c" "events c' = events c @ [e]"
    by (simp_all only: update_simps) (simp_all add: received_def events_def)
  with c' show thesis by (intro that [of c']) (simp_all add: upper_event_def emit_def)
qed

text \<open>The state a handler leaves that logs something, closes and reports \<open>e\<close>.\<close>

lemma log_close_event:
  assumes "harmless (on_event up e)" "format fmt args = Inr m"
  shows "\<exists>c'. andthen (log_format l fmt args) (andthen connection_close (upper_event up e)) c =
      (Inr (), c') \<and> \<not> is_open c' \<and> reading c' = reading c \<and> received c' = received c \<and>
    events c' = events c @ [e]"
proof -
  let ?c = "c\<lparr>is_open := False, effects := effects c @ [Log l m] @ close_effects c\<rparr>"
  obtain c' where c': "upper_event up e ?c = (Inr (), c')" "is_open c' = is_open ?c"
      "reading c' = reading ?c" "received c' = received ?c" "events c' = events ?c @ [e]"
    using upper_event_harmless [OF assms(1), of ?c] by metis
  have "andthen (log_format l fmt args) (andthen connection_close (upper_event up e)) c = (Inr (), c')"
    using assms(2) c'(1) by (simp add: close_effects_def)
  moreover have "received ?c = received c" "events ?c = events c"
    by (auto simp: received_def events_def close_effects_def)
  ultimately show ?thesis using c' by auto
qed

lemma log_close:
  assumes "format fmt args = Inr m"
  shows "\<exists>c'. andthen (log_format l fmt args) connection_close c = (Inr (), c') \<and> \<not> is_open c' \<and>
    reading c' = reading c \<and> received c' = received c \<and> events c' = events c"
  using assms by (auto simp: received_def events_def close_effects_def)

text \<open>What the end of a connection leaves: a closed socket, and \<open>es\<close> reported to the upper layer.\<close>

definition ended :: "connection \<Rightarrow> connection_event list \<Rightarrow> unit res \<times> connection \<Rightarrow> bool" where
  "ended c es r \<longleftrightarrow> fst r = Inr () \<and> \<not> is_open (snd r) \<and> reading (snd r) = reading c \<and>
     received (snd r) = received c \<and> events (snd r) = events c @ es"

lemma ended_event:
  "harmless (on_event up e) \<Longrightarrow> format fmt args = Inr m \<Longrightarrow>
    ended c [e] (andthen (log_format l fmt args) (andthen connection_close (upper_event up e)) c)"
  using log_close_event [of up e fmt args m l c] by (auto simp: ended_def)

lemma ended_silent:
  "format fmt args = Inr m \<Longrightarrow> ended c [] (andthen (log_format l fmt args) connection_close c)"
  using log_close [of fmt args m l c] by (auto simp: ended_def)

text \<open>
  C34. The ends of a connection: the peer closing it between two messages, a timeout and a failed
  write are each reported to the upper layer exactly once, after the socket is closed, and start
  no read; a failed read, the peer closing it inside a message and a body that stays short close
  the socket with no event at all.
\<close>

theorem endings:
  assumes "\<And>e. harmless (on_event up e)"
  shows "ended c [Close] (when_header_received up (Some Eof) c) \<and>
    ended c [Timeout] (when_timeout up None c) \<and>
    (e \<noteq> Operation_aborted \<longrightarrow> ended c [Pipe] (when_message_sent up len (Some e) n c)) \<and>
    (e \<noteq> Operation_aborted \<and> e \<noteq> Eof \<longrightarrow> ended c [] (when_header_received up (Some e) c)) \<and>
    (e \<noteq> Operation_aborted \<longrightarrow> ended c [] (when_payload_received up len (Some e) n c)) \<and>
    (n < len \<longrightarrow> ended c [] (when_payload_received up len None n c))"
proof (intro conjI impI)
  show "ended c [Close] (when_header_received up (Some Eof) c)"
    by (simp add: when_header_received_def handle_eofs
        ended_event [OF assms format_eof_server] ended_event [OF assms format_eof_client])
  show "ended c [Timeout] (when_timeout up None c)"
    by (simp add: when_timeout_def ended_event [OF assms format_timeout])
  show "ended c [Pipe] (when_message_sent up len (Some e) n c)" if "e \<noteq> Operation_aborted"
    using that by (cases e) (simp_all add: when_message_sent_def Let_def ended_event [OF assms format_write_error])
  show "ended c [] (when_header_received up (Some e) c)" if "e \<noteq> Operation_aborted \<and> e \<noteq> Eof"
    using that by (cases e) (simp_all add: when_header_received_def ended_silent [OF format_read_error])
  show "ended c [] (when_payload_received up len (Some e) n c)" if "e \<noteq> Operation_aborted"
    using that by (cases e) (simp_all add: when_payload_received_def ended_silent [OF format_read_error])
  show "ended c [] (when_payload_received up len None n c)" if "n < len"
    using that by (simp add: when_payload_received_def ended_silent [OF format_body_short])
qed

theorem endings_witness:
  "ended (started Client_connection ''h'') [Pipe]
     (when_message_sent quiet_layer 10 (Some Eof) 0 (started Client_connection ''h''))"
  using endings [of quiet_layer "started Client_connection ''h''" Eof 10 0] by (simp add: quiet_layer_def harmless_skip)

text \<open>
  Once the socket is closed, no completion of a read, in whatever order, delivers anything to
  the upper layer, opens the socket or starts another read.
\<close>

theorem closed_delivers_nothing:
  assumes "\<not> is_open c" "reading c = No_read" "harmless (on_event up Close)"
  shows "(\<exists>c'. when_header_received up ec c = (Inr (), c') \<and> \<not> is_open c' \<and> reading c' = No_read \<and>
      received c' = received c) \<and>
    (\<exists>c'. when_payload_received up len ec n c = (Inr (), c') \<and> \<not> is_open c' \<and>
      reading c' = No_read \<and> received c' = received c)"
proof (intro conjI)
  have eof: "\<exists>c'. handle_eof up c = (Inr (), c') \<and> \<not> is_open c' \<and> reading c' = No_read \<and> received c' = received c"
    using log_close_event [OF assms(3) format_eof_server, of Debug "socket_str c" c]
      log_close_event [OF assms(3) format_eof_client, of Err "socket_str c" c] assms(2)
    by (auto simp: handle_eofs simp del: connection_close_eq)
  show "\<exists>c'. when_header_received up ec c = (Inr (), c') \<and> \<not> is_open c' \<and> reading c' = No_read \<and>
      received c' = received c"
    using assms eof by (auto simp: when_header_received_def log_texts received_def close_effects_def
        split: option.split error_code.split)
  show "\<exists>c'. when_payload_received up len ec n c = (Inr (), c') \<and> \<not> is_open c' \<and>
      reading c' = No_read \<and> received c' = received c"
    using assms by (auto simp: when_payload_received_def log_texts received_def close_effects_def
        do_receive_message_def split: option.split error_code.split)
qed

theorem closed_delivers_nothing_witness:
  "\<exists>c'. when_payload_received quiet_layer 1 None 1
      ((construct Server_connection ''h'')\<lparr>is_open := False\<rparr>) = (Inr (), c') \<and> \<not> is_open c'"
  using closed_delivers_nothing [of "(construct Server_connection ''h'')\<lparr>is_open := False\<rparr>" quiet_layer]
  by (force simp: constructs new_connection_state_def quiet_layer_def harmless_skip)

section \<open>Sending\<close>

text \<open>
  The completion of the outstanding write, with all its bytes on the wire, and at most \<open>n\<close>
  completions one after the other; the bytes are collected.
\<close>

definition complete_write :: "upper_layer \<Rightarrow> connection \<Rightarrow> ((unit res \<times> connection) \<times> byte list) option" where
  "complete_write up c =
     (case writing c of
        None \<Rightarrow> None
      | Some (bytes, len) \<Rightarrow>
          Some (when_message_sent up len None (length bytes) (c\<lparr>writing := None\<rparr>), bytes))"

fun drain :: "nat \<Rightarrow> upper_layer \<Rightarrow> connection \<Rightarrow> byte list \<times> unit res \<times> connection" where
  "drain 0 up c = ([], Inr (), c)"
| "drain (Suc n) up c =
     (case complete_write up c of
        None \<Rightarrow> ([], Inr (), c)
      | Some ((Inl e, c'), bytes) \<Rightarrow> (bytes, Inl e, c')
      | Some ((Inr _, c'), bytes) \<Rightarrow> (let (wire, r) = drain n up c' in (bytes @ wire, r)))"

text \<open>Sending a list of messages at once, and one at a time, each after the last is written.\<close>

fun send_all :: "byte list \<Rightarrow> byte list list \<Rightarrow> (connection, unit) action" where
  "send_all pad [] = skip"
| "send_all pad (m # ms) = andthen (do_send_message pad m) (send_all pad ms)"

fun send_paced ::
  "byte list \<Rightarrow> upper_layer \<Rightarrow> byte list list \<Rightarrow> connection \<Rightarrow> byte list \<times> unit res \<times> connection" where
  "send_paced pad up [] c = ([], Inr (), c)"
| "send_paced pad up (m # ms) c =
     (case do_send_message pad m c of
        (Inl e, c1) \<Rightarrow> ([], Inl e, c1)
      | (Inr _, c1) \<Rightarrow>
          (case drain 1 up c1 of
             (wire, Inl e, c2) \<Rightarrow> (wire, Inl e, c2)
           | (wire, Inr _, c2) \<Rightarrow> (let (wire', r) = send_paced pad up ms c2 in (wire @ wire', r))))"

definition idle :: "connection \<Rightarrow> bool" where
  "idle c \<longleftrightarrow> write_queue c = [] \<and> writing c = None"

definition message_buffers :: "byte list \<Rightarrow> byte list \<Rightarrow> byte list list" where
  "message_buffers pad m =
     [header_bytes pad \<lparr>msg_type = header_message_code Normal, body_length = of_nat (length m)\<rparr>, m]"

lemma message_buffers_bytes [simp]:
  "concat (message_buffers pad m) = packet_bytes pad (Message m)"
  by (simp add: message_buffers_def)

lemma do_send_message_eq:
  assumes "length pad = 3"
  shows "do_send_message pad m = push_and_write (message_buffers pad m)"
  by (rule ext) (simp add: do_send_message_def assms message_buffers_def)

lemma push_idle:
  "write_queue c = [] \<Longrightarrow> push_and_write bufs c =
    (Inr (), c\<lparr>write_queue := [bufs], writing := Some (concat bufs, length (concat bufs))\<rparr>)"
  by (simp add: push_and_write_def do_write_def length_concat)

lemma push_busy:
  "write_queue c \<noteq> [] \<Longrightarrow> push_and_write bufs c = (Inr (), c\<lparr>write_queue := write_queue c @ [bufs]\<rparr>)"
  by (simp add: push_and_write_def)

lemma message_sent_complete:
  assumes "0 < n"
  shows "when_message_sent up n None n c =
    (let c = c\<lparr>write_queue := tl (write_queue c)\<rparr>
     in if write_queue c = [] then (Inr (), c) else do_write c)"
  using assms by (simp add: when_message_sent_def Let_def)

lemma packet_bytes_not_Nil [simp]: "packet_bytes pad p \<noteq> []"
  by (cases p) (simp_all add: header_bytes_def)

lemma send_all_busy:
  "length pad = 3 \<Longrightarrow> write_queue c \<noteq> [] \<Longrightarrow> send_all pad ms c =
    (Inr (), c\<lparr>write_queue := write_queue c @ map (message_buffers pad) ms\<rparr>)"
  by (induction ms arbitrary: c) (simp_all add: do_send_message_eq push_busy)

text \<open>
  Draining the queue: after the first write, every write takes the last element, so its bytes are
  written once for every further element of the queue.
\<close>

lemma drain_queue:
  "writing c = Some (bytes, length bytes) \<Longrightarrow> bytes \<noteq> [] \<Longrightarrow> write_queue c = b # q \<Longrightarrow>
    concat (last (b # q)) \<noteq> [] \<Longrightarrow>
    drain (Suc (length q)) up c =
      (bytes @ concat (replicate (length q) (concat (last (b # q)))), Inr (),
       c\<lparr>write_queue := [], writing := None\<rparr>)"
proof (induction q arbitrary: c bytes b)
  case Nil
  then show ?case by (simp add: complete_write_def message_sent_complete Let_def)
next
  case (Cons b' q)
  let ?l = "concat (last (b' # q))"
  let ?c = "c\<lparr>write_queue := b' # q, writing := Some (?l, length ?l)\<rparr>"
  have step: "complete_write up c = Some ((Inr (), ?c), bytes)"
    using Cons.prems by (simp add: complete_write_def message_sent_complete Let_def do_write_def length_concat)
  have "drain (Suc (length q)) up ?c =
      (?l @ concat (replicate (length q) ?l), Inr (), ?c\<lparr>write_queue := [], writing := None\<rparr>)"
    using Cons.prems by (intro Cons.IH) simp_all
  with step show ?case by simp
qed

lemma idle_started [simp]: "idle (started k addr)"
  by (cases k) (simp_all add: idle_def started_def do_receive_message_def constructs
      new_connection_state_def checker_start_def sender_start_def emit_def)

lemma send_all_idle:
  assumes "idle c" "length pad = 3"
  shows "send_all pad (m # ms) c =
    (Inr (), c\<lparr>write_queue := map (message_buffers pad) (m # ms),
       writing := Some (packet_bytes pad (Message m), length (packet_bytes pad (Message m)))\<rparr>)"
  using assms by (simp add: idle_def do_send_message_eq push_idle send_all_busy)

lemma drain_burst:
  assumes "idle c" "length pad = 3"
  shows "\<exists>c1. send_all pad (m # ms) c = (Inr (), c1) \<and>
    drain (Suc (length ms)) up c1 =
      (packet_bytes pad (Message m) @
         concat (replicate (length ms) (packet_bytes pad (Message (last (m # ms))))), Inr (), c)"
proof -
  let ?q = "map (message_buffers pad) ms"
  let ?c = "c\<lparr>write_queue := message_buffers pad m # ?q,
    writing := Some (packet_bytes pad (Message m), length (packet_bytes pad (Message m)))\<rparr>"
  have "last (message_buffers pad m # ?q) = message_buffers pad (last (m # ms))"
    using last_map [of "m # ms" "message_buffers pad"] by simp
  then have l: "concat (last (message_buffers pad m # ?q)) = packet_bytes pad (Message (last (m # ms)))"
    by (simp only: message_buffers_bytes)
  then have l': "concat (last (message_buffers pad m # ?q)) \<noteq> []" by (simp only: packet_bytes_not_Nil not_False_eq_True)
  have "drain (Suc (length ?q)) up ?c =
      (packet_bytes pad (Message m) @ concat (replicate (length ?q) (concat (last (message_buffers pad m # ?q)))),
       Inr (), ?c\<lparr>write_queue := [], writing := None\<rparr>)"
    by (rule drain_queue [OF _ _ _ l']) (simp_all del: packet_bytes.simps)
  moreover have "?c\<lparr>write_queue := [], writing := None\<rparr> = c" using assms(1) by (simp add: idle_def)
  ultimately have "drain (Suc (length ms)) up ?c =
      (packet_bytes pad (Message m) @
         concat (replicate (length ms) (packet_bytes pad (Message (last (m # ms))))), Inr (), c)"
    by (simp only: l length_map)
  then show ?thesis using send_all_idle [OF assms, of m ms] by (simp del: packet_bytes.simps drain.simps)
qed

lemma drain_paced:
  assumes "idle c" "length pad = 3"
  shows "send_paced pad up ms c = (concat (map (\<lambda>m. packet_bytes pad (Message m)) ms), Inr (), c)"
proof (induction ms)
  case (Cons m ms)
  obtain c1 where c1: "do_send_message pad m c = (Inr (), c1)"
      "drain 1 up c1 = (packet_bytes pad (Message m), Inr (), c)"
    using drain_burst [OF assms, of m "[]" up]
    by (auto simp: andthen_def sbind_def split: prod.splits sum.splits simp del: packet_bytes.simps drain.simps)
  with Cons show ?case by (simp del: packet_bytes.simps)
qed simp

lemma message_frames:
  assumes "length pad = 3" "list_all (\<lambda>m. length m \<le> connection_buffer_size) ms"
  shows "list_all (frame_ok k) (map (\<lambda>m. (pad, Message m)) ms)"
    and "concat (map frame_bytes (map (\<lambda>m. (pad, Message m)) ms)) = concat (map (\<lambda>m. packet_bytes pad (Message m)) ms)"
    and "sum_list (map frame_reads (map (\<lambda>m. (pad, Message m)) ms)) = 2 * length ms"
    and "concat (map frame_messages (map (\<lambda>m. (pad, Message m)) ms)) = ms"
  using assms by (induction ms) (simp_all add: frame_ok_def packet_ok_def)

lemma feed_messages:
  assumes "ready d" "length pad = 3" "list_all (\<lambda>m. length m \<le> connection_buffer_size) ms"
    and "\<And>m. harmless (on_receive up m)"
  shows "\<exists>d'. feed (2 * length ms) up (concat (map (\<lambda>m. packet_bytes pad (Message m)) ms)) d = (Inr [], d') \<and>
    ready d' \<and> received d' = received d @ ms"
  using feed_frames [OF assms(4,1) message_frames(1) [OF assms(2,3)], of 0 "[]"]
    message_frames [OF assms(2,3)] by auto

section \<open>Properties of sending\<close>

text \<open>
  C22. From one connection to another: messages of at most 8192 bytes that are sent one at a time,
  each after the write of the last one is complete, all reach the upper layer at the other end,
  complete and in order, and leave both connections ready for more.
\<close>

theorem paced_messages_arrive:
  assumes "idle c" "ready d" "length pad = 3"
    and "list_all (\<lambda>m. length m \<le> connection_buffer_size) ms" "\<And>m. harmless (on_receive up' m)"
  shows "\<exists>wire d'. send_paced pad up ms c = (wire, Inr (), c) \<and>
    feed (2 * length ms) up' wire d = (Inr [], d') \<and> ready d' \<and> received d' = received d @ ms"
  using drain_paced [OF assms(1,3)] feed_messages [OF assms(2,3,4,5)] by blast

theorem paced_messages_arrive_witness:
  "\<exists>wire d'. send_paced [0, 0, 0] quiet_layer [[1], [], [2, 3]] (started Client_connection ''s'') =
      (wire, Inr (), started Client_connection ''s'') \<and>
    feed 6 quiet_layer wire (started Server_connection ''c'') = (Inr [], d') \<and>
    received d' = received (started Server_connection ''c'') @ [[1], [], [2, 3]]"
  using paced_messages_arrive [of "started Client_connection ''s''" "started Server_connection ''c''"
      "[0, 0, 0]" "[[1], [], [2, 3]]" quiet_layer quiet_layer]
  by (auto simp: quiet_layer_def harmless_skip connection_buffer_size_def
      simp del: packet_bytes.simps feed.simps send_paced.simps)

text \<open>
  C10. From one connection to another: of several messages sent at once, only the first and the
  last arrive, and the last one arrives once for every message behind the first: each completed
  write removes the front of the queue, but the next one writes its back.
\<close>

theorem burst_repeats_last:
  assumes "idle c" "ready d" "length pad = 3"
    and "list_all (\<lambda>m. length m \<le> connection_buffer_size) (m # ms)" "\<And>m. harmless (on_receive up' m)"
  shows "\<exists>c1 wire d'. send_all pad (m # ms) c = (Inr (), c1) \<and>
    drain (Suc (length ms)) up c1 = (wire, Inr (), c) \<and>
    feed (2 * Suc (length ms)) up' wire d = (Inr [], d') \<and> ready d' \<and>
    received d' = received d @ m # replicate (length ms) (last (m # ms))"
proof -
  let ?ms = "m # replicate (length ms) (last (m # ms))"
  have wire: "packet_bytes pad (Message m) @
      concat (replicate (length ms) (packet_bytes pad (Message (last (m # ms))))) =
    concat (map (\<lambda>m. packet_bytes pad (Message m)) ?ms)"
    by (simp del: packet_bytes.simps last.simps)
  have "last (m # ms) \<in> set (m # ms)" by (rule last_in_set) simp
  with assms(4) have "list_all (\<lambda>m. length m \<le> connection_buffer_size) ?ms"
    by (auto simp: list_all_iff simp del: last.simps)
  from drain_burst [OF assms(1,3), of m ms up, unfolded wire] feed_messages [OF assms(2,3) this assms(5)]
  show ?thesis by (auto simp del: drain.simps feed.simps packet_bytes.simps send_all.simps last.simps)
qed

theorem burst_repeats_last_witness:
  "\<exists>c1 wire d'. send_all [0, 0, 0] [[1], [2], [3], [4]] (started Client_connection ''s'') = (Inr (), c1) \<and>
    drain 4 quiet_layer c1 = (wire, Inr (), started Client_connection ''s'') \<and>
    feed 8 quiet_layer wire (started Server_connection ''c'') = (Inr [], d') \<and>
    received d' = received (started Server_connection ''c'') @ [[1], [4], [4], [4]]"
  using burst_repeats_last [of "started Client_connection ''s''" "started Server_connection ''c''"
      "[0, 0, 0]" "[1]" "[[2], [3], [4]]" quiet_layer quiet_layer]
  by (auto simp: quiet_layer_def harmless_skip connection_buffer_size_def eval_nat_numeral
      simp del: drain.simps feed.simps packet_bytes.simps send_all.simps)

text \<open>
  A completed write of no bytes does not close the connection: the error message is formatted
  with three arguments for two holes, so the handler throws before it closes; the socket stays
  open and the message stays in the queue.
\<close>

theorem zero_write_throws:
  "when_message_sent up len None 0 c = (Inl (raise_too_many_args (socket_str c)), c)"
  by (simp add: when_message_sent_def log_texts)

text \<open>
  The heartbeat of an idle client connection is one header on the wire, after which it is idle
  again with its timer set to the interval; the server connection at the other end takes it,
  delivers nothing, sets its timer to the timeout, which is longer than the interval, and waits
  for the next header.
\<close>

theorem heartbeat_resets_timer:
  assumes "idle c" "ready d" "cclass d = Server_with_heartbeat" "length pad = 3"
  shows "\<exists>c1 c2 wire d'. send_and_reset pad None c = (Inr (), c1) \<and>
    drain 1 up c1 = (wire, Inr (), c2) \<and> idle c2 \<and> is_open c2 = is_open c \<and>
    last (effects c2) = Timer_wait heartbeat_interval \<and>
    feed 1 up' wire d = (Inr [], d') \<and> ready d' \<and> received d' = received d \<and>
    rearmed d' = Suc (rearmed d) \<and> heartbeat_interval < heartbeat_timeout"
proof -
  let ?w = "packet_bytes pad Keepalive"
  let ?c = "c\<lparr>effects := effects c @ [Log Debug (''Send heartbeat to '' @ socket_str c @ ''.''),
      Timer_wait heartbeat_interval]\<rparr>"
  have "send_and_reset pad None c =
      (Inr (), ?c\<lparr>write_queue := [[?w]], writing := Some (?w, length ?w)\<rparr>)"
    using assms(1,4) by (simp add: send_and_reset_def send_heartbeat_def do_send_header_def log_texts
        push_idle idle_def emit_def)
  moreover have "drain 1 up (?c\<lparr>write_queue := [[?w]], writing := Some (?w, length ?w)\<rparr>) = (?w, Inr (), ?c)"
    using assms(1) drain_queue [of "?c\<lparr>write_queue := [[?w]], writing := Some (?w, length ?w)\<rparr>" ?w "[?w]" "[]" up]
    by (simp add: idle_def del: packet_bytes.simps)
  moreover obtain d' where "feed 1 up' ?w d = (Inr [], d')" "ready d'" "received d' = received d"
      "rearmed d' = Suc (rearmed d)"
    using feed_keepalive [OF assms(2-4), of 0 up' "[]"] by (auto simp del: packet_bytes.simps feed.simps(2))
  ultimately show ?thesis using assms(1)
    by (intro exI [of _ "?c\<lparr>write_queue := [[?w]], writing := Some (?w, length ?w)\<rparr>"] exI [of _ ?c])
      (auto simp: idle_def heartbeat_interval_def heartbeat_timeout_def
        simp del: packet_bytes.simps drain.simps feed.simps)
qed

theorem heartbeat_resets_timer_witness:
  "\<exists>c1 c2 wire d'. send_and_reset [0, 0, 0] None (started Client_with_heartbeat ''s'') = (Inr (), c1) \<and>
    drain 1 quiet_layer c1 = (wire, Inr (), c2) \<and> idle c2 \<and>
    feed 1 quiet_layer wire (started Server_with_heartbeat ''c'') = (Inr [], d') \<and> ready d'"
  using heartbeat_resets_timer [of "started Client_with_heartbeat ''s''" "started Server_with_heartbeat ''c''"
      "[0, 0, 0]" quiet_layer quiet_layer]
  by (auto simp del: drain.simps feed.simps)

end
