(* ===== verification/Heartbeat_Timing.thy ===== *)
theory Heartbeat_Timing
  imports Connections
begin

text \<open>
  Heartbeats in time: the checker of a server connection and the sender of a client connection
  (src/network/heartbeat.cpp, with the handlers of src/network/connection.cpp) under a clock in
  milliseconds. The handlers are those of Connections; what they ask of the timer is read from
  their effects. \<open>steady_timer\<close> is the library's: a wait that is set at time \<open>t\<close> with \<open>k\<close> milliseconds
  expires at \<open>t + k\<close>, and setting or cancelling the timer aborts a wait that is outstanding.
\<close>

section \<open>A connection and its timer\<close>

text \<open>\<open>expiry\<close> is the time at which the outstanding wait ends.\<close>

record timed =
  tconn :: connection
  expiry :: "nat option"

fun timer_op :: "effect \<Rightarrow> bool" where
  "timer_op (Timer_wait k) = True"
| "timer_op Timer_cancel = True"
| "timer_op _ = False"

fun set_timer :: "nat \<Rightarrow> effect \<Rightarrow> nat option \<Rightarrow> nat option" where
  "set_timer t (Timer_wait k) d = Some (t + k)"
| "set_timer t Timer_cancel d = None"
| "set_timer t _ d = d"

definition new_effects :: "connection \<Rightarrow> connection \<Rightarrow> effect list" where
  "new_effects c c' = drop (length (effects c)) (effects c')"

text \<open>The handler that the class of the connection binds to its timer.\<close>

definition wait_handler :: "upper_layer \<Rightarrow> byte list \<Rightarrow> error_code option \<Rightarrow> (connection, unit) action" where
  "wait_handler up pad ec c =
     (if cclass c = Client_with_heartbeat then send_and_reset pad ec c else when_timeout up ec c)"

text \<open>A handler that runs at time \<open>t\<close>; the handler of a wait that it aborts runs after it.\<close>

definition at_time ::
  "upper_layer \<Rightarrow> byte list \<Rightarrow> nat \<Rightarrow> (connection, 'a) action \<Rightarrow> (timed, unit) action" where
  "at_time up pad t f tc =
     (let c = tconn tc; (r, c1) = f c;
          aborts = (expiry tc \<noteq> None \<and> list_ex timer_op (new_effects c c1));
          (r2, c2) = (if aborts then wait_handler up pad (Some Operation_aborted) c1 else (Inr (), c1))
      in (rbind r (\<lambda>_. r2),
          tc\<lparr>tconn := c2, expiry := fold (set_timer t) (new_effects c c2) (expiry tc)\<rparr>))"

definition timed_start :: "nat \<Rightarrow> connection \<Rightarrow> timed" where
  "timed_start t c = \<lparr>tconn = c, expiry = fold (set_timer t) (effects c) None\<rparr>"

section \<open>The checker\<close>

text \<open>
  Up to time \<open>t\<close> the wait ends if it expires by then; a frame that arrives at time \<open>t\<close> is read as
  far as it goes. A frame that arrives exactly when the wait expires comes too late.
\<close>

definition time_passes :: "upper_layer \<Rightarrow> byte list \<Rightarrow> nat \<Rightarrow> (timed, unit) action" where
  "time_passes up pad t tc =
     (case expiry tc of
        None \<Rightarrow> (Inr (), tc)
      | Some d \<Rightarrow>
          if d \<le> t then at_time up pad d (wait_handler up pad None) (tc\<lparr>expiry := None\<rparr>) else (Inr (), tc))"

definition frame_arrives ::
  "upper_layer \<Rightarrow> byte list \<Rightarrow> nat \<Rightarrow> byte list \<times> packet \<Rightarrow> (timed, unit) action" where
  "frame_arrives up pad t f = at_time up pad t (feed (frame_reads f) up (frame_bytes f))"

fun watch ::
  "upper_layer \<Rightarrow> byte list \<Rightarrow> (nat \<times> byte list \<times> packet) list \<Rightarrow> nat \<Rightarrow> (timed, unit) action" where
  "watch up pad [] T = time_passes up pad T"
| "watch up pad ((t, f) # fs) T =
     sbind (time_passes up pad t) (\<lambda>_. sbind (frame_arrives up pad t f) (\<lambda>_. watch up pad fs T))"

text \<open>
  The reference: the frames that arrive before the time limit, where every heartbeat sets a new
  limit, and the last limit.
\<close>

fun next_limit :: "nat \<Rightarrow> nat \<times> byte list \<times> packet \<Rightarrow> nat" where
  "next_limit l (t, f) = (if frame_keepalive f then t + heartbeat_timeout else l)"

fun on_time :: "nat \<Rightarrow> (nat \<times> byte list \<times> packet) list \<Rightarrow> (nat \<times> byte list \<times> packet) list" where
  "on_time l [] = []"
| "on_time l (f # fs) = (if fst f < l then f # on_time (next_limit l f) fs else [])"

fun last_limit :: "nat \<Rightarrow> (nat \<times> byte list \<times> packet) list \<Rightarrow> nat" where
  "last_limit l [] = l"
| "last_limit l (f # fs) = last_limit (next_limit l f) fs"

definition timed_messages :: "(nat \<times> byte list \<times> packet) list \<Rightarrow> byte list list" where
  "timed_messages fs = concat (map (\<lambda>f. frame_messages (snd f)) fs)"

text \<open>An upper layer that leaves the timer alone.\<close>

definition keeps_timer :: "(connection, unit) action \<Rightarrow> bool" where
  "keeps_timer m \<longleftrightarrow> (\<forall>c. \<exists>es. effects (snd (m c)) = effects c @ es \<and> \<not> list_ex timer_op es)"

definition calm :: "(connection, unit) action \<Rightarrow> bool" where
  "calm m \<longleftrightarrow> harmless m \<and> keeps_timer m"

lemma calm_skip: "calm skip"
  by (simp add: calm_def harmless_skip keeps_timer_def)

lemma set_timer_none: "\<not> list_ex timer_op es \<Longrightarrow> fold (set_timer t) es d = d"
proof (induction es arbitrary: d)
  case (Cons e es)
  then show ?case by (cases e) simp_all
qed simp

lemma new_effects_append [simp]: "effects c' = effects c @ es \<Longrightarrow> new_effects c c' = es"
  by (simp add: new_effects_def)

text \<open>An aborted wait of the checker is ignored.\<close>

lemma wait_aborted: "cclass c = Server_with_heartbeat \<Longrightarrow> wait_handler up pad (Some Operation_aborted) c = (Inr (), c)"
  by (simp add: wait_handler_def when_timeout_def)

lemma at_time_checker:
  assumes "f (tconn tc) = (Inr x, c')" "cclass c' = Server_with_heartbeat" "effects c' = effects (tconn tc) @ es"
  shows "at_time up pad t f tc = (Inr (), tc\<lparr>tconn := c', expiry := fold (set_timer t) es (expiry tc)\<rparr>)"
  using assms by (simp add: at_time_def wait_aborted Let_def)

text \<open>A checker that waits for a header and whose limit is \<open>l\<close>.\<close>

definition watching :: "nat \<Rightarrow> timed \<Rightarrow> bool" where
  "watching l tc \<longleftrightarrow> ready (tconn tc) \<and> cclass (tconn tc) = Server_with_heartbeat \<and> expiry tc = Some l"

lemma arrives_watching:
  assumes "watching l tc" "frame_ok Server_with_heartbeat f" "\<And>m. calm (on_receive up m)"
  shows "\<exists>tc'. frame_arrives up pad t f tc = (Inr (), tc') \<and> watching (next_limit l (t, f)) tc' \<and>
    received (tconn tc') = received (tconn tc) @ frame_messages f \<and> events (tconn tc') = events (tconn tc)"
proof -
  obtain p k where f: "f = (p, k)" by (rule prod.exhaust)
  let ?c = "tconn tc"
  have c: "ready ?c" "cclass ?c = Server_with_heartbeat" "expiry tc = Some l"
    using assms(1) by (simp_all add: watching_def)
  have p: "length p = 3" using assms(2) by (simp add: f frame_ok_def)
  show ?thesis
  proof (cases k)
    case Keepalive
    from feed_keepalive_effects [OF c(1,2) p, of 0 up "[]"] obtain c' where
      c': "feed 1 up (packet_bytes p Keepalive) ?c = (Inr [], c')" "ready c'" "cclass c' = Server_with_heartbeat"
        "effects c' = effects ?c @ [Log Debug (''Receive heartbeat from '' @ socket_str ?c), Timer_wait heartbeat_timeout]"
      using c(2) by (auto simp del: packet_bytes.simps)
    have "received c' = received ?c" "events c' = events ?c" using c'(4) by (simp_all add: received_def events_def)
    moreover have "frame_arrives up pad t f tc =
        (Inr (), tc\<lparr>tconn := c', expiry := Some (t + heartbeat_timeout)\<rparr>)"
      using at_time_checker [where f = "feed 1 up (packet_bytes p Keepalive)", OF c'(1,3,4), of up pad t]
      by (simp add: frame_arrives_def f Keepalive del: packet_bytes.simps feed.simps)
    ultimately show ?thesis using c' by (simp add: watching_def f Keepalive is_keepalive_def)
  next
    case (Message m)
    have m: "harmless (on_receive up m)" "length m \<le> connection_buffer_size"
      using assms(2,3) by (simp_all add: calm_def f Message frame_ok_def packet_ok_def)
    from feed_message_effects [OF c(1) m(1) p m(2), of 0 "[]"] obtain c0 c' where
      c': "feed 2 up (packet_bytes p (Message m)) ?c = (Inr [], c')" "ready c'" "cclass c' = Server_with_heartbeat"
        "received c' = received ?c @ [m]" "events c' = events ?c" "effects c0 = effects ?c @ [Upper_receive m]"
        "effects c' = effects (snd (on_receive up m c0))"
      using c(2) by (auto simp: numeral_2_eq_2 simp del: packet_bytes.simps)
    obtain es where es: "effects (snd (on_receive up m c0)) = effects c0 @ es" "\<not> list_ex timer_op es"
      using assms(3) [of m] by (auto simp: calm_def keeps_timer_def)
    then have "effects c' = effects ?c @ Upper_receive m # es" using c'(6,7) by simp
    from at_time_checker [where f = "feed 2 up (packet_bytes p (Message m))", OF c'(1,3) this, of up pad t] es(2)
    have "frame_arrives up pad t f tc = (Inr (), tc\<lparr>tconn := c', expiry := Some l\<rparr>)"
      using c(3) by (simp add: frame_arrives_def f Message set_timer_none del: packet_bytes.simps feed.simps)
    then show ?thesis using c' by (simp add: watching_def f Message is_keepalive_def)
  qed
qed

text \<open>When the limit has passed the connection is closed and the upper layer is told.\<close>

definition lost :: "timed \<Rightarrow> bool" where
  "lost tc \<longleftrightarrow> \<not> is_open (tconn tc) \<and> cclass (tconn tc) = Server_with_heartbeat \<and>
     (reading (tconn tc) = Header_read \<or> reading (tconn tc) = No_read) \<and> expiry tc = None"

lemma timeout_handler:
  assumes "calm (on_event up Timeout)" "is_open c" "cclass c = Server_with_heartbeat"
  shows "\<exists>c' es. when_timeout up None c = (Inr (), c') \<and> cclass c' = Server_with_heartbeat \<and> \<not> is_open c' \<and>
    reading c' = reading c \<and> received c' = received c \<and> events c' = events c @ [Timeout] \<and>
    effects c' = effects c @ [Log Warn (''Peer socket: '' @ socket_str c @ '' timeout''),
      Timer_cancel, Cancel_socket, Close_socket, Upper_event Timeout] @ es \<and> \<not> list_ex timer_op es"
proof -
  let ?log = "[Log Warn (''Peer socket: '' @ socket_str c @ '' timeout''),
    Timer_cancel, Cancel_socket, Close_socket, Upper_event Timeout]"
  let ?c = "c\<lparr>is_open := False, effects := effects c @ ?log\<rparr>"
  obtain c' es where c': "on_event up Timeout ?c = (Inr (), c')" "cclass c' = cclass ?c" "is_open c' = is_open ?c"
      "reading c' = reading ?c" "effects c' = effects ?c @ es" "list_all silent es"
    using assms(1) unfolding calm_def harmless_def by meson
  obtain es' where "effects (snd (on_event up Timeout ?c)) = effects ?c @ es'" "\<not> list_ex timer_op es'"
    using assms(1) unfolding calm_def keeps_timer_def by meson
  with c' have es: "\<not> list_ex timer_op es" by simp
  have "received c' = received ?c" "events c' = events ?c" using silent_effects [OF c'(5,6)] by simp_all
  then have "received c' = received c" "events c' = events c @ [Timeout]"
    by (simp_all only: update_simps) (simp_all add: received_def events_def)
  moreover have "when_timeout up None c = (Inr (), c')"
    using assms(2,3) c'(1) by (simp add: when_timeout_def log_texts close_effects_def upper_event_def emit_def)
  ultimately show ?thesis using c' es assms(3) by auto
qed

lemma limit_passes:
  assumes "watching l tc" "calm (on_event up Timeout)" "l \<le> t"
  shows "\<exists>tc'. time_passes up pad t tc = (Inr (), tc') \<and> lost tc' \<and>
    received (tconn tc') = received (tconn tc) \<and> events (tconn tc') = events (tconn tc) @ [Timeout]"
proof -
  let ?c = "tconn tc"
  have c: "ready ?c" "cclass ?c = Server_with_heartbeat" "expiry tc = Some l"
    using assms(1) by (simp_all add: watching_def)
  then have "is_open ?c" by (simp add: ready_def)
  from timeout_handler [OF assms(2) this c(2)] obtain c' es where
    c': "when_timeout up None ?c = (Inr (), c')" "cclass c' = Server_with_heartbeat" "\<not> is_open c'"
      "reading c' = reading ?c" "received c' = received ?c" "events c' = events ?c @ [Timeout]"
      "effects c' = effects ?c @ [Log Warn (''Peer socket: '' @ socket_str ?c @ '' timeout''),
        Timer_cancel, Cancel_socket, Close_socket, Upper_event Timeout] @ es" "\<not> list_ex timer_op es"
    by blast
  have "wait_handler up pad None ?c = (Inr (), c')" using c(2) c'(1) by (simp add: wait_handler_def)
  with at_time_checker [where f = "wait_handler up pad None" and tc = "tc\<lparr>expiry := None\<rparr>", OF _ c'(2), of "()"] c'(7,8)
  have "time_passes up pad t tc = (Inr (), tc\<lparr>tconn := c', expiry := None\<rparr>)"
    using c(3) assms(3) by (simp add: time_passes_def set_timer_none)
  with c c' show ?thesis by (simp add: lost_def ready_def)
qed

text \<open>After that nothing is delivered or reported any more.\<close>

lemma lost_arrives:
  assumes "lost tc"
  shows "\<exists>tc'. sbind (time_passes up pad t) (\<lambda>_. frame_arrives up pad t f) tc = (Inr (), tc') \<and> lost tc' \<and>
    received (tconn tc') = received (tconn tc) \<and> events (tconn tc') = events (tconn tc)"
proof -
  let ?c = "tconn tc"
  have c: "\<not> is_open ?c" "cclass ?c = Server_with_heartbeat" "reading ?c = Header_read \<or> reading ?c = No_read" "expiry tc = None"
    using assms by (auto simp: lost_def)
  have no_read: "feed n up w c = (Inr w, c)" if "reading c = No_read" for n w c
    using that by (cases n) (simp_all add: complete_read_def)
  obtain n where n: "frame_reads f = Suc n" by (cases f; cases "snd f") auto
  have "\<exists>w c'. feed (Suc n) up (frame_bytes f) ?c = (Inr w, c') \<and> effects c' = effects ?c \<and> \<not> is_open c' \<and>
      cclass c' = Server_with_heartbeat \<and> (reading c' = Header_read \<or> reading c' = No_read)"
  proof (cases "reading ?c = Header_read \<and> header_size \<le> length (frame_bytes f)")
    case True
    then show ?thesis using c no_read by (simp add: complete_read_def when_header_received_def)
  next
    case False
    then show ?thesis using c by (auto simp: complete_read_def)
  qed
  then obtain w c' where c': "feed (Suc n) up (frame_bytes f) ?c = (Inr w, c')" "effects c' = effects ?c @ []"
      "\<not> is_open c'" "cclass c' = Server_with_heartbeat" "reading c' = Header_read \<or> reading c' = No_read"
    by auto
  from at_time_checker [where f = "feed (Suc n) up (frame_bytes f)", OF c'(1,4,2), of up pad t] n
  have "frame_arrives up pad t f tc = (Inr (), tc\<lparr>tconn := c', expiry := None\<rparr>)"
    using c(4) by (simp add: frame_arrives_def del: feed.simps)
  moreover have "received c' = received ?c" "events c' = events ?c" using c'(2) by (simp_all add: received_def events_def)
  ultimately show ?thesis using c' c(4) by (simp add: time_passes_def lost_def)
qed

lemma watch_lost:
  "lost tc \<Longrightarrow> \<exists>tc'. watch up pad fs T tc = (Inr (), tc') \<and> lost tc' \<and>
    received (tconn tc') = received (tconn tc) \<and> events (tconn tc') = events (tconn tc)"
proof (induction fs arbitrary: tc)
  case Nil
  then show ?case by (auto simp: lost_def time_passes_def)
next
  case (Cons f fs)
  obtain t k where f: "f = (t, k)" by (rule prod.exhaust)
  from lost_arrives [OF Cons.prems, of up pad t k] obtain tc1 where
    tc1: "sbind (time_passes up pad t) (\<lambda>_. frame_arrives up pad t k) tc = (Inr (), tc1)" "lost tc1"
      "received (tconn tc1) = received (tconn tc)" "events (tconn tc1) = events (tconn tc)" by blast
  then have "watch up pad (f # fs) T tc = watch up pad fs T tc1"
    by (auto simp: f sbind_def split: prod.splits sum.splits)
  with Cons.IH [OF tc1(2)] tc1(3,4) show ?case by simp
qed

lemma watch_watching:
  assumes "\<And>m. calm (on_receive up m)" "calm (on_event up Timeout)"
  shows "watching l tc \<Longrightarrow> list_all (\<lambda>f. frame_ok Server_with_heartbeat (snd f)) fs \<Longrightarrow>
    \<exists>tc'. watch up pad fs T tc = (Inr (), tc') \<and>
      received (tconn tc') = received (tconn tc) @ timed_messages (on_time l fs) \<and>
      (if on_time l fs = fs \<and> T < last_limit l fs
       then watching (last_limit l fs) tc' \<and> events (tconn tc') = events (tconn tc)
       else lost tc' \<and> events (tconn tc') = events (tconn tc) @ [Timeout])"
proof (induction fs arbitrary: l tc)
  case Nil
  show ?case
  proof (cases "T < l")
    case True
    then show ?thesis using Nil by (simp add: watching_def time_passes_def timed_messages_def)
  next
    case False
    then have "l \<le> T" by simp
    from limit_passes [OF Nil(1) assms(2) this, of pad] False show ?thesis by (auto simp: timed_messages_def)
  qed
next
  case (Cons f fs)
  obtain t k where f: "f = (t, k)" by (rule prod.exhaust)
  with Cons.prems(2) have ok: "frame_ok Server_with_heartbeat k" "list_all (\<lambda>f. frame_ok Server_with_heartbeat (snd f)) fs"
    by simp_all
  show ?case
  proof (cases "t < l")
    case True
    then have "time_passes up pad t tc = (Inr (), tc)" using Cons.prems(1) by (simp add: watching_def time_passes_def)
    moreover from arrives_watching [OF Cons.prems(1) ok(1) assms(1)] obtain tc1 where
      tc1: "frame_arrives up pad t k tc = (Inr (), tc1)" "watching (next_limit l (t, k)) tc1"
        "received (tconn tc1) = received (tconn tc) @ frame_messages k" "events (tconn tc1) = events (tconn tc)" by blast
    ultimately have "watch up pad (f # fs) T tc = watch up pad fs T tc1" by (simp add: f)
    with Cons.IH [OF tc1(2) ok(2)] tc1(3,4) True show ?thesis
      by (auto simp: f timed_messages_def simp del: next_limit.simps)
  next
    case False
    then have "l \<le> t" by simp
    from limit_passes [OF Cons.prems(1) assms(2) this] obtain tc1 where
      tc1: "time_passes up pad t tc = (Inr (), tc1)" "lost tc1" "received (tconn tc1) = received (tconn tc)"
        "events (tconn tc1) = events (tconn tc) @ [Timeout]" by blast
    have "watch up pad (f # fs) T tc1 = watch up pad (f # fs) T tc"
      using tc1 by (simp add: f lost_def time_passes_def)
    with watch_lost [OF tc1(2), of up pad "f # fs" T] tc1(3,4) False show ?thesis
      by (auto simp: f timed_messages_def simp del: watch.simps)
  qed
qed

lemma started_watching: "watching (t + server_initial_timeout) (timed_start t (started Server_with_heartbeat addr))"
  by (simp add: watching_def timed_start_def) (simp add: started_def do_receive_message_def constructs checker_start_def
      emit_def new_connection_state_def)

lemma started_nothing: "received (started k addr) = []" "events (started k addr) = []"
  by (cases k; simp add: started_def do_receive_message_def constructs checker_start_def sender_start_def
      emit_def new_connection_state_def received_def events_def)+

text \<open>
  C23. The heartbeat checker in time. A server connection accepted at time \<open>t0\<close> delivers exactly
  the messages that arrive before its time limit, which is \<open>t0 + 6\<close> at first and four milliseconds
  after the last heartbeat later on; messages do not move the limit. If every frame is in time and the
  limit after the last one lies beyond \<open>T\<close>, the connection is open at time \<open>T\<close> and nothing has been
  reported; otherwise it is closed, exactly one timeout has been reported, and the timer is off.
\<close>

theorem checker_exact:
  assumes "\<And>m. calm (on_receive up m)" "calm (on_event up Timeout)"
    and "list_all (\<lambda>f. frame_ok Server_with_heartbeat (snd f)) fs"
  shows "\<exists>tc. watch up pad fs T (timed_start t0 (started Server_with_heartbeat addr)) = (Inr (), tc) \<and>
    received (tconn tc) = timed_messages (on_time (t0 + 6) fs) \<and>
    (if on_time (t0 + 6) fs = fs \<and> T < last_limit (t0 + 6) fs
     then is_open (tconn tc) \<and> events (tconn tc) = [] \<and> expiry tc = Some (last_limit (t0 + 6) fs)
     else \<not> is_open (tconn tc) \<and> events (tconn tc) = [Timeout] \<and> expiry tc = None)"
proof -
  have "server_initial_timeout = 6"
    by (simp add: server_initial_timeout_def heartbeat_interval_def heartbeat_timeout_def)
  with watch_watching [OF assms(1,2) started_watching [of t0 addr] assms(3), of pad T] show ?thesis
    by (auto simp: watching_def ready_def lost_def timed_start_def started_nothing split: if_splits)
qed

theorem checker_exact_witness:
  "\<exists>tc. watch quiet_layer [0, 0, 0] [(105, [0, 0, 0], Keepalive), (108, [0, 0, 0], Message [7]), (109, [0, 0, 0], Keepalive)]
      120 (timed_start 100 (started Server_with_heartbeat ''h'')) = (Inr (), tc) \<and>
    received (tconn tc) = [[7]] \<and> \<not> is_open (tconn tc) \<and> events (tconn tc) = [Timeout]"
  using checker_exact [of quiet_layer
      "[(105, [0, 0, 0], Keepalive), (108, [0, 0, 0], Message [7]), (109, [0, 0, 0], Keepalive)]" "[0, 0, 0]" 120 100 "''h''"]
  by (auto simp: quiet_layer_def calm_skip frame_ok_def packet_ok_def connection_buffer_size_def is_keepalive_def
      heartbeat_timeout_def timed_messages_def simp del: watch.simps)

section \<open>The sender\<close>

text \<open>
  The wait of the sender ends, its handler runs \<open>l\<close> milliseconds late, and the write of the
  heartbeat completes before the next one; \<open>beats\<close> gives what is written, and when.
\<close>

definition heartbeat_written ::
  "upper_layer \<Rightarrow> byte list \<Rightarrow> nat \<Rightarrow> timed \<Rightarrow> byte list \<times> unit res \<times> timed" where
  "heartbeat_written up pad t tc =
     (case at_time up pad t (wait_handler up pad None) (tc\<lparr>expiry := None\<rparr>) of
        (Inl e, tc) \<Rightarrow> ([], Inl e, tc)
      | (Inr _, tc) \<Rightarrow>
          (case complete_write up (tconn tc) of
             None \<Rightarrow> ([], Inr (), tc)
           | Some ((r, c), bytes) \<Rightarrow> (bytes, r, tc\<lparr>tconn := c\<rparr>)))"

fun beats ::
  "upper_layer \<Rightarrow> byte list \<Rightarrow> nat list \<Rightarrow> timed \<Rightarrow> (nat \<times> byte list) list \<times> unit res \<times> timed" where
  "beats up pad [] tc = ([], Inr (), tc)"
| "beats up pad (l # ls) tc =
     (case expiry tc of
        None \<Rightarrow> ([], Inr (), tc)
      | Some d \<Rightarrow>
          (case heartbeat_written up pad (d + l) tc of
             (bytes, Inl e, tc) \<Rightarrow> ([(d + l, bytes)], Inl e, tc)
           | (bytes, Inr _, tc) \<Rightarrow> (let (out, r) = beats up pad ls tc in ((d + l, bytes) # out, r))))"

text \<open>The times at which heartbeats are written: two milliseconds after the last one, and late.\<close>

fun beat_times :: "nat \<Rightarrow> nat list \<Rightarrow> nat list" where
  "beat_times d [] = []"
| "beat_times d (l # ls) = (d + l) # beat_times (d + l + heartbeat_interval) ls"

definition beating :: "nat \<Rightarrow> timed \<Rightarrow> bool" where
  "beating d tc \<longleftrightarrow> idle (tconn tc) \<and> is_open (tconn tc) \<and> cclass (tconn tc) = Client_with_heartbeat \<and>
     expiry tc = Some d"

lemma heartbeat_beating:
  assumes "beating d tc" "length pad = 3"
  shows "\<exists>tc'. heartbeat_written up pad t tc = (packet_bytes pad Keepalive, Inr (), tc') \<and>
    beating (t + heartbeat_interval) tc'"
proof -
  let ?w = "packet_bytes pad Keepalive" and ?c = "tconn tc"
  let ?es = "[Log Debug (''Send heartbeat to '' @ socket_str ?c @ ''.''), Timer_wait heartbeat_interval]"
  let ?c1 = "?c\<lparr>effects := effects ?c @ ?es, write_queue := [[?w]], writing := Some (?w, length ?w)\<rparr>"
  have c: "idle ?c" "is_open ?c" "cclass ?c = Client_with_heartbeat" using assms(1) by (simp_all add: beating_def)
  have "wait_handler up pad None ?c = (Inr (), ?c1)"
    using c assms(2) by (simp add: wait_handler_def send_and_reset_def send_heartbeat_def do_send_header_def
        log_texts push_idle idle_def emit_def)
  then have "at_time up pad t (wait_handler up pad None) (tc\<lparr>expiry := None\<rparr>) =
      (Inr (), tc\<lparr>tconn := ?c1, expiry := Some (t + heartbeat_interval)\<rparr>)"
    by (simp add: at_time_def Let_def del: packet_bytes.simps)
  moreover have "complete_write up ?c1 = Some ((Inr (), ?c\<lparr>effects := effects ?c @ ?es\<rparr>), ?w)"
    using c(1) by (simp add: complete_write_def message_sent_complete idle_def Let_def del: packet_bytes.simps)
  ultimately show ?thesis using c
    by (simp add: heartbeat_written_def beating_def idle_def del: packet_bytes.simps)
qed

lemma beats_beating:
  assumes "length pad = 3"
  shows "beating d tc \<Longrightarrow> \<exists>tc' d'. beats up pad ls tc =
      (map (\<lambda>t. (t, packet_bytes pad Keepalive)) (beat_times d ls), Inr (), tc') \<and> beating d' tc'"
proof (induction ls arbitrary: d tc)
  case Nil
  then show ?case by auto
next
  case (Cons l ls)
  from heartbeat_beating [OF Cons.prems assms, of up "d + l"] obtain tc1 where
    tc1: "heartbeat_written up pad (d + l) tc = (packet_bytes pad Keepalive, Inr (), tc1)"
      "beating (d + l + heartbeat_interval) tc1" by blast
  from Cons.IH [OF tc1(2)] obtain tc' d' where
    "beats up pad ls tc1 = (map (\<lambda>t. (t, packet_bytes pad Keepalive)) (beat_times (d + l + heartbeat_interval) ls),
      Inr (), tc')" "beating d' tc'" by blast
  moreover have "expiry tc = Some d" using Cons.prems by (simp add: beating_def)
  ultimately show ?case using tc1(1) by (auto simp del: packet_bytes.simps)
qed

lemma started_beating: "beating (t + heartbeat_interval) (timed_start t (started Client_with_heartbeat addr))"
  by (simp add: beating_def timed_start_def) (simp add: started_def do_receive_message_def constructs sender_start_def
      emit_def new_connection_state_def)

section \<open>Both ends\<close>

text \<open>The heartbeats at the other end: each arrives \<open>x\<close> milliseconds after it was written.\<close>

definition arrivals :: "byte list \<Rightarrow> nat \<Rightarrow> nat list \<Rightarrow> nat list \<Rightarrow> (nat \<times> byte list \<times> packet) list" where
  "arrivals pad d ls xs = map2 (\<lambda>t x. (t + x, pad, Keepalive)) (beat_times d ls) xs"

lemma arrivals_simps [simp]:
  "arrivals pad d [] xs = []"
  "arrivals pad d (l # ls) (x # xs) = (d + l + x, pad, Keepalive) # arrivals pad (d + l + heartbeat_interval) ls xs"
  by (simp_all add: arrivals_def)

lemma arrivals_on_time:
  "length ls = length xs \<Longrightarrow> list_all2 (\<lambda>l x. l + x < heartbeat_timeout - heartbeat_interval) ls xs \<Longrightarrow>
    d + heartbeat_interval \<le> lim \<Longrightarrow> on_time lim (arrivals pad d ls xs) = arrivals pad d ls xs"
proof (induction ls xs arbitrary: d lim rule: list_induct2)
  case (Cons l ls x xs)
  have "d + l + x < lim" using Cons.prems by (simp add: heartbeat_timeout_def heartbeat_interval_def)
  moreover have "on_time (d + l + x + heartbeat_timeout) (arrivals pad (d + l + heartbeat_interval) ls xs) =
      arrivals pad (d + l + heartbeat_interval) ls xs"
    using Cons.prems by (intro Cons.IH) (simp_all add: heartbeat_timeout_def heartbeat_interval_def)
  ultimately show ?case by (simp add: is_keepalive_def)
qed simp

lemma arrivals_frames:
  assumes "length pad = 3"
  shows "list_all (\<lambda>f. frame_ok Server_with_heartbeat (snd f)) (arrivals pad d ls xs)"
  using assms by (auto simp: list_all_iff arrivals_def frame_ok_def packet_ok_def)

lemma arrivals_bytes:
  "length ls = length xs \<Longrightarrow> map (frame_bytes \<circ> snd) (arrivals pad d ls xs) =
    map snd (map (\<lambda>t. (t, packet_bytes pad Keepalive)) (beat_times d ls))"
  by (induction ls xs arbitrary: d rule: list_induct2) (simp_all del: packet_bytes.simps)

text \<open>
  C24. A live peer is not taken for a dead one. The client's connection starts at time \<open>c0\<close> and its
  \<open>i\<close>-th heartbeat is written \<open>l\<close> milliseconds late and takes \<open>x\<close> milliseconds to arrive; the server
  accepts the connection at \<open>t0\<close>. If \<open>l + x\<close> is always below two milliseconds, the difference of the
  timeout and the interval, and the client does not start more than two milliseconds after the
  server, then the server's connection is open, and has reported nothing, at every time \<open>T\<close> before
  the limit that the last heartbeat sets.
\<close>

theorem heartbeats_keep_alive:
  assumes "length pad = 3" "\<And>m. calm (on_receive up' m)" "calm (on_event up' Timeout)"
    and "list_all2 (\<lambda>l x. l + x < 2) ls xs" "c0 \<le> t0 + 2" "T < last_limit (t0 + 6) (arrivals pad (c0 + 2) ls xs)"
  shows "\<exists>out tc tc'. beats up pad ls (timed_start c0 (started Client_with_heartbeat server)) = (out, Inr (), tc) \<and>
    map snd out = map (frame_bytes \<circ> snd) (arrivals pad (c0 + 2) ls xs) \<and>
    watch up' pad (arrivals pad (c0 + 2) ls xs) T (timed_start t0 (started Server_with_heartbeat client)) = (Inr (), tc') \<and>
    is_open (tconn tc) \<and> is_open (tconn tc') \<and> events (tconn tc') = []"
proof -
  have len: "length ls = length xs" by (rule list_all2_lengthD [OF assms(4)])
  let ?fs = "arrivals pad (c0 + 2) ls xs"
  have "on_time (t0 + 6) ?fs = ?fs"
    using assms(4,5) len by (intro arrivals_on_time) (simp_all add: heartbeat_timeout_def heartbeat_interval_def)
  with checker_exact [OF assms(2,3) arrivals_frames [OF assms(1), of "c0 + 2" ls xs], of pad T t0 client] assms(6)
  have "\<exists>tc'. watch up' pad ?fs T (timed_start t0 (started Server_with_heartbeat client)) = (Inr (), tc') \<and>
      is_open (tconn tc') \<and> events (tconn tc') = []"
    by auto
  moreover have interval: "c0 + heartbeat_interval = c0 + 2" by (simp add: heartbeat_interval_def)
  from beats_beating [OF assms(1) started_beating [of c0 server, unfolded interval], of up ls] obtain tc where
    "beats up pad ls (timed_start c0 (started Client_with_heartbeat server)) =
      (map (\<lambda>t. (t, packet_bytes pad Keepalive)) (beat_times (c0 + 2) ls), Inr (), tc)" "is_open (tconn tc)"
    by (auto simp: beating_def)
  note this arrivals_bytes [OF len, of pad "c0 + 2", symmetric]
  ultimately show ?thesis by blast
qed

theorem heartbeats_keep_alive_witness:
  "\<exists>out tc tc'. beats quiet_layer [0, 0, 0] [0, 1, 0] (timed_start 11 (started Client_with_heartbeat ''s'')) = (out, Inr (), tc) \<and>
    watch quiet_layer [0, 0, 0] [(14, [0, 0, 0], Keepalive), (16, [0, 0, 0], Keepalive), (19, [0, 0, 0], Keepalive)] 22
      (timed_start 10 (started Server_with_heartbeat ''c'')) = (Inr (), tc') \<and>
    is_open (tconn tc') \<and> events (tconn tc') = []"
  using heartbeats_keep_alive [of "[0, 0, 0]" quiet_layer "[0, 1, 0]" "[1, 0, 1]" 11 10 22 quiet_layer "''s''" "''c''"]
  by (auto simp: quiet_layer_def calm_skip heartbeat_timeout_def heartbeat_interval_def is_keepalive_def
      simp del: watch.simps beats.simps)

end
