(* ===== verification/Conn_Managers.thy ===== *)
theory Conn_Managers
  imports Connections Id_Supply
begin

text \<open>
  The owners of connections: \<open>RealConnectionManager\<close> (src/network/connection.hpp), which numbers
  them, the two clients (src/network/client.{hpp,cpp}) and the server
  (src/network/server.{hpp,cpp}). Resolving a name, connecting, listening and accepting are calls
  of the library: their results are parameters. A call of the upper layer is recorded.
\<close>

section \<open>The connection manager\<close>

datatype upward = Up_receive int "byte list" | Up_event int connection_event

text \<open>
  \<open>holdings\<close> is an \<open>unordered_map\<close> of pointers: an entry can be null, because reading a key that
  is not there inserts one.
\<close>

record manager =
  mclass :: connection_class
  holdings :: "int \<rightharpoonup> connection option"
  next_id :: int
  upward_calls :: "upward list"

definition new_manager_of :: "connection_class \<Rightarrow> manager" where
  "new_manager_of k = \<lparr>mclass = k, holdings = Map.empty, next_id = 0, upward_calls = []\<rparr>"

definition int_max :: int where
  "int_max = 2 ^ 31 - 1"

text \<open>\<open>peer\<close> is the text of the remote address of the socket.\<close>

definition new_connection :: "string \<Rightarrow> int \<Rightarrow> (manager, unit) action" where
  "new_connection peer given_id m =
     (let conn_id = (if given_id \<ge> 0 then given_id else next_id m)
      in if conn_id = int_max then (Inl (Undefined ''signed overflow''), m)
         else
           (let m = m\<lparr>next_id := conn_id + 1\<rparr>
            in if holdings m conn_id \<noteq> None then (Inl (Logic_error ''The conn id exist!''), m)
               else (Inr (), m\<lparr>holdings := (holdings m)
                 (conn_id \<mapsto> Some (snd (do_receive_message (construct (mclass m) peer))))\<rparr>)))"

text \<open>\<open>holdings[conn_id]->f()\<close>.\<close>

definition on_connection :: "int \<Rightarrow> (connection, unit) action \<Rightarrow> (manager, unit) action" where
  "on_connection conn_id f m =
     (case holdings m conn_id of
        None \<Rightarrow> (Inl (Undefined ''null connection''), m\<lparr>holdings := (holdings m)(conn_id \<mapsto> None)\<rparr>)
      | Some None \<Rightarrow> (Inl (Undefined ''null connection''), m)
      | Some (Some c) \<Rightarrow>
          (let (r, c) = f c in (r, m\<lparr>holdings := (holdings m)(conn_id \<mapsto> Some c)\<rparr>)))"

definition manager_send :: "byte list \<Rightarrow> int \<Rightarrow> byte list \<Rightarrow> (manager, unit) action" where
  "manager_send pad conn_id msg = on_connection conn_id (do_send_message pad msg)"

definition manager_disconnect :: "int \<Rightarrow> (manager, unit) action" where
  "manager_disconnect conn_id = on_connection conn_id connection_close"

definition manager_receive :: "int \<Rightarrow> byte list \<Rightarrow> (manager, unit) action" where
  "manager_receive conn_id buf m = (Inr (), m\<lparr>upward_calls := upward_calls m @ [Up_receive conn_id buf]\<rparr>)"

definition manager_event :: "int \<Rightarrow> connection_event \<Rightarrow> (manager, unit) action" where
  "manager_event conn_id e m = (Inr (), m\<lparr>upward_calls := upward_calls m @ [Up_event conn_id e]\<rparr>)"

text \<open>
  Accepting numbers the connections: with no id given, the manager is a source of fresh ids for
  its table, as long as the integer does not overflow.
\<close>

definition accept_conn :: "string \<Rightarrow> manager \<Rightarrow> int \<times> manager" where
  "accept_conn peer m = (next_id m, snd (new_connection peer (- 1) m))"

definition conn_room :: "manager \<Rightarrow> nat \<Rightarrow> bool" where
  "conn_room m n \<longleftrightarrow> (\<forall>i\<in>dom (holdings m). i < next_id m) \<and> 0 \<le> next_id m \<and> next_id m + int n \<le> int_max"

lemma new_connection_fresh:
  assumes "conn_room m (Suc n)"
  shows "new_connection peer (- 1) m = (Inr (), m\<lparr>next_id := next_id m + 1,
    holdings := (holdings m)(next_id m \<mapsto> Some (started (mclass m) peer))\<rparr>)"
proof -
  have "holdings m (next_id m) = None" using assms by (auto simp: conn_room_def)
  with assms show ?thesis
    by (simp add: new_connection_def conn_room_def int_max_def started_def Let_def)
qed

lemma conn_room_accept:
  "conn_room m (Suc n) \<Longrightarrow> conn_room (snd (new_connection peer (- 1) m)) n"
proof -
  assume m: "conn_room m (Suc n)"
  then have "\<forall>i\<in>dom (holdings m). i < next_id m + 1" unfolding conn_room_def
    by (metis zless_add1_eq)
  with m show ?thesis by (simp add: new_connection_fresh [OF m]) (simp add: conn_room_def)
qed

interpretation conn_ids: id_supply "accept_conn peer" "\<lambda>m. dom (holdings m)" conn_room for peer
proof (unfold_locales, goal_cases)
  case (1 m n i m')
  then show ?case using new_connection_fresh [OF 1(1), of peer] conn_room_accept [OF 1(1), of peer]
    by (auto simp: accept_conn_def) (auto simp: conn_room_def)
qed

section \<open>Resolving and connecting\<close>

text \<open>
  \<open>resolve\<close> maps a host name and a service to end points, \<open>connect\<close> end points to the address and
  port of the one that was connected to; both may fail with a text. The state is the log.
\<close>

type_synonym log_lines = "(level \<times> string) list"

definition log_line :: "level \<Rightarrow> string \<Rightarrow> string list \<Rightarrow> (log_lines, unit) action" where
  "log_line l fmt args = sbind (slift (format fmt args)) (\<lambda>m ls. (Inr (), ls @ [(l, m)]))"

definition try_resolve ::
  "(string \<Rightarrow> string \<Rightarrow> string + 'eps) \<Rightarrow> string \<Rightarrow> int \<Rightarrow> (log_lines, 'eps) action" where
  "try_resolve resolve hostname port =
     (case resolve hostname (show_int port) of
        Inl what \<Rightarrow> sbind (log_line Fatal ''Unable to resolve {}, error: {}'' [hostname, what])
          (\<lambda>_. sthrow (System_error what))
      | Inr eps \<Rightarrow> sreturn eps)"

definition try_connect ::
  "('eps \<Rightarrow> string + string \<times> nat) \<Rightarrow> 'eps \<Rightarrow> (log_lines, string \<times> nat) action" where
  "try_connect connect eps =
     (case connect eps of
        Inl what \<Rightarrow> sbind (log_line Fatal ''Connect failed: {}'' [what]) (\<lambda>_. sthrow (System_error what))
      | Inr ep \<Rightarrow> sbind (log_line Debug ''Successfully connect to {}'' [fst ep]) (\<lambda>_. sreturn ep))"

definition peer_text :: "string \<times> nat \<Rightarrow> string" where
  "peer_text ep = fst ep @ '':'' @ show_nat (snd ep)"

text \<open>
  The wrapper of addresses (src/network/asio_type_wrapper.{hpp,cpp}): \<open>make_address\<close> parses a dotted
  address and gives, with an error, the unspecified one.
\<close>

record ti_socket =
  socket_port :: "16 word"
  socket_addr :: string

definition socket_to_string :: "ti_socket \<Rightarrow> string" where
  "socket_to_string s = socket_addr s @ '':'' @ show_nat (unat (socket_port s))"

definition resolve_address ::
  "(string \<Rightarrow> string \<times> error_code option) \<Rightarrow> string \<Rightarrow> (log_lines, string \<times> error_code option) action" where
  "resolve_address make_address s =
     (case make_address s of
        (ret, Some e) \<Rightarrow>
          sbind (log_line Err ''Trying to resolve host: {} error: {}'' [s, error_message e])
            (\<lambda>_. sreturn (ret, Some e))
      | (ret, None) \<Rightarrow> sreturn (ret, None))"

text \<open>It never throws, and logs exactly the failures.\<close>

lemma resolve_address_logs:
  "resolve_address make_address s ls = (Inr (make_address s),
     ls @ (case snd (make_address s) of None \<Rightarrow> []
       | Some e \<Rightarrow> [(Err, ''Trying to resolve host: '' @ s @ '' error: '' @ error_message e)]))"
  by (auto simp: resolve_address_def log_line_def sbind_def format_def split: prod.split option.split)

section \<open>The client of one server\<close>

record async_client =
  client_socket :: "string \<times> nat"
  holding :: connection
  withheartbeat :: bool
  client_calls :: "upward list"

definition init_connection :: "bool \<Rightarrow> string \<times> nat \<Rightarrow> connection" where
  "init_connection heartbeat ep =
     construct (if heartbeat then Client_with_heartbeat else Client_connection) (peer_text ep)"

text \<open>The two constructors: from an address and a port, and from a host name and a port.\<close>

definition new_client_socket ::
  "(string \<times> nat \<Rightarrow> string + string \<times> nat) \<Rightarrow> string \<times> nat \<Rightarrow> bool \<Rightarrow> (log_lines, async_client) action" where
  "new_client_socket connect s heartbeat =
     sbind (try_connect connect s) (\<lambda>ep.
     sreturn \<lparr>client_socket = s, holding = init_connection heartbeat ep, withheartbeat = heartbeat,
       client_calls = []\<rparr>)"

definition new_client_host ::
  "(string \<Rightarrow> string \<Rightarrow> string + 'eps) \<Rightarrow> ('eps \<Rightarrow> string + string \<times> nat) \<Rightarrow> string \<Rightarrow> nat \<Rightarrow> bool \<Rightarrow>
    (log_lines, async_client) action" where
  "new_client_host resolve connect hostname port heartbeat =
     sbind (try_resolve resolve hostname (int port)) (\<lambda>eps.
     sbind (try_connect connect eps) (\<lambda>ep.
     sreturn \<lparr>client_socket = (fst ep, port), holding = init_connection heartbeat ep,
       withheartbeat = heartbeat, client_calls = []\<rparr>))"

definition on_holding :: "(connection, unit) action \<Rightarrow> (async_client, unit) action" where
  "on_holding f a = (let (r, c) = f (holding a) in (r, a\<lparr>holding := c\<rparr>))"

definition client_start :: "(async_client, unit) action" where
  "client_start = on_holding do_receive_message"

definition client_send :: "byte list \<Rightarrow> int \<Rightarrow> byte list \<Rightarrow> (async_client, unit) action" where
  "client_send pad conn_id msg = on_holding (do_send_message pad msg)"

definition client_receive :: "int \<Rightarrow> byte list \<Rightarrow> (async_client, unit) action" where
  "client_receive conn_id buf a = (Inr (), a\<lparr>client_calls := client_calls a @ [Up_receive conn_id buf]\<rparr>)"

definition client_event :: "int \<Rightarrow> connection_event \<Rightarrow> (async_client, unit) action" where
  "client_event conn_id e a = (Inr (), a\<lparr>client_calls := client_calls a @ [Up_event conn_id e]\<rparr>)"

definition client_disconnect :: "int \<Rightarrow> (async_client, unit) action" where
  "client_disconnect conn_id = on_holding connection_close"

definition client_stop :: "(async_client, unit) action" where
  "client_stop = sreturn ()"


section \<open>The client of many servers\<close>

text \<open>
  The address book gives the host and port of an id; the connection with an id is established
  when something is first sent to it. \<open>posted\<close> are the calls of \<open>event\<close> that were posted to the
  event loop.
\<close>

record multi_client =
  address_book :: "int \<rightharpoonup> string \<times> int"
  conmanager :: manager
  established :: "int list"
  posted :: "(int \<times> connection_event) list"
  multi_log :: log_lines
  multi_calls :: "upward list"

definition new_multi_client :: "(int \<rightharpoonup> string \<times> int) \<Rightarrow> multi_client" where
  "new_multi_client book =
     \<lparr>address_book = book, conmanager = new_manager_of Client_connection, established = [], posted = [],
      multi_log = [], multi_calls = []\<rparr>"

definition on_manager :: "(manager, unit) action \<Rightarrow> (multi_client, unit) action" where
  "on_manager f mc = (let (r, m) = f (conmanager mc) in (r, mc\<lparr>conmanager := m\<rparr>))"

definition on_log :: "(log_lines, 'a) action \<Rightarrow> (multi_client, 'a) action" where
  "on_log f mc = (let (r, ls) = f (multi_log mc) in (r, mc\<lparr>multi_log := ls\<rparr>))"

text \<open>\<open>address_book[conn_id]\<close> inserts an empty entry for an id it does not have.\<close>

definition book_entry :: "int \<Rightarrow> (multi_client, string \<times> int) action" where
  "book_entry conn_id mc =
     (case address_book mc conn_id of
        Some e \<Rightarrow> (Inr e, mc)
      | None \<Rightarrow> (Inr ([], 0), mc\<lparr>address_book := (address_book mc)(conn_id \<mapsto> ([], 0))\<rparr>))"

definition do_connect ::
  "(string \<Rightarrow> string \<Rightarrow> string + 'eps) \<Rightarrow> ('eps \<Rightarrow> string + string \<times> nat) \<Rightarrow> int \<Rightarrow>
    (multi_client, unit) action" where
  "do_connect resolve connect conn_id =
     sbind (book_entry conn_id) (\<lambda>(hostname, port).
     sbind (on_log (try_resolve resolve hostname port)) (\<lambda>eps.
     sbind (on_log (try_connect connect eps)) (\<lambda>ep.
     sbind (on_manager (new_connection (peer_text ep) conn_id)) (\<lambda>_ mc.
     (Inr (), mc\<lparr>established := List.insert conn_id (established mc)\<rparr>)))))"

definition multi_start :: "(multi_client, unit) action" where
  "multi_start mc = (Inr (), mc\<lparr>posted := posted mc @ [(- 1, Start)]\<rparr>)"

definition multi_stop :: "(multi_client, unit) action" where
  "multi_stop = sreturn ()"

definition multi_send ::
  "(string \<Rightarrow> string \<Rightarrow> string + 'eps) \<Rightarrow> ('eps \<Rightarrow> string + string \<times> nat) \<Rightarrow> byte list \<Rightarrow> int \<Rightarrow>
    byte list \<Rightarrow> (multi_client, unit) action" where
  "multi_send resolve connect pad conn_id msg mc =
     sbind (if conn_id \<notin> set (established mc) then do_connect resolve connect conn_id else sreturn ())
       (\<lambda>_. on_manager (manager_send pad conn_id msg)) mc"

definition multi_disconnect :: "int \<Rightarrow> (multi_client, unit) action" where
  "multi_disconnect conn_id =
     sbind (on_manager (manager_disconnect conn_id)) (\<lambda>_ mc.
     (Inr (), mc\<lparr>established := removeAll conn_id (established mc)\<rparr>))"

definition multi_receive :: "int \<Rightarrow> byte list \<Rightarrow> (multi_client, unit) action" where
  "multi_receive conn_id buf mc = (Inr (), mc\<lparr>multi_calls := multi_calls mc @ [Up_receive conn_id buf]\<rparr>)"

definition multi_event :: "int \<Rightarrow> connection_event \<Rightarrow> (multi_client, unit) action" where
  "multi_event conn_id e mc = (Inr (), mc\<lparr>multi_calls := multi_calls mc @ [Up_event conn_id e]\<rparr>)"

section \<open>The server\<close>

text \<open>
  The state of the acceptor: open and listening or not, and whether an accept is outstanding.
  \<open>local_port\<close> is the port that the system chose, \<open>listen_result\<close> the outcome of opening,
  binding and listening.
\<close>

record async_server =
  server_socket :: "string \<times> nat"
  acceptor_open :: bool
  accepting :: bool
  cmanager :: manager
  server_log :: log_lines

definition new_server :: "string \<times> nat \<Rightarrow> bool \<Rightarrow> async_server" where
  "new_server s heartbeat =
     \<lparr>server_socket = s, acceptor_open = False, accepting = False,
      cmanager = new_manager_of (if heartbeat then Server_with_heartbeat else Server_connection),
      server_log = []\<rparr>"

definition on_cmanager :: "(manager, unit) action \<Rightarrow> (async_server, unit) action" where
  "on_cmanager f s = (let (r, m) = f (cmanager s) in (r, s\<lparr>cmanager := m\<rparr>))"

definition server_log_line :: "level \<Rightarrow> string \<Rightarrow> string list \<Rightarrow> (async_server, unit) action" where
  "server_log_line l fmt args s =
     (let (r, ls) = log_line l fmt args (server_log s) in (r, s\<lparr>server_log := ls\<rparr>))"

definition do_accept :: "(async_server, unit) action" where
  "do_accept s = (Inr (), s\<lparr>accepting := True\<rparr>)"

definition when_accept :: "error_code option \<Rightarrow> string \<times> nat \<Rightarrow> (async_server, unit) action" where
  "when_accept ec peer s =
     (let s = s\<lparr>accepting := False\<rparr>
      in case ec of
           None \<Rightarrow>
             sbind (server_log_line Debug ''Accepting connection from {}'' [fst peer]) (\<lambda>_.
             sbind (on_cmanager (new_connection (peer_text peer) (- 1))) (\<lambda>_.
             do_accept)) s
         | Some Operation_aborted \<Rightarrow> (Inr (), s\<lparr>server_log := server_log s @ [(Debug, ''Acceptor stopped'')]\<rparr>)
         | Some e \<Rightarrow> server_log_line Warn ''Accept failed: {}'' [error_message e] s)"

definition server_stop :: "(async_server, unit) action" where
  "server_stop s = (Inr (), s\<lparr>acceptor_open := False\<rparr>)"

definition server_start ::
  "string option \<Rightarrow> string option \<Rightarrow> string option \<Rightarrow> nat \<Rightarrow> (async_server, unit) action" where
  "server_start open_error bind_error listen_error local_port s =
     (case open_error of
        Some what \<Rightarrow> (Inl (System_error what), s)
      | None \<Rightarrow>
          (let s = s\<lparr>acceptor_open := True\<rparr>
           in case bind_error of
                Some what \<Rightarrow> (Inl (System_error what), s)
              | None \<Rightarrow>
                  (case listen_error of
                     Some what \<Rightarrow> (Inl (System_error what), s)
                   | None \<Rightarrow>
                       do_accept (if snd (server_socket s) = 0
                         then s\<lparr>server_socket := (fst (server_socket s), local_port)\<rparr> else s))))"

section \<open>Properties of the server\<close>

text \<open>A sequence of accepted connections, by their remote addresses.\<close>

fun accept_all :: "(string \<times> nat) list \<Rightarrow> (async_server, unit) action" where
  "accept_all [] s = (Inr (), s)"
| "accept_all (peer # peers) s = sbind (when_accept None peer) (\<lambda>_. accept_all peers) s"

lemma format_accepting:
  "format ''Accepting connection from {}'' [a] = Inr (''Accepting connection from '' @ a)"
  by (simp add: format_def)

lemma when_accept_fresh:
  assumes "conn_room (cmanager s) (Suc n)"
  shows "\<exists>s'. when_accept None peer s = (Inr (), s') \<and> accepting s' \<and> conn_room (cmanager s') n \<and>
    next_id (cmanager s') = next_id (cmanager s) + 1 \<and> mclass (cmanager s') = mclass (cmanager s) \<and>
    holdings (cmanager s') = (holdings (cmanager s))
      (next_id (cmanager s) \<mapsto> Some (started (mclass (cmanager s)) (peer_text peer)))"
  using new_connection_fresh [OF assms, of "peer_text peer"] conn_room_accept [OF assms, of "peer_text peer"]
  by (simp add: when_accept_def server_log_line_def log_line_def on_cmanager_def do_accept_def
      format_accepting sbind_def Let_def)

lemma accept_all_conns:
  "conn_room (cmanager s) (length peers) \<Longrightarrow> accepting s \<Longrightarrow>
    \<exists>s'. accept_all peers s = (Inr (), s') \<and> accepting s' \<and>
      dom (holdings (cmanager s')) = dom (holdings (cmanager s)) \<union>
        {next_id (cmanager s)..<next_id (cmanager s) + int (length peers)} \<and>
      (\<forall>i<next_id (cmanager s). holdings (cmanager s') i = holdings (cmanager s) i) \<and>
      (\<forall>k<length peers. holdings (cmanager s') (next_id (cmanager s) + int k) =
         Some (Some (started (mclass (cmanager s)) (peer_text (peers ! k)))))"
proof (induction peers arbitrary: s)
  case Nil
  then show ?case by simp
next
  case (Cons p ps)
  obtain s1 where s1: "when_accept None p s = (Inr (), s1)" "accepting s1"
      "conn_room (cmanager s1) (length ps)" "next_id (cmanager s1) = next_id (cmanager s) + 1"
      "mclass (cmanager s1) = mclass (cmanager s)"
      "holdings (cmanager s1) = (holdings (cmanager s))
        (next_id (cmanager s) \<mapsto> Some (started (mclass (cmanager s)) (peer_text p)))"
    using when_accept_fresh [of s "length ps" p] Cons.prems(1) by auto
  from Cons.IH [OF s1(3,2)] obtain s2 where s2: "accept_all ps s1 = (Inr (), s2)" "accepting s2"
      "dom (holdings (cmanager s2)) = dom (holdings (cmanager s1)) \<union>
        {next_id (cmanager s1)..<next_id (cmanager s1) + int (length ps)}"
      "\<forall>i<next_id (cmanager s1). holdings (cmanager s2) i = holdings (cmanager s1) i"
      "\<forall>k<length ps. holdings (cmanager s2) (next_id (cmanager s1) + int k) =
         Some (Some (started (mclass (cmanager s1)) (peer_text (ps ! k))))"
    by blast
  have "holdings (cmanager s2) (next_id (cmanager s) + int k) =
      Some (Some (started (mclass (cmanager s)) (peer_text ((p # ps) ! k))))" if "k < length (p # ps)" for k
  proof (cases k)
    case 0
    then show ?thesis using s1(4,6) s2(4) by simp
  next
    case (Suc j)
    with that have "j < length ps" by simp
    with s2(5) Suc s1(4,5) show ?thesis by (simp add: algebra_simps)
  qed
  moreover have "dom (holdings (cmanager s2)) = dom (holdings (cmanager s)) \<union>
        {next_id (cmanager s)..<next_id (cmanager s) + int (length (p # ps))}"
    using s2(3) s1(4,6) by auto
  moreover have "\<forall>i<next_id (cmanager s). holdings (cmanager s2) i = holdings (cmanager s) i"
    using s2(4) s1(4,6) by simp
  ultimately show ?case using s1(1) s2(1,2) by auto
qed

text \<open>
  C35. A server that has started accepts any number of connections that an \<open>int\<close> can count: it
  numbers them 0, 1, 2, ... in the order of arrival, every one gets its own connection that
  waits for a header, none replaces another, and the server goes on accepting. An accept that
  fails ends this for good: no other one is started.
\<close>

theorem server_numbers_connections:
  assumes "int (length peers) \<le> int_max" "server_start None None None p (new_server a h) = (Inr (), s)"
  shows "\<exists>s'. accept_all peers s = (Inr (), s') \<and> accepting s' \<and>
    dom (holdings (cmanager s')) = {0..<int (length peers)} \<and>
    (\<forall>k<length peers. holdings (cmanager s') (int k) =
       Some (Some (started (if h then Server_with_heartbeat else Server_connection) (peer_text (peers ! k))))) \<and>
    (\<exists>r s''. when_accept (Some e) peer s' = (r, s'') \<and> \<not> accepting s'')"
proof -
  have s: "cmanager s = new_manager_of (if h then Server_with_heartbeat else Server_connection)" "accepting s"
    using assms(2) by (auto simp: server_start_def new_server_def do_accept_def Let_def split: if_splits)
  then have "conn_room (cmanager s) (length peers)"
    using assms(1) by (simp add: conn_room_def new_manager_of_def)
  from accept_all_conns [OF this s(2)] obtain s' where "accept_all peers s = (Inr (), s')" "accepting s'"
    "dom (holdings (cmanager s')) = {0..<int (length peers)}"
    "\<forall>k<length peers. holdings (cmanager s') (int k) =
       Some (Some (started (if h then Server_with_heartbeat else Server_connection) (peer_text (peers ! k))))"
    by (auto simp: s(1) new_manager_of_def)
  moreover have "\<exists>r s''. when_accept (Some e) peer s' = (r, s'') \<and> \<not> accepting s''" for s'
    by (cases e) (simp_all add: when_accept_def server_log_line_def split_beta Let_def)
  ultimately show ?thesis by blast
qed

theorem server_numbers_connections_witness:
  "\<exists>s s'. server_start None None None 4000 (new_server (''0.0.0.0'', 0) True) = (Inr (), s) \<and>
    accept_all [(''10.0.0.1'', 5000), (''10.0.0.2'', 5000)] s = (Inr (), s') \<and>
    dom (holdings (cmanager s')) = {0..<2}"
proof -
  have "\<exists>s. server_start None None None 4000 (new_server (''0.0.0.0'', 0) True) = (Inr (), s)"
    by (simp add: server_start_def do_accept_def Let_def)
  then obtain s where s: "server_start None None None 4000 (new_server (''0.0.0.0'', 0) True) = (Inr (), s)" ..
  obtain s' where "accept_all [(''10.0.0.1'', 5000), (''10.0.0.2'', 5000)] s = (Inr (), s')"
      "dom (holdings (cmanager s')) = {0..<2}"
    using server_numbers_connections [OF _ s, of "[(''10.0.0.1'', 5000), (''10.0.0.2'', 5000)]" Eof "([], 0)"]
    by (auto simp: int_max_def simp del: accept_all.simps)
  with s show ?thesis by blast
qed


section \<open>Properties of the client of many servers\<close>

text \<open>Established connections are held.\<close>

definition multi_ok :: "multi_client \<Rightarrow> bool" where
  "multi_ok mc \<longleftrightarrow> (\<forall>i\<in>set (established mc). \<exists>c. holdings (conmanager mc) i = Some (Some c))"

lemma format_connected:
  "format ''Successfully connect to {}'' [a] = Inr (''Successfully connect to '' @ a)"
  by (simp add: format_def)

lemma multi_ok_new: "multi_ok (new_multi_client book)"
  by (simp add: multi_ok_def new_multi_client_def)

lemma on_manager_eq:
  "f (conmanager mc) = (r, m) \<Longrightarrow> on_manager f mc = (r, mc\<lparr>conmanager := m\<rparr>)"
  by (simp add: on_manager_def)

text \<open>Connecting with an id that is free, and with one that is taken.\<close>

lemma do_connect_free:
  assumes "address_book mc i = Some (host, port)" "resolve host (show_int port) = Inr eps"
    "connect eps = Inr ep" "0 \<le> i" "i < int_max" "holdings (conmanager mc) i = None"
  shows "do_connect resolve connect i mc =
    (Inr (), mc\<lparr>multi_log := multi_log mc @ [(Debug, ''Successfully connect to '' @ fst ep)],
      conmanager := (conmanager mc)\<lparr>next_id := i + 1, holdings := (holdings (conmanager mc))
        (i \<mapsto> Some (started (mclass (conmanager mc)) (peer_text ep)))\<rparr>,
      established := List.insert i (established mc)\<rparr>)"
  using assms by (simp add: do_connect_def book_entry_def on_log_def try_resolve_def try_connect_def
      log_line_def format_connected sbind_def on_manager_def new_connection_def started_def Let_def)

lemma do_connect_taken:
  assumes "address_book mc i = Some (host, port)" "resolve host (show_int port) = Inr eps"
    "connect eps = Inr ep" "0 \<le> i" "i < int_max" "holdings (conmanager mc) i \<noteq> None"
  shows "do_connect resolve connect i mc =
    (Inl (Logic_error ''The conn id exist!''),
     mc\<lparr>multi_log := multi_log mc @ [(Debug, ''Successfully connect to '' @ fst ep)],
      conmanager := (conmanager mc)\<lparr>next_id := i + 1\<rparr>\<rparr>)"
  using assms by (simp add: do_connect_def book_entry_def on_log_def try_resolve_def try_connect_def
      log_line_def format_connected sbind_def on_manager_def new_connection_def Let_def)

lemma manager_send_held:
  assumes "holdings m i = Some (Some c)" "do_send_message pad msg c = (Inr (), c')"
  shows "manager_send pad i msg m = (Inr (), m\<lparr>holdings := (holdings m)(i \<mapsto> Some c')\<rparr>)"
  using assms by (simp add: manager_send_def on_connection_def)

lemma do_send_message_ok: "length pad = 3 \<Longrightarrow> \<exists>c'. do_send_message pad msg c = (Inr (), c')"
  by (simp add: do_send_message_eq push_and_write_def do_write_def Let_def)

text \<open>
  Sending through a client of many servers: the first message to an id of the address book
  resolves and connects to the entry of that id, once, and starts to write exactly the frame of
  the message on the new connection; every other connection is untouched, and a further message
  to the id is sent on the same connection without connecting again.
\<close>

theorem multi_send_connects_once:
  assumes "multi_ok mc" "length pad = 3" "address_book mc i = Some (host, port)"
    "resolve host (show_int port) = Inr eps" "connect eps = Inr ep" "0 \<le> i" "i < int_max"
    "holdings (conmanager mc) i = None"
  shows "\<exists>mc1 c1 mc2 c2. multi_send resolve connect pad i msg mc = (Inr (), mc1) \<and> multi_ok mc1 \<and>
    holdings (conmanager mc1) = (holdings (conmanager mc))(i \<mapsto> Some c1) \<and>
    socket_str c1 = peer_text ep \<and> reading c1 = Header_read \<and>
    writing c1 = Some (packet_bytes pad (Message msg), length (packet_bytes pad (Message msg))) \<and>
    multi_send resolve' connect' pad i msg' mc1 = (Inr (), mc2) \<and> multi_ok mc2 \<and>
    multi_log mc2 = multi_log mc1 \<and>
    holdings (conmanager mc2) = (holdings (conmanager mc))(i \<mapsto> Some c2) \<and>
    write_queue c2 = write_queue c1 @ [message_buffers pad msg']"
proof -
  let ?c = "started (mclass (conmanager mc)) (peer_text ep)"
  let ?c1 = "?c\<lparr>write_queue := [message_buffers pad msg],
    writing := Some (packet_bytes pad (Message msg), length (packet_bytes pad (Message msg)))\<rparr>"
  let ?c2 = "?c1\<lparr>write_queue := write_queue ?c1 @ [message_buffers pad msg']\<rparr>"
  have new: "i \<notin> set (established mc)" using assms(1,8) by (auto simp: multi_ok_def)
  have "write_queue ?c = []" using idle_started by (simp add: idle_def)
  then have s1: "do_send_message pad msg ?c = (Inr (), ?c1)"
    by (simp add: do_send_message_eq assms(2) push_idle del: packet_bytes.simps)
  have s2: "do_send_message pad msg' ?c1 = (Inr (), ?c2)"
    by (simp add: do_send_message_eq assms(2) push_busy del: packet_bytes.simps)
  obtain mc0 where conn: "do_connect resolve connect i mc = (Inr (), mc0)"
      and mc0: "mc0 = mc\<lparr>multi_log := multi_log mc @ [(Debug, ''Successfully connect to '' @ fst ep)],
      conmanager := (conmanager mc)\<lparr>next_id := i + 1, holdings := (holdings (conmanager mc))(i \<mapsto> Some ?c)\<rparr>,
      established := List.insert i (established mc)\<rparr>"
    using do_connect_free [where mc = mc and i = i and resolve = resolve and connect = connect, OF assms(3-8)]
    by blast
  let ?mc1 = "mc0\<lparr>conmanager := (conmanager mc0)
    \<lparr>holdings := (holdings (conmanager mc))(i \<mapsto> Some ?c1)\<rparr>\<rparr>"
  let ?mc2 = "?mc1\<lparr>conmanager := (conmanager ?mc1)
    \<lparr>holdings := (holdings (conmanager mc))(i \<mapsto> Some ?c2)\<rparr>\<rparr>"
  have "multi_send resolve connect pad i msg mc = (Inr (), ?mc1)"
    using new conn manager_send_held [OF _ s1, of "conmanager mc0" i]
    by (simp add: multi_send_def on_manager_def mc0 del: packet_bytes.simps)
  moreover have "multi_send resolve' connect' pad i msg' ?mc1 = (Inr (), ?mc2)"
    using manager_send_held [OF _ s2, of "conmanager ?mc1" i]
    by (simp add: multi_send_def on_manager_def mc0 del: packet_bytes.simps)
  moreover have "multi_ok ?mc1" "multi_ok ?mc2"
    using assms(1) by (auto simp: multi_ok_def mc0 simp del: packet_bytes.simps)
  moreover have "socket_str ?c = peer_text ep" "reading ?c = Header_read"
    using ready_started(1) [of "mclass (conmanager mc)" "peer_text ep"]
    by (cases "mclass (conmanager mc)"; simp add: ready_def started_def constructs
        new_connection_state_def checker_start_def sender_start_def emit_def do_receive_message_def)+
  ultimately show ?thesis
    by (intro exI [of _ ?mc1] exI [of _ ?c1] exI [of _ ?mc2] exI [of _ ?c2])
      (simp add: mc0 del: packet_bytes.simps)
qed

definition demo_book :: "int \<rightharpoonup> string \<times> int" where
  "demo_book = [3 \<mapsto> (''node'', 80)]"

theorem multi_send_connects_once_witness:
  "\<exists>mc1. multi_send (\<lambda>h p. Inr h) (\<lambda>eps. Inr (eps, 80)) [0, 0, 0] 3 [9] (new_multi_client demo_book) =
      (Inr (), mc1) \<and> multi_ok mc1"
  using multi_send_connects_once [OF multi_ok_new, of "[0, 0, 0]" demo_book 3 "''node''" 80
      "\<lambda>h p. Inr h" "''node''" "\<lambda>eps. Inr (eps, 80)" "(''node'', 80)" "[9]"]
  by (force simp: new_multi_client_def new_manager_of_def demo_book_def int_max_def)



end
