(* ===== verification/Behavior.thy ===== *)
theory Behavior
  imports Format_Text Log_Levels
begin

text \<open>
  The application side of the network (src/network/behavior.{hpp,cpp}): a model is connected to a
  layer below it by three pointers, and reacts to received messages with the handler of its
  current state. The state record is extended by the concrete models; what a model calls on the
  layer below is recorded in order, and so are its log lines.
\<close>

datatype model_call =
    Call_send int "8 word list"
  | Call_disconnect int
  | Call_stop

record 'q machine =
  current_state :: 'q
  calls :: "model_call list"
  logged :: "(level \<times> string) list"

definition model_send :: "int \<Rightarrow> 8 word list \<Rightarrow> (('q, 'm) machine_scheme, unit) action" where
  "model_send conn_id msg m = (Inr (), m\<lparr>calls := calls m @ [Call_send conn_id msg]\<rparr>)"

definition model_disconnect :: "int \<Rightarrow> (('q, 'm) machine_scheme, unit) action" where
  "model_disconnect conn_id m = (Inr (), m\<lparr>calls := calls m @ [Call_disconnect conn_id]\<rparr>)"

definition model_stop :: "(('q, 'm) machine_scheme, unit) action" where
  "model_stop m = (Inr (), m\<lparr>calls := calls m @ [Call_stop]\<rparr>)"

definition model_log :: "level \<Rightarrow> string \<Rightarrow> (('q, 'm) machine_scheme, unit) action" where
  "model_log l msg m = (Inr (), m\<lparr>logged := logged m @ [(l, msg)]\<rparr>)"

text \<open>\<open>event\<close> ignores all events by default.\<close>

definition model_event :: "int \<Rightarrow> 'e \<Rightarrow> (('q, 'm) machine_scheme, unit) action" where
  "model_event conn_id e = sreturn ()"

definition send_to_server :: "8 word list \<Rightarrow> (('q, 'm) machine_scheme, unit) action" where
  "send_to_server = model_send 0"

definition go_to_state :: "'q \<Rightarrow> (('q, 'm) machine_scheme, unit) action" where
  "go_to_state q m = (Inr (), m\<lparr>current_state := q\<rparr>)"

definition error_state :: "string \<Rightarrow> (('q, 'm) machine_scheme, unit) action" where
  "error_state errmsg = sthrow (Runtime_error errmsg)"

text \<open>
  \<open>run_state\<close> calls the handler the pointer \<open>current_state\<close> points at; \<open>receive\<close> reaches it
  through \<open>logic\<close>, with the buffer of the given length.
\<close>

definition run_state ::
  "('q \<Rightarrow> int \<Rightarrow> 8 word list \<Rightarrow> (('q, 'm) machine_scheme, unit) action) \<Rightarrow> int \<Rightarrow> 8 word list \<Rightarrow>
    (('q, 'm) machine_scheme, unit) action" where
  "run_state handlers conn_id buf m = handlers (current_state m) conn_id buf m"

definition model_logic ::
  "('q \<Rightarrow> int \<Rightarrow> 8 word list \<Rightarrow> (('q, 'm) machine_scheme, unit) action) \<Rightarrow> int \<Rightarrow> 8 word list \<Rightarrow>
    (('q, 'm) machine_scheme, unit) action" where
  "model_logic handlers = run_state handlers"

definition model_receive ::
  "('q \<Rightarrow> int \<Rightarrow> 8 word list \<Rightarrow> (('q, 'm) machine_scheme, unit) action) \<Rightarrow> int \<Rightarrow> 8 word list \<Rightarrow>
    (('q, 'm) machine_scheme, unit) action" where
  "model_receive handlers conn_id buf = model_logic handlers conn_id buf"

lemmas machine_defs = model_log_def model_send_def model_disconnect_def model_stop_def go_to_state_def
  error_state_def send_to_server_def run_state_def model_logic_def model_receive_def

end
