(* ===== verification/Coordinator_Worker.thy ===== *)
theory Coordinator_Worker
  imports Behavior Runtime_Protocol "HOL-Library.AList"
begin

text \<open>
  The start-up protocol (src/coordinator.cpp, include/coordinator.hpp, src/place.hpp): every
  worker connects and presents its cookie; the coordinator answers each legal cookie with an OK,
  and when all workers are registered sends all of them the map of the workers and stops.

  An \<open>unordered_map\<close> is an association list with distinct keys; its order of iteration is the
  library's and comes in only where the code iterates.
\<close>

section \<open>What the platform decides\<close>

text \<open>
  The limits of the containers, the content of an uninitialised port, the order of iteration over
  the keys of an \<open>unordered_map\<close>, and the text that \<open>operator<<\<close> writes for the enumeration of the
  message types, which has an underlying type of one byte.
\<close>

record platform =
  max_size :: "ty \<Rightarrow> nat"
  fresh_port :: "16 word"
  order_of :: "int list \<Rightarrow> int list"
  enum_text :: "byte \<Rightarrow> string"

definition platform_ok :: "platform \<Rightarrow> bool" where
  "platform_ok p \<longleftrightarrow> size_limits (max_size p) \<and>
     (\<forall>ks. distinct ks \<longrightarrow> distinct (order_of p ks) \<and> set (order_of p ks) = set ks)"

section \<open>The coordinator\<close>

datatype coordinator_state = Firstconnection_state | Peersinfo_state

record place_obj =
  rank :: int
  is_local :: bool

record coordinator = "coordinator_state machine" +
  cookies :: "first_con_cookie list"
  workers :: "(int \<times> place_obj) list"
  worker_infos :: "(int \<times> worker_info) list"
  worker_num :: nat

text \<open>The operations of the \<open>unordered_set\<close> of cookies; equality is \<open>operator==\<close>.\<close>

definition cookie_count :: "first_con_cookie \<Rightarrow> first_con_cookie list \<Rightarrow> nat" where
  "cookie_count c cs = length (filter (cookie_eq c) cs)"

definition cookie_insert :: "first_con_cookie \<Rightarrow> first_con_cookie list \<Rightarrow> first_con_cookie list" where
  "cookie_insert c cs = (if cookie_count c cs = 0 then cs @ [c] else cs)"

definition cookie_erase :: "first_con_cookie \<Rightarrow> first_con_cookie list \<Rightarrow> first_con_cookie list" where
  "cookie_erase c cs = filter (\<lambda>d. \<not> cookie_eq c d) cs"

text \<open>
  The constructor draws the cookies from the generator and passes them to \<open>send_cookie\<close>, which may
  throw.
\<close>

definition coordinator_new ::
  "(nat \<Rightarrow> byte) \<Rightarrow> nat \<Rightarrow> (first_con_cookie list \<Rightarrow> unit res) \<Rightarrow> coordinator res" where
  "coordinator_new dis worker_size send_cookie =
     (let cs = foldl (\<lambda>cs i. cookie_insert (random_cookie (\<lambda>j. dis (i * data_len + j))) cs) [] [0..<worker_size]
      in rbind (send_cookie cs) (\<lambda>_.
         Inr \<lparr>current_state = Firstconnection_state, calls = [], logged = [], cookies = cs, workers = [],
           worker_infos = [], worker_num = worker_size\<rparr>))"

definition assert_message_type ::
  "platform \<Rightarrow> byte list \<Rightarrow> message_type \<Rightarrow> (('q, 'm) machine_scheme, unit) action" where
  "assert_message_type p buf expected =
     sbind (slift (read_header_messagetype (max_size p) buf)) (\<lambda>received.
     if received = message_code expected then sreturn ()
     else
       sbind (slift (format ''Unexpected Message: expected {} but received {}''
           [enum_text p (message_code expected), enum_text p received])) (\<lambda>msg.
       sbind (model_log Fatal msg) (\<lambda>_.
       error_state msg)))"

fun send_each :: "int list \<Rightarrow> byte list \<Rightarrow> (('q, 'm) machine_scheme, unit) action" where
  "send_each [] buf = sreturn ()"
| "send_each (dest # ds) buf = sbind (model_send dest buf) (\<lambda>_. send_each ds buf)"

definition broadcast :: "platform \<Rightarrow> byte list \<Rightarrow> (coordinator, unit) action" where
  "broadcast p buf s = send_each (order_of p (map fst (workers s))) buf s"

definition info_map :: "platform \<Rightarrow> (int \<times> worker_info) list \<Rightarrow> worker_info_map" where
  "info_map p infos = map (\<lambda>k. (of_int k, the (map_of infos k))) (order_of p (map fst infos))"

definition register_worker :: "int \<Rightarrow> firsconnection \<Rightarrow> (coordinator, unit) action" where
  "register_worker conn_id f s =
     (let s = s\<lparr>cookies := cookie_erase (firstcookie f) (cookies s),
            workers := AList.update conn_id \<lparr>rank = conn_id, is_local = False\<rparr> (workers s),
            worker_infos := AList.update conn_id (fc_worker_info f) (worker_infos s)\<rparr>
      in sbind (slift (format ''Worker {} registered.'' [show_int conn_id])) (\<lambda>m.
         sbind (model_log Info m) (\<lambda>_.
         sbind (slift firsconnection_ok_to_buffer) (model_send conn_id))) s)"

text \<open>When all workers are registered, they are told about each other.\<close>

definition complete_registration :: "platform \<Rightarrow> (coordinator, unit) action" where
  "complete_registration p s =
     (if length (workers s) = worker_num s then
       sbind (model_log Info ''All worker registered.'') (\<lambda>_.
       sbind (go_to_state Peersinfo_state) (\<lambda>_.
       sbind (slift (worker_info_map_to_buffer (info_map p (worker_infos s)))) (\<lambda>buf.
       sbind (broadcast p buf) (\<lambda>_.
       model_stop)))) s
     else (Inr (), s))"

definition firstconnection :: "platform \<Rightarrow> int \<Rightarrow> byte list \<Rightarrow> (coordinator, unit) action" where
  "firstconnection p conn_id buf =
     sbind (assert_message_type p buf Firstconnection) (\<lambda>_.
     sbind (slift (firsconnection_from_buffer (max_size p) (fresh_port p) buf)) (\<lambda>f.
     sbind (\<lambda>s.
         if cookie_count (firstcookie f) (cookies s) = 0 then
           sbind (model_log Warn ''Recevied cookie illegal!'') (\<lambda>_. model_disconnect conn_id) s
         else register_worker conn_id f s) (\<lambda>_.
     complete_registration p)))"

definition peersinfo :: "int \<Rightarrow> byte list \<Rightarrow> (coordinator, unit) action" where
  "peersinfo conn_id buf = sreturn ()"

fun coordinator_handlers :: "platform \<Rightarrow> coordinator_state \<Rightarrow> int \<Rightarrow> byte list \<Rightarrow> (coordinator, unit) action" where
  "coordinator_handlers p Firstconnection_state = firstconnection p"
| "coordinator_handlers p Peersinfo_state = peersinfo"

section \<open>The worker\<close>

datatype worker_state = Firstconnection_ok_state | Recv_worker_info_state

record worker_deamon = "worker_state machine" +
  fc_cookie :: first_con_cookie
  own_info :: worker_info

definition worker_new :: "string \<Rightarrow> worker_info \<Rightarrow> worker_deamon res" where
  "worker_new cookie info =
     rbind (cookie_of_printable cookie) (\<lambda>c.
     Inr \<lparr>current_state = Firstconnection_ok_state, calls = [], logged = [], fc_cookie = c, own_info = info\<rparr>)"

definition init_logic :: "(worker_deamon, unit) action" where
  "init_logic s =
     sbind (slift (firsconnection_to_buffer \<lparr>firstcookie = fc_cookie s, fc_worker_info = own_info s\<rparr>))
       send_to_server s"

definition firstconnection_ok :: "platform \<Rightarrow> int \<Rightarrow> byte list \<Rightarrow> (worker_deamon, unit) action" where
  "firstconnection_ok p conn_id buf =
     sbind (assert_message_type p buf Firstconnectionok) (\<lambda>_.
     sbind (model_log Info ''Successfully connected to the coordinator.'') (\<lambda>_.
     go_to_state Recv_worker_info_state))"

definition join_text :: "string list \<Rightarrow> string" where
  "join_text items = bytes_str (concat (string_join 1 (map (\<lambda>s. map (\<lambda>b. [b]) (str_bytes s)) items) []))"

definition peer_items :: "platform \<Rightarrow> worker_info_map \<Rightarrow> string list" where
  "peer_items p m =
     (let kvs = map (\<lambda>(k, w). (sint k, w)) m
      in concat (map (\<lambda>k. [show_int k, to_string (data_server (the (map_of kvs k))), '', ''])
           (order_of p (map fst kvs))))"

definition recv_worker_info :: "platform \<Rightarrow> int \<Rightarrow> byte list \<Rightarrow> (worker_deamon, unit) action" where
  "recv_worker_info p conn_id buf =
     sbind (slift (worker_info_map_from_buffer (max_size p) buf)) (\<lambda>w_info.
     sbind (model_log Info ''Received peer info.'') (\<lambda>_.
     sbind (slift (format ''Peer addresses: {}'' [join_text (peer_items p w_info)])) (\<lambda>m.
     sbind (model_log Debug m) (\<lambda>_.
     sbind (model_disconnect conn_id) (\<lambda>_.
     model_stop)))))"

fun worker_handlers :: "platform \<Rightarrow> worker_state \<Rightarrow> int \<Rightarrow> byte list \<Rightarrow> (worker_deamon, unit) action" where
  "worker_handlers p Firstconnection_ok_state = firstconnection_ok p"
| "worker_handlers p Recv_worker_info_state = recv_worker_info p"

text \<open>The messages a model receives, in order.\<close>

fun receive_all ::
  "('q \<Rightarrow> int \<Rightarrow> byte list \<Rightarrow> (('q, 'm) machine_scheme, unit) action) \<Rightarrow> (int \<times> byte list) list \<Rightarrow>
    (('q, 'm) machine_scheme, unit) action" where
  "receive_all handlers [] = sreturn ()"
| "receive_all handlers ((i, buf) # ms) =
     sbind (model_receive handlers i buf) (\<lambda>_. receive_all handlers ms)"


section \<open>The handlers on the messages of the protocol\<close>

lemma format_registered: "format ''Worker {} registered.'' [s] = Inr (''Worker '' @ s @ '' registered.'')"
  by (simp add: format_def)

lemma format_peers: "format ''Peer addresses: {}'' [s] = Inr (''Peer addresses: '' @ s)"
  by (simp add: format_def)

lemma format_unexpected:
  "format ''Unexpected Message: expected {} but received {}'' [a, b] =
   Inr (''Unexpected Message: expected '' @ a @ '' but received '' @ b)"
  by (simp add: format_def)

lemma assert_message_type_Cons:
  "assert_message_type p (b # bs) expected s =
     (if b = message_code expected then (Inr (), s)
      else
        (let m = ''Unexpected Message: expected '' @ enum_text p (message_code expected) @
           '' but received '' @ enum_text p b
         in (Inl (Runtime_error m), s\<lparr>logged := logged s @ [(Fatal, m)]\<rparr>)))"
  by (simp add: assert_message_type_def read_header_Cons format_unexpected machine_defs sbind_def Let_def)

lemma ok_buffer: "firsconnection_ok_to_buffer = Inr [1]"
proof -
  have "message_ok std_max_size firsconnection_ok_ty firsconnection_ok_val"
    by (simp add: message_ok_def firsconnection_ok_ty_def firsconnection_ok_val_def)
  from to_buffer_flat [OF this, of Firstconnectionok] show ?thesis
    by (simp add: firsconnection_ok_to_buffer_def firsconnection_ok_val_def)
qed

lemma first_buffer:
  assumes "cookie_ok (firstcookie f)"
  shows "firsconnection_to_buffer f = Inr (0 # flat (firsconnection_val f))"
  using to_buffer_flat [OF firsconnection_message_ok [OF assms], of Firstconnection]
  by (simp add: firsconnection_to_buffer_def)

lemma first_buffer_read:
  assumes "size_limits msz" "cookie_ok (firstcookie f)"
  shows "firsconnection_from_buffer msz port0 (0 # flat (firsconnection_val f)) =
    Inr (f\<lparr>fc_worker_info := default_worker_info port0\<rparr>)"
  using from_buffer_flat [OF assms(1) firsconnection_message_ok [OF assms(2)],
      of Firstconnection Firstconnection "[]"]
  by (simp add: firsconnection_from_buffer_def)

lemma map_buffer:
  assumes "worker_info_map_ok msz m"
  shows "worker_info_map_to_buffer m = Inr (2 # flat (worker_info_map_val m))"
  using to_buffer_flat [OF worker_info_map_message_ok [OF assms], of Peersinfo]
  by (simp add: worker_info_map_to_buffer_def)

lemma map_buffer_read:
  assumes "size_limits msz" "worker_info_map_ok msz m"
  shows "worker_info_map_from_buffer msz (2 # flat (worker_info_map_val m)) = Inr m"
  using from_buffer_flat [OF assms(1) worker_info_map_message_ok [OF assms(2)],
      of Peersinfo Peersinfo "[]"]
  by (simp add: worker_info_map_from_buffer_def)

lemma send_each_eq: "send_each ds buf s = (Inr (), s\<lparr>calls := calls s @ map (\<lambda>d. Call_send d buf) ds\<rparr>)"
  by (induction ds arbitrary: s) (simp_all add: machine_defs sbind_def)

lemma update_new: "k \<notin> set (map fst al) \<Longrightarrow> AList.update k v al = al @ [(k, v)]"
  by (induction al) auto

lemma update_length_le: "length (AList.update k v al) \<le> Suc (length al)"
  by (induction al) auto

lemma update_length_old: "k \<in> set (map fst al) \<Longrightarrow> length (AList.update k v al) = length al"
  by (induction al) auto

lemma cookie_count_iff:
  assumes "cookie_ok c" "list_all cookie_ok cs"
  shows "cookie_count c cs = 0 \<longleftrightarrow> c \<notin> set cs"
  using assms by (auto simp: cookie_count_def filter_empty_conv list_all_iff cookie_eq_iff)

lemma cookie_erase_eq:
  assumes "cookie_ok c" "list_all cookie_ok cs"
  shows "cookie_erase c cs = removeAll c cs"
  using assms by (induction cs) (auto simp: cookie_erase_def cookie_eq_iff)

text \<open>What a legal and an illegal cookie do before the test for completeness.\<close>

definition registered :: "platform \<Rightarrow> int \<Rightarrow> first_con_cookie \<Rightarrow> coordinator \<Rightarrow> coordinator" where
  "registered p i c s = s\<lparr>cookies := cookie_erase c (cookies s),
     workers := AList.update i \<lparr>rank = i, is_local = False\<rparr> (workers s),
     worker_infos := AList.update i (default_worker_info (fresh_port p)) (worker_infos s),
     logged := logged s @ [(Info, ''Worker '' @ show_int i @ '' registered.'')],
     calls := calls s @ [Call_send i [1]]\<rparr>"

definition refused :: "int \<Rightarrow> coordinator \<Rightarrow> coordinator" where
  "refused i s = s\<lparr>logged := logged s @ [(Warn, ''Recevied cookie illegal!'')],
     calls := calls s @ [Call_disconnect i]\<rparr>"

lemma register_worker_eq:
  "register_worker i (f\<lparr>fc_worker_info := default_worker_info (fresh_port p)\<rparr>) s =
    (Inr (), registered p i (firstcookie f) s)"
  by (simp add: register_worker_def registered_def format_registered ok_buffer machine_defs sbind_def Let_def)

lemma firstconnection_first:
  assumes "platform_ok p" "cookie_ok (firstcookie f)" "firsconnection_to_buffer f = Inr buf"
  shows "firstconnection p i buf s =
    complete_registration p
      (if cookie_count (firstcookie f) (cookies s) = 0 then refused i s else registered p i (firstcookie f) s)"
proof -
  have buf: "buf = 0 # flat (firsconnection_val f)" using first_buffer [OF assms(2)] assms(3) by simp
  have read: "firsconnection_from_buffer (max_size p) (fresh_port p) buf =
      Inr (f\<lparr>fc_worker_info := default_worker_info (fresh_port p)\<rparr>)"
    using first_buffer_read [OF _ assms(2)] assms(1) by (simp add: buf platform_ok_def)
  have "assert_message_type p buf Firstconnection s = (Inr (), s)"
    by (simp add: buf assert_message_type_Cons)
  then show ?thesis
    by (simp add: firstconnection_def read register_worker_eq refused_def machine_defs sbind_def)
qed


section \<open>Registration\<close>

text \<open>The cookies that the constructor draws, and the messages by which workers present them.\<close>

lemma cookie_insert_ok:
  assumes "list_all cookie_ok cs" "distinct cs" "cookie_ok c"
  shows "list_all cookie_ok (cookie_insert c cs) \<and> distinct (cookie_insert c cs)"
  using assms cookie_count_iff [OF assms(3,1)] by (simp add: cookie_insert_def)

lemma coordinator_new_cookies:
  assumes "coordinator_new dis n send_cookie = Inr s"
  shows "list_all cookie_ok (cookies s) \<and> distinct (cookies s)"
proof -
  have "list_all cookie_ok (foldl (\<lambda>cs i. cookie_insert (g i) cs) cs is) \<and>
      distinct (foldl (\<lambda>cs i. cookie_insert (g i) cs) cs is)"
    if "\<And>i :: nat. cookie_ok (g i)" "list_all cookie_ok cs" "distinct cs" for g cs "is"
    using that(2,3)
  proof (induction "is" arbitrary: cs)
    case (Cons i "is")
    from cookie_insert_ok [OF Cons.prems that(1)] show ?case using Cons.IH by simp
  qed simp
  with assms show ?thesis by (auto simp: coordinator_new_def res_iff random_cookie_ok Let_def)
qed

definition first_message :: "int \<times> firsconnection \<Rightarrow> int \<times> byte list" where
  "first_message r = (fst r, case firsconnection_to_buffer (snd r) of Inr buf \<Rightarrow> buf | Inl e \<Rightarrow> [])"

lemma receive_first_message:
  assumes "platform_ok p" "cookie_ok (firstcookie f)" "current_state s = Firstconnection_state"
  shows "model_receive (coordinator_handlers p) i (snd (first_message (i, f))) s =
    complete_registration p
      (if cookie_count (firstcookie f) (cookies s) = 0 then refused i s else registered p i (firstcookie f) s)"
  using assms firstconnection_first [OF assms(1,2)] first_buffer [OF assms(2)]
  by (simp add: machine_defs first_message_def)

text \<open>The state after a list of registrations on connections that are new to the coordinator.\<close>

fun register_all :: "platform \<Rightarrow> (int \<times> firsconnection) list \<Rightarrow> coordinator \<Rightarrow> coordinator" where
  "register_all p [] s = s"
| "register_all p ((i, f) # rs) s = register_all p rs (registered p i (firstcookie f) s)"

lemma register_all_fields:
  assumes "distinct (map fst rs)"
  shows "set (map fst rs) \<inter> set (map fst (workers s)) = {} \<Longrightarrow> map fst (worker_infos s) = map fst (workers s) \<Longrightarrow>
    workers (register_all p rs s) = workers s @ map (\<lambda>(i, f). (i, \<lparr>rank = i, is_local = False\<rparr>)) rs \<and>
    worker_infos (register_all p rs s) =
      worker_infos s @ map (\<lambda>(i, f). (i, default_worker_info (fresh_port p))) rs \<and>
    calls (register_all p rs s) = calls s @ map (\<lambda>(i, f). Call_send i [1]) rs \<and>
    worker_num (register_all p rs s) = worker_num s \<and>
    current_state (register_all p rs s) = current_state s"
  using assms
proof (induction rs arbitrary: s)
  case (Cons r rs)
  obtain i f where r: "r = (i, f)" by (rule prod.exhaust)
  have n: "i \<notin> set (map fst (workers s))" "i \<notin> set (map fst (worker_infos s))"
    using Cons.prems r by auto
  let ?s = "registered p i (firstcookie f) s"
  have f: "workers ?s = workers s @ [(i, \<lparr>rank = i, is_local = False\<rparr>)]"
      "worker_infos ?s = worker_infos s @ [(i, default_worker_info (fresh_port p))]"
      "calls ?s = calls s @ [Call_send i [1]]" "worker_num ?s = worker_num s"
      "current_state ?s = current_state s"
    by (simp_all only: registered_def update_new [OF n(1)] update_new [OF n(2)]) simp_all
  have "set (map fst rs) \<inter> set (map fst (workers ?s)) = {}" "map fst (worker_infos ?s) = map fst (workers ?s)"
      "distinct (map fst rs)"
    using Cons.prems f r by auto
  from Cons.IH [OF this] f show ?case by (simp add: r)
qed simp

lemma register_all_cookies:
  assumes "list_all cookie_ok (cookies s)" "list_all (\<lambda>r. cookie_ok (firstcookie (snd r))) rs"
  shows "cookies (register_all p rs s) = filter (\<lambda>c. c \<notin> (firstcookie \<circ> snd) ` set rs) (cookies s)"
  using assms
proof (induction rs arbitrary: s)
  case (Cons r rs)
  obtain i f where r: "r = (i, f)" by (rule prod.exhaust)
  let ?s = "registered p i (firstcookie f) s"
  have "cookies ?s = removeAll (firstcookie f) (cookies s)"
    using Cons.prems r cookie_erase_eq by (simp add: registered_def)
  then have "list_all cookie_ok (cookies ?s)" using Cons.prems(1) by (auto simp: list_all_iff)
  moreover have "removeAll c cs = filter (\<lambda>d. c \<noteq> d) cs" for c :: first_con_cookie and cs
    by (simp add: removeAll_filter_not_eq)
  ultimately show ?case
    using Cons r \<open>cookies ?s = removeAll (firstcookie f) (cookies s)\<close>
    by (auto simp: removeAll_filter_not_eq intro!: filter_cong)
qed simp

lemma receive_registrations:
  assumes "platform_ok p"
  shows "rs \<noteq> [] \<Longrightarrow> current_state s = Firstconnection_state \<Longrightarrow> list_all cookie_ok (cookies s) \<Longrightarrow>
    distinct (map (firstcookie \<circ> snd) rs) \<Longrightarrow> set (map (firstcookie \<circ> snd) rs) \<subseteq> set (cookies s) \<Longrightarrow>
    distinct (map fst rs) \<Longrightarrow> set (map fst rs) \<inter> set (map fst (workers s)) = {} \<Longrightarrow>
    length (workers s) + length rs \<le> worker_num s \<Longrightarrow>
    receive_all (coordinator_handlers p) (map first_message rs) s =
      complete_registration p (register_all p rs s)"
proof (induction rs arbitrary: s)
  case (Cons r rs)
  obtain i f where r: "r = (i, f)" by (rule prod.exhaust)
  let ?s = "registered p i (firstcookie f) s"
  have c: "cookie_ok (firstcookie f)" "cookie_count (firstcookie f) (cookies s) \<noteq> 0"
  proof -
    have "firstcookie f \<in> set (cookies s)" using Cons.prems(5) r by simp
    moreover from this show ok: "cookie_ok (firstcookie f)" using Cons.prems(3) by (simp add: list_all_iff)
    ultimately show "cookie_count (firstcookie f) (cookies s) \<noteq> 0"
      using cookie_count_iff [OF ok Cons.prems(3)] by simp
  qed
  have cs: "cookies ?s = removeAll (firstcookie f) (cookies s)"
    using cookie_erase_eq [OF c(1) Cons.prems(3)] by (simp add: registered_def)
  have w: "workers ?s = workers s @ [(i, \<lparr>rank = i, is_local = False\<rparr>)]"
    using update_new [of i "workers s"] Cons.prems(7) r by (simp add: registered_def)
  obtain buf where m: "first_message (i, f) = (i, buf)" by (simp add: first_message_def)
  have step: "model_receive (coordinator_handlers p) i buf s = complete_registration p ?s"
    using receive_first_message [OF assms c(1) Cons.prems(2), of i] c(2) m by simp
  show ?case
  proof (cases "rs = []")
    case True
    have "sbind m (\<lambda>_. sreturn ()) s = m s" for m :: "(coordinator, unit) action" and s
      by (simp add: sbind_def split: prod.split sum.split)
    with True step show ?thesis by (simp add: r m)
  next
    case False
    then have "0 < length rs" by simp
    then have "length (workers ?s) \<noteq> worker_num ?s"
      using Cons.prems(8) unfolding w by (simp add: registered_def del: length_greater_0_conv)
    then have "complete_registration p ?s = (Inr (), ?s)" by (simp add: complete_registration_def)
    moreover have "receive_all (coordinator_handlers p) (map first_message rs) ?s =
        complete_registration p (register_all p rs ?s)"
    proof (intro Cons.IH)
      have "firstcookie f \<notin> set (map (firstcookie \<circ> snd) rs)"
          "set (map (firstcookie \<circ> snd) rs) \<subseteq> set (cookies s)"
        using Cons.prems(4,5) r by simp_all
      then show "set (map (firstcookie \<circ> snd) rs) \<subseteq> set (cookies ?s)" unfolding cs set_removeAll by blast
      show "list_all cookie_ok (cookies ?s)" using Cons.prems(3) unfolding cs by (simp add: list_all_iff)
      show "set (map fst rs) \<inter> set (map fst (workers ?s)) = {}" using Cons.prems(6,7) r unfolding w by auto
      show "length (workers ?s) + length rs \<le> worker_num ?s"
        using Cons.prems(8) unfolding w by (simp add: registered_def)
    qed (use Cons.prems False in \<open>simp_all add: registered_def\<close>)
    ultimately show ?thesis using step by (simp add: r m)
  qed
qed simp


text \<open>Connection ids as the server gives them fit into an \<open>int\<close>.\<close>

definition id_ok :: "int \<Rightarrow> bool" where
  "id_ok i \<longleftrightarrow> 0 \<le> i \<and> i < 2 ^ 31"

lemma id_ok_word: "id_ok i \<Longrightarrow> sint (of_int i :: conn_id) = i"
  by (simp add: id_ok_def signed_of_int signed_take_bit_int_eq_self)

lemma id_ok_count: "distinct is \<Longrightarrow> list_all id_ok is \<Longrightarrow> length is \<le> 2 ^ 31"
proof -
  assume *: "distinct is" "list_all id_ok is"
  have "length is = card (set is)" using *(1) by (simp add: distinct_card)
  also have "\<dots> \<le> card {0..<(2::int) ^ 31}"
    using *(2) by (intro card_mono) (auto simp: list_all_iff id_ok_def)
  finally show ?thesis by simp
qed

lemma info_map_default:
  assumes "platform_ok p" "distinct is" "list_all id_ok is"
    and "infos = map (\<lambda>i. (i, default_worker_info x)) is"
  shows "info_map p infos = map (\<lambda>i. (of_int i, default_worker_info x)) (order_of p is)"
    and "worker_info_map_ok msz (info_map p infos)"
proof -
  have o: "distinct (order_of p is)" "set (order_of p is) = set is"
    using assms(1,2) by (simp_all add: platform_ok_def)
  have "map_of infos i = Some (default_worker_info x)" if "i \<in> set is" for i
    using that assms(4) by (simp add: map_of_map_restrict restrict_map_def)
  moreover have "map fst infos = is" by (simp add: assms(4) comp_def)
  ultimately show eq: "info_map p infos = map (\<lambda>i. (of_int i, default_worker_info x)) (order_of p is)"
    using o(2) by (simp add: info_map_def)
  have "inj_on (of_int :: int \<Rightarrow> conn_id) (set is)"
    using assms(3) id_ok_word by (intro inj_on_inverseI [of _ sint]) (simp add: list_all_iff)
  with o have d: "distinct (map (of_int :: int \<Rightarrow> conn_id) (order_of p is))"
    by (simp add: distinct_map)
  have "length (order_of p is) = length is" using o assms(2) by (metis distinct_card)
  then have l: "length (order_of p is) \<le> 2 ^ 31" using id_ok_count [OF assms(2,3)] by simp
  have "sum_list (map (\<lambda>(k :: conn_id, w). 14 + length (addr (data_server w)))
      (map (\<lambda>i. (of_int i, default_worker_info x)) is')) = 14 * length is'" for "is'" :: "int list"
    by (induction "is'") (simp_all add: default_worker_info_def)
  with d l show "worker_info_map_ok msz (info_map p infos)"
    by (simp add: worker_info_map_ok_def eq comp_def list_all_iff default_worker_info_def)
qed

text \<open>
  The buffer of the map of \<open>n\<close> workers, as the coordinator sends it: one byte of message type,
  eight of length and fourteen for every worker, whose address is empty.
\<close>

lemma startup_map_length:
  assumes "platform_ok p" "distinct is" "list_all id_ok is"
    and "infos = map (\<lambda>i. (i, default_worker_info x)) is"
    and "worker_info_map_to_buffer (info_map p infos) = Inr buf"
  shows "length buf = 9 + 14 * length is"
proof -
  note map = info_map_default [OF assms(1-4)]
  have "length (order_of p is) = length is"
    using assms(1,2) by (metis distinct_card platform_ok_def)
  moreover have "sum_list (map (\<lambda>(k :: conn_id, w). 14 + length (addr (data_server w)))
      (map (\<lambda>i. (of_int i, default_worker_info x)) js)) = 14 * length js" for js :: "int list"
    by (induction js) (simp_all add: default_worker_info_def)
  ultimately have "length (flat (worker_info_map_val (info_map p infos))) = 8 + 14 * length is"
    using length_peer_map [of "info_map p infos"] by (simp add: worker_info_map_val_def map(1))
  with map_buffer [OF map(2)] assms(5) show ?thesis by simp
qed

lemma complete_registration_full:
  assumes "platform_ok p" "length (workers s) = worker_num s" "worker_info_map_ok msz (info_map p (worker_infos s))"
    "worker_info_map_to_buffer (info_map p (worker_infos s)) = Inr buf"
  shows "\<exists>ls. complete_registration p s = (Inr (), s\<lparr>current_state := Peersinfo_state, logged := ls,
     calls := calls s @ map (\<lambda>d. Call_send d buf) (order_of p (map fst (workers s))) @ [Call_stop]\<rparr>)"
  using assms by (intro exI [of _ "logged s @ [(Info, ''All worker registered.'')]"])
    (simp add: complete_registration_def machine_defs sbind_def broadcast_def send_each_eq)


text \<open>A platform as an example: the order of iteration is that of the insertions.\<close>

definition demo_platform :: platform where
  "demo_platform = \<lparr>max_size = std_max_size, fresh_port = 3, order_of = (\<lambda>ks. ks), enum_text = (\<lambda>b. [])\<rparr>"

lemma demo_platform_ok: "platform_ok demo_platform"
  by (simp add: demo_platform_def platform_ok_def std_max_size_limits)

definition demo_dis :: "nat \<Rightarrow> byte" where
  "demo_dis j = of_nat (j div 16)"

definition demo_cookie :: "byte \<Rightarrow> first_con_cookie" where
  "demo_cookie b = \<lparr>cookie_data = replicate 16 b\<rparr>"

definition demo_info :: worker_info where
  "demo_info = \<lparr>data_server = \<lparr>port = 80, addr = ''node''\<rparr>\<rparr>"

lemma demo_cookies_differ: "demo_cookie 1 \<noteq> demo_cookie 0" "demo_cookie 0 \<noteq> demo_cookie 1"
  by (simp_all add: demo_cookie_def numeral_eq_Suc)

lemma demo_coordinator:
  "\<exists>s. coordinator_new demo_dis 2 (\<lambda>_. Inr ()) = Inr s \<and> cookies s = [demo_cookie 0, demo_cookie 1]"
proof -
  have demo_div: "(16 + i) div 16 = 1" if "i < 16" for i :: nat using that by arith
  have "random_cookie (\<lambda>j. demo_dis (0 * data_len + j)) = demo_cookie 0"
      "random_cookie (\<lambda>j. demo_dis (1 * data_len + j)) = demo_cookie 1"
    using demo_div by (auto simp: random_cookie_def demo_dis_def demo_cookie_def data_len_def intro!: nth_equalityI)
  moreover have "[0..<2] = [0, 1::nat]" by (simp add: upt_rec)
  moreover have "cookie_insert (demo_cookie 1) (cookie_insert (demo_cookie 0) []) = [demo_cookie 0, demo_cookie 1]"
  proof -
    have "cookie_ok (demo_cookie b)" for b by (simp add: cookie_ok_def demo_cookie_def data_len_def)
    then show ?thesis by (simp add: cookie_insert_def cookie_count_iff demo_cookies_differ)
  qed
  ultimately show ?thesis by (simp add: coordinator_new_def Let_def)
qed

definition demo_regs :: "(int \<times> firsconnection) list" where
  "demo_regs = [(5, \<lparr>firstcookie = demo_cookie 1, fc_worker_info = demo_info\<rparr>),
     (3, \<lparr>firstcookie = demo_cookie 0, fc_worker_info = demo_info\<rparr>)]"



text \<open>
  What the coordinator refuses: a well-formed first message with a cookie it does not know (or
  that was already used) disconnects exactly this connection and changes no table; a message of
  another type throws out of the handler, with the tables unchanged and nothing sent.
\<close>

theorem coordinator_refuses:
  assumes "platform_ok p" "current_state s = Firstconnection_state" "list_all cookie_ok (cookies s)"
    and "length (workers s) \<noteq> worker_num s" "cookie_ok (firstcookie f)" "firstcookie f \<notin> set (cookies s)"
  shows "(\<exists>s'. receive_all (coordinator_handlers p) [first_message (i, f)] s = (Inr (), s') \<and>
      calls s' = calls s @ [Call_disconnect i] \<and> current_state s' = Firstconnection_state \<and>
      cookies s' = cookies s \<and> workers s' = workers s \<and> worker_infos s' = worker_infos s) \<and>
    (b \<noteq> message_code Firstconnection \<longrightarrow>
      (\<exists>e s'. receive_all (coordinator_handlers p) [(i, b # bs)] s = (Inl (Runtime_error e), s') \<and>
         calls s' = calls s \<and> current_state s' = Firstconnection_state \<and>
         cookies s' = cookies s \<and> workers s' = workers s \<and> worker_infos s' = worker_infos s))"
proof -
  obtain buf where m: "first_message (i, f) = (i, buf)" by (simp add: first_message_def)
  have "cookie_count (firstcookie f) (cookies s) = 0" using cookie_count_iff assms(3,5,6) by simp
  moreover have "complete_registration p (refused i s) = (Inr (), refused i s)"
    using assms(4) by (simp add: complete_registration_def refused_def)
  ultimately have "model_receive (coordinator_handlers p) i buf s = (Inr (), refused i s)"
    using receive_first_message [OF assms(1,5,2), of i] m by simp
  moreover have "\<exists>e s'. receive_all (coordinator_handlers p) [(i, b # bs)] s = (Inl (Runtime_error e), s') \<and>
      calls s' = calls s \<and> current_state s' = Firstconnection_state \<and> cookies s' = cookies s \<and>
      workers s' = workers s \<and> worker_infos s' = worker_infos s" if "b \<noteq> message_code Firstconnection"
    using that assms(2) by (simp add: machine_defs firstconnection_def assert_message_type_Cons Let_def sbind_def)
  ultimately show ?thesis using assms(2) m by (simp add: refused_def sbind_def)
qed

theorem coordinator_refuses_witness:
  "\<exists>s s'. coordinator_new demo_dis 2 (\<lambda>_. Inr ()) = Inr s \<and>
    receive_all (coordinator_handlers demo_platform)
      [first_message (4, \<lparr>firstcookie = demo_cookie 9, fc_worker_info = demo_info\<rparr>)] s = (Inr (), s') \<and>
    calls s' = calls s @ [Call_disconnect 4]"
proof -
  obtain s where s: "coordinator_new demo_dis 2 (\<lambda>_. Inr ()) = Inr s" "cookies s = [demo_cookie 0, demo_cookie 1]"
    using demo_coordinator by blast
  have "demo_cookie 9 \<noteq> demo_cookie 0" "demo_cookie 9 \<noteq> demo_cookie 1" "cookie_ok (demo_cookie 9)"
    by (simp_all add: demo_cookie_def cookie_ok_def data_len_def)
  moreover have "current_state s = Firstconnection_state" "length (workers s) \<noteq> worker_num s"
    using s(1) by (auto simp: coordinator_new_def Let_def)
  ultimately show ?thesis
    using coordinator_refuses [OF demo_platform_ok, of s "\<lparr>firstcookie = demo_cookie 9, fc_worker_info = demo_info\<rparr>" 4]
      coordinator_new_cookies [OF s(1)] s by auto
qed

text \<open>A registration that can no longer complete: too few cookies are left for the free places.\<close>

definition stalled :: "coordinator \<Rightarrow> bool" where
  "stalled s \<longleftrightarrow> current_state s = Firstconnection_state \<and>
     length (workers s) + length (cookies s) < worker_num s"

lemma cookie_erase_less: "cookie_count c cs \<noteq> 0 \<Longrightarrow> length (cookie_erase c cs) < length cs"
  unfolding cookie_count_def cookie_erase_def
  by (induction cs) (auto simp: less_Suc_eq_le)

lemma stalled_complete: "stalled s \<Longrightarrow> complete_registration p s = (Inr (), s)"
  by (simp add: stalled_def complete_registration_def)

lemma register_worker_stalled:
  assumes "stalled s" "cookie_count (firstcookie f) (cookies s) \<noteq> 0"
  shows "\<exists>s'. register_worker i f s = (Inr (), s') \<and> stalled s'"
  using assms cookie_erase_less [OF assms(2)] update_length_le [of i "\<lparr>rank = i, is_local = False\<rparr>" "workers s"]
  by (simp add: stalled_def register_worker_def format_registered ok_buffer machine_defs sbind_def Let_def)

lemma assert_message_type_stalled:
  "stalled s \<Longrightarrow> stalled (snd (assert_message_type p buf e s)) \<and>
    (fst (assert_message_type p buf e s) = Inr () \<longrightarrow> snd (assert_message_type p buf e s) = s)"
  by (auto simp: assert_message_type_def stalled_def machine_defs sbind_def format_unexpected
      split: sum.splits prod.splits)

lemma firstconnection_stalled:
  assumes "stalled s"
  shows "stalled (snd (firstconnection p i buf s))"
proof -
  have r: "stalled (snd (sbind (\<lambda>s.
         if cookie_count (firstcookie f) (cookies s) = 0 then
           sbind (model_log Warn ''Recevied cookie illegal!'') (\<lambda>_. model_disconnect i) s
         else register_worker i f s) (\<lambda>_. complete_registration p) s))" for f
  proof (cases "cookie_count (firstcookie f) (cookies s) = 0")
    case True
    let ?s = "refused i s"
    have "stalled ?s" using assms by (simp add: stalled_def refused_def)
    with True stalled_complete [OF this] show ?thesis
      by (simp add: sbind_def machine_defs refused_def)
  next
    case False
    from register_worker_stalled [OF assms this] obtain s' where
      "register_worker i f s = (Inr (), s')" "stalled s'" by blast
    with False stalled_complete show ?thesis by (simp add: sbind_def)
  qed
  show ?thesis
  proof (cases "assert_message_type p buf Firstconnection s")
    case (Pair x s')
    with assert_message_type_stalled [OF assms, of p buf Firstconnection] assms r show ?thesis
      by (cases x; cases "firsconnection_from_buffer (max_size p) (fresh_port p) buf")
        (simp_all add: firstconnection_def sbind_def)
  qed
qed

lemma receive_stalled: "stalled s \<Longrightarrow> stalled (snd (model_receive (coordinator_handlers p) i buf s))"
  using firstconnection_stalled [of s p i buf] by (simp add: machine_defs stalled_def)

lemma receive_all_stalled: "stalled s \<Longrightarrow> stalled (snd (receive_all (coordinator_handlers p) ms s))"
proof (induction ms arbitrary: s)
  case (Cons m ms)
  obtain i buf where m: "m = (i, buf)" by (rule prod.exhaust)
  show ?case
  proof (cases "model_receive (coordinator_handlers p) i buf s")
    case (Pair x s')
    with receive_stalled [OF Cons.prems, of p i buf] Cons.IH show ?thesis
      by (cases x) (simp_all add: m sbind_def)
  qed
qed simp


lemma coordinator_new_count:
  assumes "coordinator_new dis n send_cookie = Inr s"
  shows "length (cookies s) \<le> n"
proof -
  have "length (foldl (\<lambda>cs i. cookie_insert (g i) cs) cs is) \<le> length cs + length is" for g cs and "is" :: "nat list"
  proof (induction "is" arbitrary: cs)
    case (Cons i "is")
    have "length (cookie_insert (g i) cs) \<le> Suc (length cs)" by (simp add: cookie_insert_def)
    with Cons [of "cookie_insert (g i) cs"] show ?case by simp
  qed simp
  from this [of _ "[]" "[0..<n]"] assms show ?thesis by (auto simp: coordinator_new_def res_iff Let_def)
qed



section \<open>The worker's side\<close>

text \<open>
  A worker started with the printed form of a cookie first sends exactly this cookie to the
  coordinator, on connection 0; after the OK and the map of the workers, from the coordinator's
  buffers, it disconnects and stops, and sends nothing else. Any other first message makes it
  throw, before it has changed its state.
\<close>

theorem worker_handshake:
  assumes "platform_ok p" "cookie_ok c" "firsconnection_ok_to_buffer = Inr ok"
    and "worker_info_map_ok (max_size p) m" "worker_info_map_to_buffer m = Inr buf"
  shows "\<exists>w w1 first w2. worker_new (to_printable c) info = Inr w \<and>
    init_logic w = (Inr (), w1) \<and> calls w1 = [Call_send 0 first] \<and>
    firsconnection_from_buffer (max_size p) port0 first =
      Inr \<lparr>firstcookie = c, fc_worker_info = default_worker_info port0\<rparr> \<and>
    receive_all (worker_handlers p) [(0, ok), (0, buf)] w1 = (Inr (), w2) \<and>
    calls w2 = [Call_send 0 first, Call_disconnect 0, Call_stop] \<and>
    (b \<noteq> message_code Firstconnectionok \<longrightarrow>
      (\<exists>e w3. receive_all (worker_handlers p) [(0, b # bs)] w1 = (Inl (Runtime_error e), w3) \<and>
         calls w3 = calls w1 \<and> current_state w3 = current_state w1))"
proof -
  let ?w = "\<lparr>current_state = Firstconnection_ok_state, calls = [], logged = [], fc_cookie = c, own_info = info\<rparr>"
  let ?f = "\<lparr>firstcookie = c, fc_worker_info = info\<rparr>"
  let ?first = "0 # flat (firsconnection_val ?f)"
  let ?w1 = "?w\<lparr>calls := [Call_send 0 ?first]\<rparr>"
  have lim: "size_limits (max_size p)" using assms(1) by (simp add: platform_ok_def)
  have "cookie_of_printable (to_printable c) = Inr c" using assms(2) by (rule parse_printed_cookie)
  then have w: "worker_new (to_printable c) info = Inr ?w" by (simp add: worker_new_def)
  have i: "init_logic ?w = (Inr (), ?w1)"
    using first_buffer [of ?f] assms(2) by (simp add: init_logic_def machine_defs)
  have f: "firsconnection_from_buffer (max_size p) port0 ?first =
      Inr \<lparr>firstcookie = c, fc_worker_info = default_worker_info port0\<rparr>"
    using first_buffer_read [OF lim, of ?f port0] assms(2) by simp
  have "buf = 2 # flat (worker_info_map_val m)" using map_buffer [OF assms(4)] assms(5) by simp
  then have "worker_info_map_from_buffer (max_size p) buf = Inr m" using map_buffer_read [OF lim assms(4)] by simp
  moreover have "ok = [1]" by (rule sum.inject(2) [THEN iffD1, OF trans [OF assms(3) [symmetric] ok_buffer]])
  ultimately have r: "\<exists>w2. receive_all (worker_handlers p) [(0, ok), (0, buf)] ?w1 = (Inr (), w2) \<and>
      calls w2 = [Call_send 0 ?first, Call_disconnect 0, Call_stop]"
    by (simp add: machine_defs firstconnection_ok_def assert_message_type_Cons recv_worker_info_def
        format_peers sbind_def Let_def del: flat.simps)
  have e: "\<exists>e w3. receive_all (worker_handlers p) [(0, b # bs)] ?w1 = (Inl (Runtime_error e), w3) \<and>
         calls w3 = calls ?w1 \<and> current_state w3 = current_state ?w1"
    if "b \<noteq> message_code Firstconnectionok"
    using that by (simp add: machine_defs firstconnection_ok_def assert_message_type_Cons sbind_def Let_def)
  show ?thesis
    by (rule exI [of _ ?w], rule exI [of _ ?w1], rule exI [of _ ?first])
      (use r e w i f in \<open>simp del: receive_all.simps\<close>)
qed

theorem worker_handshake_witness:
  "\<exists>w w1 first. worker_new (to_printable (demo_cookie 7)) demo_info = Inr w \<and> init_logic w = (Inr (), w1) \<and>
    calls w1 = [Call_send 0 first]"
proof -
  have m: "worker_info_map_ok (max_size demo_platform) [(0, demo_info)]"
    by (simp add: worker_info_map_ok_def demo_info_def demo_platform_def std_max_size_def)
  have "cookie_ok (demo_cookie 7)" by (simp add: cookie_ok_def demo_cookie_def data_len_def)
  from worker_handshake [OF demo_platform_ok this ok_buffer m map_buffer [OF m], of demo_info 0 1 "[]"]
  show ?thesis by blast
qed

end
