(* ===== verification/Counted_Runs.thy ===== *)
theory Counted_Runs
  imports Main
begin

text \<open>
  Runs of a system whose steps can be counted: every step that is possible brings the system one
  step nearer to its end, and until then some step is possible. Every run then has a bounded
  length, and the runs that cannot be continued are exactly those of the full length.
\<close>

fun run_events :: "('e \<Rightarrow> 's \<Rightarrow> 's option) \<Rightarrow> 'e list \<Rightarrow> 's \<Rightarrow> 's option" where
  "run_events step [] s = Some s"
| "run_events step (e # es) s = Option.bind (step e s) (run_events step es)"

locale counted_system =
  fixes step :: "'e \<Rightarrow> 's \<Rightarrow> 's option"
    and inv :: "'s \<Rightarrow> nat \<Rightarrow> bool"
    and full :: nat
  assumes keeps: "inv s k \<Longrightarrow> step e s = Some s' \<Longrightarrow> inv s' (Suc k)"
    and bounded: "inv s k \<Longrightarrow> k \<le> full"
    and enabled: "inv s k \<Longrightarrow> k < full \<Longrightarrow> \<exists>e s'. step e s = Some s'"
begin

lemma run_inv: "inv s k \<Longrightarrow> run_events step es s = Some s' \<Longrightarrow> inv s' (k + length es)"
proof (induction es arbitrary: s k)
  case (Cons e es)
  then obtain t where t: "step e s = Some t" "run_events step es t = Some s'"
    by (auto simp: bind_eq_Some_conv)
  from Cons.IH [OF keeps [OF Cons.prems(1) t(1)] t(2)] show ?case by simp
qed simp

lemma run_bounded: "inv s k \<Longrightarrow> run_events step es s = Some s' \<Longrightarrow> k + length es \<le> full"
  using bounded run_inv by blast

lemma continues_iff: "inv s k \<Longrightarrow> (\<exists>e s'. step e s = Some s') \<longleftrightarrow> k < full"
  using keeps [THEN bounded] enabled by (metis Suc_le_eq)

lemma run_to_end: "inv s k \<Longrightarrow> \<exists>es s'. run_events step es s = Some s' \<and> k + length es = full"
proof (induction "full - k" arbitrary: s k)
  case 0
  then have "k = full" using bounded by fastforce
  then show ?case by (intro exI [of _ "[]"]) simp
next
  case (Suc d)
  then obtain e t where t: "step e s = Some t" using enabled [of s k] by fastforce
  from Suc.hyps(2) have "d = full - Suc k" by simp
  from Suc.hyps(1) [OF this keeps [OF Suc.prems t]] obtain es s' where
    "run_events step es t = Some s'" "Suc k + length es = full" by blast
  with t show ?case by (intro exI [of _ "e # es"] exI [of _ s']) simp
qed

end

end
