(* ===== verification/Deployment.thy ===== *)
theory Deployment
  imports Conn_Managers Coordinator_Worker Counted_Runs
begin

text \<open>
  A coordinator process and its worker processes as one system: \<open>RunServer\<close> and \<open>RunClient\<close>
  (src/network/server.cpp, src/network/client.hpp) connect a model with the network below it, and
  the event loop of every process calls the completion handlers of the connections one at a
  time. A connection between two processes is a stream of bytes in each direction; the order in
  which handlers run is arbitrary.
\<close>

section \<open>A model and the layer below it\<close>

text \<open>
  What a model calls while it handles a message is carried out on the layer below. The calls act
  on connections and on the acceptor only and return nothing, so it makes no difference that
  here they follow the handler.
\<close>

definition new_calls :: "('q, 'm) machine_scheme \<Rightarrow> ('q, 'm) machine_scheme \<Rightarrow> model_call list" where
  "new_calls m m' = drop (length (calls m)) (calls m')"

definition with_lower ::
  "(model_call list \<Rightarrow> ('l, unit) action) \<Rightarrow> (('q, 'm) machine_scheme, unit) action \<Rightarrow>
    (('q, 'm) machine_scheme \<times> 'l, unit) action" where
  "with_lower perform f = (\<lambda>(m, l).
     let (r, m') = f m; (r', l') = perform (new_calls m m') l
     in (case r' of Inl e \<Rightarrow> (Inl e, (m', l')) | Inr _ \<Rightarrow> (r, (m', l'))))"

text \<open>The calls on a single connection, on the client of one server, and on a server.\<close>

fun conn_call :: "byte list \<Rightarrow> model_call \<Rightarrow> (connection, unit) action" where
  "conn_call pad (Call_send i msg) = do_send_message pad msg"
| "conn_call pad (Call_disconnect i) = connection_close"
| "conn_call pad Call_stop = skip"

fun conn_calls :: "byte list \<Rightarrow> model_call list \<Rightarrow> (connection, unit) action" where
  "conn_calls pad [] = skip"
| "conn_calls pad (k # ks) = andthen (conn_call pad k) (conn_calls pad ks)"

fun client_call :: "byte list \<Rightarrow> model_call \<Rightarrow> (async_client, unit) action" where
  "client_call pad (Call_send i msg) = client_send pad i msg"
| "client_call pad (Call_disconnect i) = client_disconnect i"
| "client_call pad Call_stop = client_stop"

fun client_calls :: "byte list \<Rightarrow> model_call list \<Rightarrow> (async_client, unit) action" where
  "client_calls pad [] = sreturn ()"
| "client_calls pad (k # ks) = sbind (client_call pad k) (\<lambda>_. client_calls pad ks)"

fun server_call :: "byte list \<Rightarrow> model_call \<Rightarrow> (async_server, unit) action" where
  "server_call pad (Call_send i msg) = on_cmanager (manager_send pad i msg)"
| "server_call pad (Call_disconnect i) = on_cmanager (manager_disconnect i)"
| "server_call pad Call_stop = server_stop"

fun server_calls :: "byte list \<Rightarrow> model_call list \<Rightarrow> (async_server, unit) action" where
  "server_calls pad [] = sreturn ()"
| "server_calls pad (k # ks) = sbind (server_call pad k) (\<lambda>_. server_calls pad ks)"

text \<open>\<open>start\<close> of a model: nothing, unless a client overrides it with its \<open>init_logic\<close>.\<close>

definition model_start :: "(('q, 'm) machine_scheme, unit) action" where
  "model_start = sreturn ()"

definition client_model_start ::
  "(('q, 'm) machine_scheme, unit) action \<Rightarrow> (('q, 'm) machine_scheme, unit) action" where
  "client_model_start init = init"

definition run_server ::
  "byte list \<Rightarrow> (async_server, unit) action \<Rightarrow> (('q, 'm) machine_scheme \<times> async_server, unit) action" where
  "run_server pad start =
     sbind (\<lambda>(m, a). let (r, a') = start a in (r, (m, a')))
       (\<lambda>_. with_lower (server_calls pad) model_start)"

definition run_client ::
  "byte list \<Rightarrow> (('q, 'm) machine_scheme, unit) action \<Rightarrow>
    (('q, 'm) machine_scheme \<times> async_client, unit) action" where
  "run_client pad init =
     sbind (\<lambda>(m, a). let (r, a') = client_start a in (r, (m, a')))
       (\<lambda>_. with_lower (client_calls pad) (client_model_start init))"

text \<open>
  The callbacks a connection has been given: a message goes up to the model, whose calls for the
  same connection run inside the callback; an event is ignored. After a handler of the
  connection has run, the model has handled the messages that were delivered.
\<close>

definition model_layer ::
  "byte list \<Rightarrow> (model_call \<Rightarrow> bool) \<Rightarrow> (byte list \<Rightarrow> (('q, 'm) machine_scheme, unit) action) \<Rightarrow>
    ('q, 'm) machine_scheme \<Rightarrow> upper_layer" where
  "model_layer pad own handle m =
     \<lparr>on_receive = (\<lambda>buf c. let (r, (m', c')) = with_lower (conn_calls pad \<circ> filter own) (handle buf) (m, c)
        in (r, c')),
      on_event = (\<lambda>e. skip)\<rparr>"

definition delivered :: "connection \<Rightarrow> connection \<Rightarrow> byte list list" where
  "delivered c c' = drop (length (received c)) (received c')"

section \<open>The event loops\<close>

text \<open>
  The event loop of a worker calls the handler of a read or a write of its connection;
  \<open>complete_eof\<close> is the completion of a read when the peer has closed the connection and every
  byte before has been read. It comes with the end of file, or with another error \<open>e\<close> when the
  peer has closed without reading all that was sent to it, which resets the connection.
\<close>

definition complete_eof :: "upper_layer \<Rightarrow> error_code \<Rightarrow> connection \<Rightarrow> (unit res \<times> connection) option" where
  "complete_eof up e c =
     (case reading c of
        No_read \<Rightarrow> None
      | Header_read \<Rightarrow> Some (when_header_received up (Some e) (c\<lparr>reading := No_read\<rparr>))
      | Payload_read len n \<Rightarrow> Some (when_payload_received up len (Some e) 0 (c\<lparr>reading := No_read\<rparr>)))"

definition worker_layer :: "platform \<Rightarrow> byte list \<Rightarrow> worker_deamon \<Rightarrow> upper_layer" where
  "worker_layer p pad w = model_layer pad (\<lambda>_. True) (model_receive (worker_handlers p) 0) w"

definition after_delivery :: "platform \<Rightarrow> connection \<Rightarrow> connection \<Rightarrow> worker_deamon \<Rightarrow> worker_deamon" where
  "after_delivery p c c' w = snd (receive_all (worker_handlers p) (map (Pair 0) (delivered c c')) w)"

text \<open>The calls of the coordinator for the connection whose handler runs, and the others.\<close>

definition own_call :: "int \<Rightarrow> model_call \<Rightarrow> bool" where
  "own_call i k = (case k of Call_send d _ \<Rightarrow> d = i | Call_disconnect d \<Rightarrow> d = i | Call_stop \<Rightarrow> False)"

definition coordinator_layer :: "platform \<Rightarrow> byte list \<Rightarrow> int \<Rightarrow> coordinator \<Rightarrow> upper_layer" where
  "coordinator_layer p pad i co =
     model_layer pad (own_call i) (model_receive (coordinator_handlers p) i) co"

definition after_message ::
  "platform \<Rightarrow> byte list \<Rightarrow> int \<Rightarrow> connection \<Rightarrow> unit res \<times> connection \<Rightarrow>
    (coordinator \<times> async_server, unit) action" where
  "after_message p pad i c res = (\<lambda>(co, sv).
     let (r, c') = res;
         co' = snd (receive_all (coordinator_handlers p) (map (Pair i) (delivered c c')) co);
         (r', sv') = server_calls pad (filter (Not \<circ> own_call i) (new_calls co co'))
           (sv\<lparr>cmanager := (cmanager sv)\<lparr>holdings := (holdings (cmanager sv))(i \<mapsto> Some c')\<rparr>\<rparr>)
     in (rbind r (\<lambda>_. r'), (co', sv')))"

text \<open>
  A worker process with its connection: whether it has called \<open>RunClient\<close>, the id the coordinator
  has given its connection, and the bytes on the way in each direction.
\<close>

record endpoint =
  worker :: worker_deamon
  client :: async_client
  running :: bool
  conn_no :: "int option"
  up_bytes :: "byte list"
  down_bytes :: "byte list"

record deployment =
  coord :: coordinator
  serv :: async_server
  ends :: "nat \<Rightarrow> endpoint"
  crashed :: bool

definition held :: "deployment \<Rightarrow> nat \<Rightarrow> (int \<times> connection) option" where
  "held s j =
     (case conn_no (ends s j) of
        None \<Rightarrow> None
      | Some i \<Rightarrow>
          (case holdings (cmanager (serv s)) i of Some (Some c) \<Rightarrow> Some (i, c) | _ \<Rightarrow> None))"

definition set_held :: "int \<Rightarrow> connection \<Rightarrow> deployment \<Rightarrow> deployment" where
  "set_held i c s = s\<lparr>serv := (serv s)\<lparr>cmanager := (cmanager (serv s))
     \<lparr>holdings := (holdings (cmanager (serv s)))(i \<mapsto> Some c)\<rparr>\<rparr>\<rparr>"

definition set_end :: "nat \<Rightarrow> endpoint \<Rightarrow> deployment \<Rightarrow> deployment" where
  "set_end j e s = s\<lparr>ends := (ends s)(j := e)\<rparr>"

text \<open>An exception that leaves a handler ends the process.\<close>

definition outcome :: "unit res \<Rightarrow> deployment \<Rightarrow> deployment" where
  "outcome r s = (case r of Inl _ \<Rightarrow> s\<lparr>crashed := True\<rparr> | Inr _ \<Rightarrow> s)"

section \<open>Steps of the system\<close>

definition worker_runs :: "byte list \<Rightarrow> nat \<Rightarrow> deployment \<Rightarrow> deployment option" where
  "worker_runs pad j s =
     (let e = ends s j
      in if running e then None
         else (let (r, (w, a)) = run_client pad init_logic (worker e, client e)
               in Some (outcome r (set_end j (e\<lparr>worker := w, client := a, running := True\<rparr>) s))))"

definition server_accepts :: "string \<times> nat \<Rightarrow> nat \<Rightarrow> deployment \<Rightarrow> deployment option" where
  "server_accepts peer j s =
     (let e = ends s j
      in if conn_no e \<noteq> None \<or> \<not> acceptor_open (serv s) \<or> \<not> accepting (serv s) then None
         else (let i = next_id (cmanager (serv s)); (r, sv) = when_accept None peer (serv s)
               in Some (outcome r (set_end j (e\<lparr>conn_no := Some i\<rparr>) (s\<lparr>serv := sv\<rparr>)))))"

definition client_wrote :: "platform \<Rightarrow> byte list \<Rightarrow> nat \<Rightarrow> deployment \<Rightarrow> deployment option" where
  "client_wrote p pad j s =
     (let e = ends s j
      in case complete_write (worker_layer p pad (worker e)) (holding (client e)) of
           None \<Rightarrow> None
         | Some ((r, c), bytes) \<Rightarrow>
             Some (outcome r (set_end j (e\<lparr>client := (client e)\<lparr>holding := c\<rparr>,
               up_bytes := up_bytes e @ bytes\<rparr>) s)))"

definition client_reads :: "platform \<Rightarrow> byte list \<Rightarrow> nat \<Rightarrow> deployment \<Rightarrow> deployment option" where
  "client_reads p pad j s =
     (let e = ends s j; c = holding (client e)
      in case complete_read (worker_layer p pad (worker e)) (down_bytes e) c of
           None \<Rightarrow> None
         | Some ((r, c'), rest) \<Rightarrow>
             Some (outcome r (set_end j (e\<lparr>client := (client e)\<lparr>holding := c'\<rparr>,
               worker := after_delivery p c c' (worker e), down_bytes := rest\<rparr>) s)))"

definition server_wrote :: "platform \<Rightarrow> byte list \<Rightarrow> nat \<Rightarrow> deployment \<Rightarrow> deployment option" where
  "server_wrote p pad j s =
     (let e = ends s j
      in case held s j of
           None \<Rightarrow> None
         | Some (i, c) \<Rightarrow>
             (case complete_write (coordinator_layer p pad i (coord s)) c of
                None \<Rightarrow> None
              | Some ((r, c'), bytes) \<Rightarrow>
                  Some (outcome r (set_held i c' (set_end j (e\<lparr>down_bytes := down_bytes e @ bytes\<rparr>) s)))))"

definition server_reads :: "platform \<Rightarrow> byte list \<Rightarrow> nat \<Rightarrow> deployment \<Rightarrow> deployment option" where
  "server_reads p pad j s =
     (let e = ends s j
      in case held s j of
           None \<Rightarrow> None
         | Some (i, c) \<Rightarrow>
             (case complete_read (coordinator_layer p pad i (coord s)) (up_bytes e) c of
                None \<Rightarrow> None
              | Some (res, rest) \<Rightarrow>
                  (let (r, (co, sv)) = after_message p pad i c res (coord s, serv s)
                   in Some (outcome r (set_end j (e\<lparr>up_bytes := rest\<rparr>) (s\<lparr>coord := co, serv := sv\<rparr>))))))"

text \<open>
  A side that has closed ends the stream towards the other side; \<open>x\<close> is how the read ends there.
  A read is aborted only by the side that reads.
\<close>

definition server_eof :: "platform \<Rightarrow> byte list \<Rightarrow> error_code \<Rightarrow> nat \<Rightarrow> deployment \<Rightarrow> deployment option" where
  "server_eof p pad x j s =
     (let e = ends s j
      in case held s j of
           None \<Rightarrow> None
         | Some (i, c) \<Rightarrow>
             if x = Operation_aborted \<or> is_open (holding (client e)) \<or> up_bytes e \<noteq> [] then None
             else (case complete_eof (coordinator_layer p pad i (coord s)) x c of
                     None \<Rightarrow> None
                   | Some (r, c') \<Rightarrow> Some (outcome r (set_held i c' s))))"

definition client_eof :: "platform \<Rightarrow> byte list \<Rightarrow> error_code \<Rightarrow> nat \<Rightarrow> deployment \<Rightarrow> deployment option" where
  "client_eof p pad x j s =
     (let e = ends s j
      in case held s j of
           None \<Rightarrow> None
         | Some (i, c) \<Rightarrow>
             if x = Operation_aborted \<or> is_open c \<or> down_bytes e \<noteq> [] then None
             else (case complete_eof (worker_layer p pad (worker e)) x (holding (client e)) of
                     None \<Rightarrow> None
                   | Some (r, c') \<Rightarrow>
                       Some (outcome r (set_end j (e\<lparr>client := (client e)\<lparr>holding := c'\<rparr>\<rparr>) s))))"

datatype net_event =
    Worker_runs nat
  | Server_accepts nat
  | Client_wrote nat
  | Server_reads nat
  | Server_wrote nat
  | Client_reads nat
  | Server_eof nat error_code
  | Client_eof nat error_code

fun event_worker :: "net_event \<Rightarrow> nat" where
  "event_worker (Worker_runs j) = j"
| "event_worker (Server_accepts j) = j"
| "event_worker (Client_wrote j) = j"
| "event_worker (Server_reads j) = j"
| "event_worker (Server_wrote j) = j"
| "event_worker (Client_reads j) = j"
| "event_worker (Server_eof j x) = j"
| "event_worker (Client_eof j x) = j"

fun net_event_step ::
  "platform \<Rightarrow> byte list \<Rightarrow> (nat \<Rightarrow> string \<times> nat) \<Rightarrow> net_event \<Rightarrow> deployment \<Rightarrow> deployment option" where
  "net_event_step p pad peer (Worker_runs j) = worker_runs pad j"
| "net_event_step p pad peer (Server_accepts j) = server_accepts (peer j) j"
| "net_event_step p pad peer (Client_wrote j) = client_wrote p pad j"
| "net_event_step p pad peer (Server_reads j) = server_reads p pad j"
| "net_event_step p pad peer (Server_wrote j) = server_wrote p pad j"
| "net_event_step p pad peer (Client_reads j) = client_reads p pad j"
| "net_event_step p pad peer (Server_eof j x) = server_eof p pad x j"
| "net_event_step p pad peer (Client_eof j x) = client_eof p pad x j"

text \<open>\<open>n\<close> is the number of worker processes; a process that has crashed ends the run.\<close>

definition net_step ::
  "platform \<Rightarrow> byte list \<Rightarrow> (nat \<Rightarrow> string \<times> nat) \<Rightarrow> nat \<Rightarrow> net_event \<Rightarrow> deployment \<Rightarrow> deployment option" where
  "net_step p pad peer n e s =
     (if event_worker e < n \<and> \<not> crashed s then net_event_step p pad peer e s else None)"

text \<open>The system before any process has entered its event loop.\<close>

definition fresh_endpoint :: "worker_deamon \<Rightarrow> async_client \<Rightarrow> endpoint" where
  "fresh_endpoint w a =
     \<lparr>worker = w, client = a, running = False, conn_no = None, up_bytes = [], down_bytes = []\<rparr>"

definition deployed ::
  "coordinator \<Rightarrow> async_server \<Rightarrow> (nat \<Rightarrow> worker_deamon) \<Rightarrow> (nat \<Rightarrow> async_client) \<Rightarrow> deployment" where
  "deployed co sv w a =
     \<lparr>coord = co, serv = sv, ends = (\<lambda>j. fresh_endpoint (w j) (a j)), crashed = False\<rparr>"

end
