(* ===== verification/Frame_Streams.thy ===== *)
theory Frame_Streams
  imports Conn_Managers
begin

text \<open>
  One direction of a connection between two processes: what the sending side has queued, what is on
  the wire and what the reading side waits for, and how the completion of a write or of a read
  moves a message on.
\<close>

section \<open>One direction of a connection\<close>

text \<open>
  The sending side holds the messages \<open>q\<close> that are not yet written, the wire carries \<open>ms\<close>; \<open>half\<close>
  tells that the reading side has read the header of the first one.
\<close>

definition frame :: "byte list \<Rightarrow> byte list \<Rightarrow> byte list" where
  "frame pad m = packet_bytes pad (Message m)"

definition frames :: "byte list \<Rightarrow> byte list list \<Rightarrow> byte list" where
  "frames pad ms = concat (map (frame pad) ms)"

definition sends_ok :: "byte list \<Rightarrow> connection \<Rightarrow> byte list list \<Rightarrow> bool" where
  "sends_ok pad c q \<longleftrightarrow> write_queue c = map (message_buffers pad) q \<and>
     writing c = (case q of [] \<Rightarrow> None | m # _ \<Rightarrow> Some (frame pad m, length (frame pad m)))"

text \<open>A message that fits into the receive buffer is delivered.\<close>

definition fits :: "byte list \<Rightarrow> bool" where
  "fits m \<longleftrightarrow> length m \<le> connection_buffer_size"

definition plain_class :: "connection_class \<Rightarrow> bool" where
  "plain_class k \<longleftrightarrow> k = Server_connection \<or> k = Client_connection"

definition reads_ok :: "byte list \<Rightarrow> connection \<Rightarrow> byte list \<Rightarrow> byte list list \<Rightarrow> bool \<Rightarrow> bool" where
  "reads_ok pad c w ms half \<longleftrightarrow> is_open c \<and> plain_class (cclass c) \<and>
     length (receive_buffer c) = connection_buffer_size \<and> receive_capacity c = connection_buffer_size \<and>
     list_all (\<lambda>m. length m < 2 ^ 32) ms \<and>
     (if half then ms \<noteq> [] \<and>
        reading c = Payload_read (length (hd ms)) (min (length (hd ms)) connection_buffer_size) \<and>
        w = hd ms @ frames pad (tl ms)
      else reading c = Header_read \<and> w = frames pad ms)"

definition same_reading :: "connection \<Rightarrow> connection \<Rightarrow> bool" where
  "same_reading c c' \<longleftrightarrow> is_open c' = is_open c \<and> cclass c' = cclass c \<and>
     receive_buffer c' = receive_buffer c \<and> receive_capacity c' = receive_capacity c \<and>
     reading c' = reading c \<and> received c' = received c"

definition same_sending :: "connection \<Rightarrow> connection \<Rightarrow> bool" where
  "same_sending c c' \<longleftrightarrow> write_queue c' = write_queue c \<and> writing c' = writing c"

lemma frame_not_Nil [simp]: "frame pad m \<noteq> []"
  by (simp only: frame_def packet_bytes_not_Nil not_False_eq_True)

lemma frames_simps [simp]:
  "frames pad [] = []" "frames pad (m # ms) = frame pad m @ frames pad ms"
  "frames pad (ms @ ms') = frames pad ms @ frames pad ms'"
  by (simp_all add: frames_def)

lemma concat_buffers [simp]: "concat (message_buffers pad m) = frame pad m"
  by (simp only: message_buffers_bytes frame_def)

declare message_buffers_bytes [simp del]

lemma same_readingD:
  "same_reading c c' \<Longrightarrow> reads_ok pad c' w ms half = reads_ok pad c w ms half"
  "same_reading c c' \<Longrightarrow> received c' = received c"
  by (simp_all add: same_reading_def reads_ok_def)

lemma same_sendingD: "same_sending c c' \<Longrightarrow> sends_ok pad c' q = sends_ok pad c q"
  by (simp add: same_sending_def sends_ok_def)

lemma send_one:
  assumes "length pad = 3" "sends_ok pad c q"
  shows "\<exists>c'. do_send_message pad m c = (Inr (), c') \<and> sends_ok pad c' (q @ [m]) \<and> same_reading c c'"
proof (cases q)
  case Nil
  with assms show ?thesis
    by (simp add: do_send_message_eq sends_ok_def push_idle same_reading_def received_def)
next
  case (Cons a q')
  with assms show ?thesis
    by (simp add: do_send_message_eq sends_ok_def push_busy same_reading_def received_def)
qed

lemma write_one:
  assumes "sends_ok pad c (m # q)" "length q \<le> 1"
  shows "\<exists>c'. complete_write up c = Some ((Inr (), c'), frame pad m) \<and> sends_ok pad c' q \<and> same_reading c c'"
proof (cases q)
  case Nil
  with assms show ?thesis
    by (simp add: complete_write_def sends_ok_def message_sent_complete Let_def same_reading_def received_def)
next
  case (Cons a q')
  with assms have "q = [a]" by simp
  with assms show ?thesis
    by (simp add: complete_write_def sends_ok_def message_sent_complete Let_def same_reading_def
        received_def do_write_def length_concat [symmetric])
qed

lemma write_none: "sends_ok pad c [] \<Longrightarrow> complete_write up c = None"
  by (simp add: sends_ok_def complete_write_def)

lemma read_header:
  assumes "length pad = 3" "reads_ok pad c w (m # ms) False"
  shows "\<exists>c' w'. complete_read up w c = Some ((Inr (), c'), w') \<and> reads_ok pad c' w' (m # ms) True \<and>
    same_sending c c' \<and> received c' = received c \<and> cclass c' = cclass c"
proof -
  have len: "length m < 2 ^ 32" using assms(2) by (simp add: reads_ok_def)
  then have u: "unat (of_nat (length m) :: 32 word) = length m" by (simp add: unat_of_nat take_bit_nat_eq_self)
  have w: "w = frame pad m @ frames pad ms" using assms(2) by (simp add: reads_ok_def)
  have same: "resize_buffer connection_buffer_size b = b" if "length b = connection_buffer_size" for b
    using that by (simp add: resize_buffer_def)
  show ?thesis
    using assms u len same unfolding w
    by (auto simp: reads_ok_def complete_read_def frame_def header_size_def when_header_received_def
        header_parsers do_receive_payload_def same_sending_def received_def plain_class_def)
qed

lemma read_body:
  assumes "reads_ok pad c w (m # ms) True" "fits m"
  obtains c0 where "same_sending c c0" "received c0 = received c @ [m]" "is_open c0"
    "reading c0 = No_read"
    "complete_read up w c = Some (andthen (on_receive up m) do_receive_message c0, frames pad ms)"
    "\<And>c1. same_reading c0 c1 \<Longrightarrow> reads_ok pad (c1\<lparr>reading := Header_read\<rparr>) (frames pad ms) ms False"
proof
  let ?c = "c\<lparr>receive_buffer := write_at 0 m (receive_buffer c), reading := No_read,
    effects := effects c @ [Upper_receive m]\<rparr>"
  have len: "length m \<le> length (receive_buffer c)" and w: "w = m @ frames pad ms"
    using assms by (simp_all add: reads_ok_def fits_def)
  show "same_sending c ?c" "reading ?c = No_read" by (simp_all add: same_sending_def)
  show "received ?c = received c @ [m]" by (simp add: received_def)
  show "is_open ?c" using assms by (simp add: reads_ok_def)
  show "complete_read up w c = Some (andthen (on_receive up m) do_receive_message ?c, frames pad ms)"
    using assms len w
    by (simp add: reads_ok_def fits_def complete_read_def when_payload_received_def take_write_at emit_def
        andthen_def sbind_def)
  show "reads_ok pad (c1\<lparr>reading := Header_read\<rparr>) (frames pad ms) ms False" if "same_reading ?c c1" for c1
    using assms that len by (simp add: reads_ok_def same_reading_def)
qed

text \<open>A body that does not fit is read as far as it fits, and the connection is closed.\<close>

lemma read_body_oversized:
  assumes "reads_ok pad c w (m # ms) True" "\<not> fits m"
  shows "\<exists>c' w'. complete_read up w c = Some ((Inr (), c'), w') \<and> same_sending c c' \<and>
    received c' = received c \<and> \<not> is_open c' \<and> reading c' = No_read"
  using assms
  by (auto simp: reads_ok_def fits_def plain_class_def complete_read_def when_payload_received_def log_texts
      close_effects_def same_sending_def received_def)

lemma read_none: "reads_ok pad c [] [] False \<Longrightarrow> complete_read up [] c = None"
  by (simp add: reads_ok_def complete_read_def header_size_def)

end
