(* ===== verification/Startup_Steps.thy ===== *)
theory Startup_Steps
  imports Deployment Frame_Streams
begin

text \<open>
  The handlers of the start-up one by one: the coordinator and the worker on each message of the
  protocol, and the completions of the system that run them.
\<close>

section \<open>The models\<close>

text \<open>
  The coordinator after the registrations \<open>rs\<close>, in this order, and the map that it sends when all
  workers are registered.
\<close>

definition fresh_coordinator :: "nat \<Rightarrow> coordinator \<Rightarrow> bool" where
  "fresh_coordinator n co \<longleftrightarrow> current_state co = Firstconnection_state \<and> workers co = [] \<and>
     worker_infos co = [] \<and> worker_num co = n \<and> calls co = [] \<and> list_all cookie_ok (cookies co) \<and>
     distinct (cookies co) \<and> length (cookies co) = n"

definition coord_at :: "platform \<Rightarrow> coordinator \<Rightarrow> (int \<times> firsconnection) list \<Rightarrow> coordinator" where
  "coord_at p co rs =
     (if length rs < worker_num co then register_all p rs co
      else snd (complete_registration p (register_all p rs co)))"

definition regs_ok :: "coordinator \<Rightarrow> (int \<times> firsconnection) list \<Rightarrow> bool" where
  "regs_ok co rs \<longleftrightarrow> distinct (map (firstcookie \<circ> snd) rs) \<and> (firstcookie \<circ> snd) ` set rs \<subseteq> set (cookies co) \<and>
     distinct (map fst rs) \<and> list_all id_ok (map fst rs)"

definition startup_map :: "platform \<Rightarrow> int list \<Rightarrow> worker_info_map" where
  "startup_map p is = map (\<lambda>i. (of_int i, default_worker_info (fresh_port p))) (order_of p is)"

definition startup_buffer :: "platform \<Rightarrow> int list \<Rightarrow> byte list" where
  "startup_buffer p is = 2 # flat (worker_info_map_val (startup_map p is))"

definition first_bytes :: "firsconnection \<Rightarrow> byte list" where
  "first_bytes f = 0 # flat (firsconnection_val f)"

lemma register_all_snoc:
  "register_all p (rs @ [(i, f)]) s = registered p i (firstcookie f) (register_all p rs s)"
  by (induction p rs s rule: register_all.induct) auto

lemma registered_fields:
  assumes "fresh_coordinator n co" "regs_ok co rs"
  shows "workers (register_all p rs co) = map (\<lambda>(i, f). (i, \<lparr>rank = i, is_local = False\<rparr>)) rs"
    "worker_infos (register_all p rs co) = map (\<lambda>i. (i, default_worker_info (fresh_port p))) (map fst rs)"
    "calls (register_all p rs co) = map (\<lambda>i. Call_send i [1]) (map fst rs)"
    "worker_num (register_all p rs co) = n"
    "current_state (register_all p rs co) = Firstconnection_state"
    "map fst (workers (register_all p rs co)) = map fst rs"
    "cookies (register_all p rs co) = filter (\<lambda>c. c \<notin> (firstcookie \<circ> snd) ` set rs) (cookies co)"
proof -
  have "distinct (map fst rs)" using assms(2) by (simp add: regs_ok_def)
  note f = register_all_fields [OF this, of co p]
  have "list_all (\<lambda>r. cookie_ok (firstcookie (snd r))) rs" "list_all cookie_ok (cookies co)"
    using assms by (auto simp: regs_ok_def fresh_coordinator_def list_all_iff)
  then show "cookies (register_all p rs co) = filter (\<lambda>c. c \<notin> (firstcookie \<circ> snd) ` set rs) (cookies co)"
    by (intro register_all_cookies)
qed (use assms register_all_fields [of rs co p] in
    \<open>simp_all add: fresh_coordinator_def regs_ok_def case_prod_unfold comp_def\<close>)

text \<open>The map: its buffer, its length, and what the workers read.\<close>

lemma startup_buffer_facts:
  assumes "platform_ok p" "distinct is" "list_all id_ok is"
    and "infos = map (\<lambda>i. (i, default_worker_info (fresh_port p))) is"
  shows "worker_info_map_to_buffer (info_map p infos) = Inr (startup_buffer p is)"
    "worker_info_map_ok msz (info_map p infos)"
    "length (startup_buffer p is) = 9 + 14 * length is"
    "worker_info_map_from_buffer (max_size p) (startup_buffer p is) = Inr (startup_map p is)"
proof -
  note m = info_map_default [OF assms]
  show b: "worker_info_map_to_buffer (info_map p infos) = Inr (startup_buffer p is)"
    using map_buffer [OF m(2)] by (simp add: m(1) startup_buffer_def startup_map_def)
  show "worker_info_map_ok msz (info_map p infos)" by (rule m(2))
  show "length (startup_buffer p is) = 9 + 14 * length is" by (rule startup_map_length [OF assms b])
  show "worker_info_map_from_buffer (max_size p) (startup_buffer p is) = Inr (startup_map p is)"
    using map_buffer_read [OF _ m(2), of "max_size p"] assms(1)
    by (simp add: platform_ok_def m(1) startup_buffer_def startup_map_def)
qed

lemma coordinator_receives:
  assumes "platform_ok p" "fresh_coordinator n co" "regs_ok co (rs @ [(i, f)])" "length rs < n"
  shows "model_receive (coordinator_handlers p) i (first_bytes f) (coord_at p co rs) =
      (Inr (), coord_at p co (rs @ [(i, f)]))"
    and "calls (coord_at p co (rs @ [(i, f)])) = calls (coord_at p co rs) @ Call_send i [1] #
      (if Suc (length rs) < n then []
       else map (\<lambda>d. Call_send d (startup_buffer p (map fst (rs @ [(i, f)]))))
         (order_of p (map fst (rs @ [(i, f)]))) @ [Call_stop])"
    and "n \<le> Suc (length rs) \<Longrightarrow> current_state (coord_at p co (rs @ [(i, f)])) = Peersinfo_state \<and>
      cookies (coord_at p co (rs @ [(i, f)])) = cookies (register_all p (rs @ [(i, f)]) co)"
proof -
  let ?s = "register_all p rs co" let ?t = "register_all p (rs @ [(i, f)]) co"
  let ?is = "map fst (rs @ [(i, f)])"
  have r: "regs_ok co rs" using assms(3) by (simp add: regs_ok_def)
  note S = registered_fields [OF assms(2) r] and T = registered_fields [OF assms(2,3)]
  have c: "cookie_ok (firstcookie f)" "list_all cookie_ok (cookies ?s)" "firstcookie f \<in> set (cookies ?s)"
    using assms(2,3) by (auto simp: S(7) fresh_coordinator_def regs_ok_def list_all_iff image_iff)
  have at: "coord_at p co rs = ?s" using assms(2,4) by (simp add: coord_at_def fresh_coordinator_def)
  have step: "model_receive (coordinator_handlers p) i (first_bytes f) ?s = complete_registration p ?t"
    using receive_first_message [OF assms(1) c(1) S(5), of i] cookie_count_iff [OF c(1,2)] c(3)
      first_buffer [OF c(1)]
    by (simp add: first_message_def first_bytes_def register_all_snoc)
  have ids: "distinct ?is" "list_all id_ok ?is" using assms(3) by (simp_all only: regs_ok_def)
  note m = startup_buffer_facts [OF assms(1) ids T(2)]
  have num: "worker_num co = n" using assms(2) by (simp add: fresh_coordinator_def)
  have not_yet: "complete_registration p ?t = (Inr (), ?t)" if "Suc (length rs) < n"
    using that T(4) by (simp add: complete_registration_def T(1))
  have done_now: "\<exists>ls. complete_registration p ?t = (Inr (), ?t\<lparr>current_state := Peersinfo_state, logged := ls,
     calls := calls ?t @ map (\<lambda>d. Call_send d (startup_buffer p ?is)) (order_of p ?is) @ [Call_stop]\<rparr>)"
    if "\<not> Suc (length rs) < n"
  proof -
    have "length (workers ?t) = worker_num ?t" using that assms(4) T(4) by (simp add: T(1))
    from complete_registration_full [OF assms(1) this m(2,1)] show ?thesis by (simp only: T(6))
  qed
  show "model_receive (coordinator_handlers p) i (first_bytes f) (coord_at p co rs) =
      (Inr (), coord_at p co (rs @ [(i, f)]))"
    using not_yet done_now num assms(4) by (cases "Suc (length rs) < n") (auto simp: step coord_at_def)
  show "calls (coord_at p co (rs @ [(i, f)])) = calls (coord_at p co rs) @ Call_send i [1] #
      (if Suc (length rs) < n then []
       else map (\<lambda>d. Call_send d (startup_buffer p ?is)) (order_of p ?is) @ [Call_stop])"
    using done_now num assms(4) by (cases "Suc (length rs) < n") (auto simp: coord_at_def S(3) T(3))
  show "current_state (coord_at p co (rs @ [(i, f)])) = Peersinfo_state \<and>
      cookies (coord_at p co (rs @ [(i, f)])) = cookies ?t" if "n \<le> Suc (length rs)"
    using done_now num that by (auto simp: coord_at_def)
qed

text \<open>The worker after \<open>k\<close> of the two messages it waits for; \<open>m\<close> is the message it sends first.\<close>

definition worker_ok :: "nat \<Rightarrow> byte list \<Rightarrow> worker_deamon \<Rightarrow> bool" where
  "worker_ok k m w \<longleftrightarrow>
     calls w = Call_send 0 m # (if k < 2 then [] else [Call_disconnect 0, Call_stop]) \<and>
     (k = 0 \<longrightarrow> current_state w = Firstconnection_ok_state) \<and>
     (k = 1 \<longrightarrow> current_state w = Recv_worker_info_state)"

lemma worker_gets_ok:
  assumes "worker_ok 0 m w"
  shows "\<exists>w'. model_receive (worker_handlers p) 0 [1] w = (Inr (), w') \<and> worker_ok (Suc 0) m w' \<and>
    new_calls w w' = []"
  using assms by (simp add: worker_ok_def machine_defs firstconnection_ok_def assert_message_type_Cons
      new_calls_def sbind_def)

lemma worker_gets_map:
  assumes "worker_ok (Suc 0) m w" "worker_info_map_from_buffer (max_size p) buf = Inr mp"
  shows "\<exists>w'. model_receive (worker_handlers p) 0 buf w = (Inr (), w') \<and> worker_ok (Suc (Suc 0)) m w' \<and>
    new_calls w w' = [Call_disconnect 0, Call_stop]"
  using assms by (simp add: worker_ok_def machine_defs recv_worker_info_def format_peers
      new_calls_def sbind_def Let_def)

section \<open>Handlers of the system\<close>

text \<open>A worker that runs waits for messages and has sent its first one.\<close>

definition fresh_worker :: "firsconnection \<Rightarrow> worker_deamon \<Rightarrow> bool" where
  "fresh_worker f w \<longleftrightarrow> current_state w = Firstconnection_ok_state \<and> calls w = [] \<and>
     fc_cookie w = firstcookie f \<and> own_info w = fc_worker_info f \<and> cookie_ok (firstcookie f)"

definition fresh_client :: "async_client \<Rightarrow> bool" where
  "fresh_client a \<longleftrightarrow> (\<exists>addr. holding a = new_connection_state Client_connection addr)"

lemma run_client_starts:
  assumes "length pad = 3" "fresh_worker f w" "fresh_client a"
  shows "\<exists>w' a'. run_client pad init_logic (w, a) = (Inr (), (w', a')) \<and> worker_ok 0 (first_bytes f) w' \<and>
    sends_ok pad (holding a') [first_bytes f] \<and> reads_ok pad (holding a') [] [] False \<and>
    received (holding a') = []"
proof -
  from assms(3) obtain addr where a: "holding a = new_connection_state Client_connection addr"
    by (auto simp: fresh_client_def)
  let ?c = "(holding a)\<lparr>reading := Header_read\<rparr>"
  have c: "sends_ok pad ?c []" "reads_ok pad ?c [] [] False" "received ?c = []"
    by (simp_all add: a new_connection_state_def sends_ok_def reads_ok_def plain_class_def received_def)
  from send_one [OF assms(1) c(1)] obtain c' where
    c': "do_send_message pad (first_bytes f) ?c = (Inr (), c')" "sends_ok pad c' [first_bytes f]" "same_reading ?c c'"
    by fastforce
  let ?w = "w\<lparr>calls := [Call_send 0 (first_bytes f)]\<rparr>"
  have "f = \<lparr>firstcookie = fc_cookie w, fc_worker_info = own_info w\<rparr>" using assms(2) by (simp add: fresh_worker_def)
  then have init: "init_logic w = (Inr (), ?w)"
    using first_buffer [of f] assms(2) by (simp add: init_logic_def machine_defs first_bytes_def fresh_worker_def)
  have "client_start a = (Inr (), a\<lparr>holding := ?c\<rparr>)"
    by (simp add: client_start_def on_holding_def do_receive_message_def a new_connection_state_def)
  with init c'(1) have "run_client pad init_logic (w, a) = (Inr (), (?w, a\<lparr>holding := c'\<rparr>))"
    using assms(2)
    by (simp add: run_client_def sbind_def with_lower_def client_model_start_def new_calls_def fresh_worker_def
        client_send_def on_holding_def)
  then show ?thesis
    using c' c same_readingD [OF c'(3)] assms(2) by (auto simp: worker_ok_def fresh_worker_def)
qed

text \<open>The callback of a connection: the model handles the message, then its own calls are made.\<close>

lemma model_layer_receive:
  "handle m mo = (r, mo') \<Longrightarrow> on_receive (model_layer pad own handle mo) m c =
    (case conn_calls pad (filter own (new_calls mo mo')) c of
       (Inl e, c') \<Rightarrow> (Inl e, c') | (Inr _, c') \<Rightarrow> (r, c'))"
  by (simp add: model_layer_def with_lower_def split: prod.split sum.split)

lemma fits_ok [simp]: "fits [1]"
  by (simp add: fits_def connection_buffer_size_def)

lemma client_gets_ok:
  assumes "reads_ok pad (holding a) w ([1] # ms) True" "worker_ok 0 m wk"
  shows "\<exists>c' wk'. complete_read (worker_layer p pad wk) w (holding a) = Some ((Inr (), c'), frames pad ms) \<and>
    same_sending (holding a) c' \<and> received c' = received (holding a) @ [[1]] \<and>
    reads_ok pad c' (frames pad ms) ms False \<and>
    after_delivery p (holding a) c' wk = wk' \<and> worker_ok (Suc 0) m wk'"
proof -
  obtain wk' where wk: "model_receive (worker_handlers p) 0 [1] wk = (Inr (), wk')" "worker_ok (Suc 0) m wk'"
      "new_calls wk wk' = []"
    using worker_gets_ok [OF assms(2)] by blast
  from read_body [OF assms(1) fits_ok, of "worker_layer p pad wk"] obtain c0 where
    c0: "same_sending (holding a) c0" "received c0 = received (holding a) @ [[1]]" "is_open c0"
      "complete_read (worker_layer p pad wk) w (holding a) =
        Some (andthen (on_receive (worker_layer p pad wk) [1]) do_receive_message c0, frames pad ms)"
      "\<And>c1. same_reading c0 c1 \<Longrightarrow> reads_ok pad (c1\<lparr>reading := Header_read\<rparr>) (frames pad ms) ms False"
    by blast
  let ?c = "c0\<lparr>reading := Header_read\<rparr>"
  have "on_receive (worker_layer p pad wk) [1] c0 = (Inr (), c0)"
    using wk by (simp add: worker_layer_def model_layer_receive)
  then have "complete_read (worker_layer p pad wk) w (holding a) = Some ((Inr (), ?c), frames pad ms)"
    using c0(3,4) by (simp add: do_receive_message_def)
  moreover have "reads_ok pad ?c (frames pad ms) ms False" using c0(5) [of c0] by (simp add: same_reading_def)
  moreover have r: "received ?c = received (holding a) @ [[1]]" using c0(2) by (simp add: received_def)
  moreover from r have "after_delivery p (holding a) ?c wk = wk'"
    using wk(1) by (simp add: after_delivery_def delivered_def sbind_def)
  ultimately show ?thesis using c0(1) wk(2) by (auto simp: same_sending_def)
qed

lemma client_gets_map:
  assumes "reads_ok pad (holding a) w [buf] True" "worker_ok (Suc 0) m wk"
    "worker_info_map_from_buffer (max_size p) buf = Inr mp" "fits buf"
  shows "\<exists>c' wk'. complete_read (worker_layer p pad wk) w (holding a) = Some ((Inr (), c'), []) \<and>
    same_sending (holding a) c' \<and> received c' = received (holding a) @ [buf] \<and>
    \<not> is_open c' \<and> reading c' = No_read \<and>
    after_delivery p (holding a) c' wk = wk' \<and> worker_ok (Suc (Suc 0)) m wk'"
proof -
  obtain wk' where wk: "model_receive (worker_handlers p) 0 buf wk = (Inr (), wk')"
      "worker_ok (Suc (Suc 0)) m wk'" "new_calls wk wk' = [Call_disconnect 0, Call_stop]"
    using worker_gets_map [OF assms(2,3)] by blast
  from read_body [OF assms(1,4), of "worker_layer p pad wk"] obtain c0 where
    c0: "same_sending (holding a) c0" "received c0 = received (holding a) @ [buf]" "is_open c0" "reading c0 = No_read"
      "complete_read (worker_layer p pad wk) w (holding a) =
        Some (andthen (on_receive (worker_layer p pad wk) buf) do_receive_message c0, [])"
    by (metis frames_simps(1))
  let ?c = "c0\<lparr>is_open := False, effects := effects c0 @ close_effects c0\<rparr>"
  have "on_receive (worker_layer p pad wk) buf c0 = (Inr (), ?c)"
    using wk by (simp add: worker_layer_def model_layer_receive)
  then have "complete_read (worker_layer p pad wk) w (holding a) = Some ((Inr (), ?c), [])"
    using c0(5) by (simp add: do_receive_message_def)
  moreover have r: "received ?c = received (holding a) @ [buf]"
    using c0(2) by (auto simp: received_def close_effects_def)
  moreover from r have "after_delivery p (holding a) ?c wk = wk'"
    using wk(1) by (simp add: after_delivery_def delivered_def sbind_def)
  ultimately show ?thesis using c0(1,4) wk(2) by (auto simp: same_sending_def)
qed

text \<open>
  The coordinator's calls for the other connections: the map is queued on every one of them, and
  \<open>stop\<close> closes the acceptor.
\<close>

definition queue_on :: "byte list \<Rightarrow> int set \<Rightarrow> byte list \<Rightarrow> async_server \<Rightarrow> async_server" where
  "queue_on pad D buf sv = sv\<lparr>cmanager := (cmanager sv)\<lparr>holdings := (\<lambda>i.
     if i \<in> D then map_option (map_option (\<lambda>c. snd (do_send_message pad buf c))) (holdings (cmanager sv) i)
     else holdings (cmanager sv) i)\<rparr>\<rparr>"

lemma server_sends:
  assumes "length pad = 3"
  shows "distinct ds \<Longrightarrow> \<forall>d\<in>set ds. \<exists>c. holdings (cmanager sv) d = Some (Some c) \<Longrightarrow>
    server_calls pad (map (\<lambda>d. Call_send d buf) ds @ ks) sv = server_calls pad ks (queue_on pad (set ds) buf sv)"
proof (induction ds arbitrary: sv)
  case Nil
  show ?case by (simp add: queue_on_def)
next
  case (Cons d ds)
  obtain c where c: "holdings (cmanager sv) d = Some (Some c)" using Cons.prems(2) by auto
  obtain c' where c': "do_send_message pad buf c = (Inr (), c')"
    using do_send_message_ok [OF assms] by blast
  let ?sv = "sv\<lparr>cmanager := (cmanager sv)\<lparr>holdings := (holdings (cmanager sv))(d \<mapsto> Some c')\<rparr>\<rparr>"
  have "server_calls pad (map (\<lambda>d. Call_send d buf) (d # ds) @ ks) sv =
      server_calls pad (map (\<lambda>d. Call_send d buf) ds @ ks) ?sv"
    using manager_send_held [OF c c'] by (simp add: sbind_def on_cmanager_def)
  also have "\<dots> = server_calls pad ks (queue_on pad (set ds) buf ?sv)"
    using Cons.prems by (intro Cons.IH) auto
  also have "queue_on pad (set ds) buf ?sv = queue_on pad (set (d # ds)) buf sv"
    using Cons.prems(1) c c' by (auto simp: queue_on_def fun_eq_iff)
  finally show ?case .
qed

lemma filter_own_sends:
  "distinct ds \<Longrightarrow> filter (own_call i) (map (\<lambda>d. Call_send d buf) ds) =
     (if i \<in> set ds then [Call_send i buf] else [])"
  by (induction ds) (auto simp: own_call_def)

lemma filter_other_sends:
  "filter (Not \<circ> own_call i) (map (\<lambda>d. Call_send d buf) ds) =
     map (\<lambda>d. Call_send d buf) (filter (\<lambda>d. d \<noteq> i) ds)"
  by (induction ds) (auto simp: own_call_def)

text \<open>A worker registers: the whole handler of the read of its first message.\<close>

definition registration_calls :: "platform \<Rightarrow> nat \<Rightarrow> int list \<Rightarrow> int \<Rightarrow> model_call list" where
  "registration_calls p n is i = Call_send i [1] #
     (if length is < n then []
      else map (\<lambda>d. Call_send d (startup_buffer p is)) (order_of p is) @ [Call_stop])"

lemma own_registration_calls:
  assumes "platform_ok p" "distinct is" "i \<in> set is"
  shows "filter (own_call i) (registration_calls p n is i) =
      Call_send i [1] # (if length is < n then [] else [Call_send i (startup_buffer p is)])"
    and "filter (Not \<circ> own_call i) (registration_calls p n is i) =
      (if length is < n then []
       else map (\<lambda>d. Call_send d (startup_buffer p is)) (filter (\<lambda>d. d \<noteq> i) (order_of p is)) @ [Call_stop])"
proof -
  have "distinct (order_of p is)" "set (order_of p is) = set is"
    using assms(1,2) by (simp_all add: platform_ok_def)
  then show "filter (own_call i) (registration_calls p n is i) =
      Call_send i [1] # (if length is < n then [] else [Call_send i (startup_buffer p is)])"
    using assms(3) by (simp add: registration_calls_def filter_own_sends own_call_def)
  show "filter (Not \<circ> own_call i) (registration_calls p n is i) =
      (if length is < n then []
       else map (\<lambda>d. Call_send d (startup_buffer p is)) (filter (\<lambda>d. d \<noteq> i) (order_of p is)) @ [Call_stop])"
    using filter_other_sends [of i "startup_buffer p is" "order_of p is"]
    by (simp add: registration_calls_def own_call_def comp_def)
qed

lemma server_registers:
  assumes "length pad = 3" "platform_ok p" "fresh_coordinator n co" "regs_ok co (rs @ [(i, f)])" "length rs < n"
    and "is = map fst (rs @ [(i, f)])"
    and "reads_ok pad c w [first_bytes f] True" "sends_ok pad c []" "fits (first_bytes f)"
    and "\<forall>d\<in>set is - {i}. \<exists>c. holdings (cmanager sv) d = Some (Some c)"
  shows "\<exists>c' res. complete_read (coordinator_layer p pad i (coord_at p co rs)) w c = Some (res, []) \<and>
    sends_ok pad c' (if length is < n then [[1]] else [[1], startup_buffer p is]) \<and>
    reads_ok pad c' [] [] False \<and>
    after_message p pad i c res (coord_at p co rs, sv) =
      (Inr (), (coord_at p co (rs @ [(i, f)]),
        (let sv' = sv\<lparr>cmanager := (cmanager sv)\<lparr>holdings := (holdings (cmanager sv))(i \<mapsto> Some c')\<rparr>\<rparr>
         in if length is < n then sv'
            else (queue_on pad (set is - {i}) (startup_buffer p is) sv')\<lparr>acceptor_open := False\<rparr>)))"
proof -
  let ?co = "coord_at p co rs" let ?co' = "coord_at p co (rs @ [(i, f)])"
  note receives = coordinator_receives [OF assms(2-5)]
  have ids: "distinct is" "i \<in> set is" "length is = Suc (length rs)"
    using assms(4) by (simp_all only: regs_ok_def assms(6)) simp_all
  have order: "distinct (order_of p is)" "set (order_of p is) = set is"
    using assms(2) ids(1) by (simp_all add: platform_ok_def)
  have new: "new_calls ?co ?co' = registration_calls p n is i"
    using receives(2) ids(3) by (simp add: new_calls_def registration_calls_def assms(6))
  note own = own_registration_calls [OF assms(2) ids(1,2), of n]
  from read_body [OF assms(7,9), of "coordinator_layer p pad i ?co"] obtain c0 where
    c0: "same_sending c c0" "received c0 = received c @ [first_bytes f]" "is_open c0"
      "complete_read (coordinator_layer p pad i ?co) w c =
        Some (andthen (on_receive (coordinator_layer p pad i ?co) (first_bytes f)) do_receive_message c0, [])"
      "\<And>c1. same_reading c0 c1 \<Longrightarrow> reads_ok pad (c1\<lparr>reading := Header_read\<rparr>) [] [] False"
    by (metis frames_simps(1))
  have "sends_ok pad c0 []" using assms(8) same_sendingD [OF c0(1)] by simp
  from send_one [OF assms(1) this, of "[1]"] obtain c1 where
    c1: "do_send_message pad [1] c0 = (Inr (), c1)" "sends_ok pad c1 [[1]]" "same_reading c0 c1" by auto
  from send_one [OF assms(1) c1(2), of "startup_buffer p is"] obtain c2 where
    c2: "do_send_message pad (startup_buffer p is) c1 = (Inr (), c2)"
      "sends_ok pad c2 [[1], startup_buffer p is]" "same_reading c1 c2" by auto
  define c3 where "c3 = (if length is < n then c1 else c2)"
  have c3: "same_reading c0 c3" using c1(3) c2(3) by (auto simp: c3_def same_reading_def)
  have "on_receive (coordinator_layer p pad i ?co) (first_bytes f) c0 = (Inr (), c3)"
    using receives(1) c1(1) c2(1)
    by (simp add: coordinator_layer_def model_layer_receive new own(1) c3_def)
  moreover have "is_open c3" using c0(3) c3 by (simp add: same_reading_def)
  ultimately have read: "complete_read (coordinator_layer p pad i ?co) w c =
      Some ((Inr (), c3\<lparr>reading := Header_read\<rparr>), [])"
    using c0(4) by (simp add: do_receive_message_def)
  let ?c = "c3\<lparr>reading := Header_read\<rparr>"
  let ?sv = "sv\<lparr>cmanager := (cmanager sv)\<lparr>holdings := (holdings (cmanager sv))(i \<mapsto> Some ?c)\<rparr>\<rparr>"
  have "received ?c = received c @ [first_bytes f]" using c0(2) c3 by (simp add: same_reading_def received_def)
  then have "delivered c ?c = [first_bytes f]" by (simp add: delivered_def)
  then have co': "snd (receive_all (coordinator_handlers p) (map (Pair i) (delivered c ?c)) ?co) = ?co'"
    using receives(1) by (simp add: sbind_def)
  have "server_calls pad (filter (Not \<circ> own_call i) (new_calls ?co ?co')) ?sv =
      (Inr (), if length is < n then ?sv
         else (queue_on pad (set is - {i}) (startup_buffer p is) ?sv)\<lparr>acceptor_open := False\<rparr>)"
  proof (cases "length is < n")
    case True
    then show ?thesis by (simp add: new own(2))
  next
    case False
    have "set (filter (\<lambda>d. d \<noteq> i) (order_of p is)) = set is - {i}" using order(2) by auto
    moreover have "\<forall>d\<in>set (filter (\<lambda>d. d \<noteq> i) (order_of p is)). \<exists>c. holdings (cmanager ?sv) d = Some (Some c)"
      using assms(10) order(2) by simp
    moreover have "distinct (filter (\<lambda>d. d \<noteq> i) (order_of p is))" using order(1) by simp
    ultimately show ?thesis using False server_sends [OF assms(1), of "filter (\<lambda>d. d \<noteq> i) (order_of p is)"]
      by (simp add: new own(2) sbind_def server_stop_def)
  qed
  then have "after_message p pad i c (Inr (), ?c) (?co, sv) =
      (Inr (), (?co', if length is < n then ?sv
         else (queue_on pad (set is - {i}) (startup_buffer p is) ?sv)\<lparr>acceptor_open := False\<rparr>))"
    by (simp add: after_message_def co' Let_def)
  moreover have "sends_ok pad ?c (if length is < n then [[1]] else [[1], startup_buffer p is])"
    using c1(2) c2(2) by (simp add: c3_def sends_ok_def)
  ultimately show ?thesis using read c0(5) [OF c3]
    by (intro exI [of _ ?c] exI [of _ "(Inr (), ?c)"]) (simp add: Let_def)
qed

text \<open>A read at the end of the stream closes the connection, however it ends.\<close>

lemma eof_closes:
  assumes "reads_ok pad c [] [] False" "x \<noteq> Operation_aborted"
  shows "\<exists>c'. complete_eof (model_layer pad' own handle m) x c = Some (Inr (), c') \<and> \<not> is_open c' \<and>
    reading c' = No_read \<and> same_sending c c'"
proof -
  have "cclass c = Server_connection \<or> cclass c = Client_connection" "reading c = Header_read"
    using assms by (simp_all add: reads_ok_def plain_class_def)
  with assms(2) show ?thesis
    by (cases x) (auto simp: complete_eof_def when_header_received_def handle_eofs upper_event_def emit_def
        model_layer_def same_sending_def log_texts)
qed

end
