(* ===== verification/Startup_Progress.thy ===== *)
theory Startup_Progress
  imports Startup_Steps
begin

text \<open>
  The invariant of the start-up: how far every worker has got, what this means for its connection
  on both sides, and that every handler that can run moves one worker one step further.
\<close>

section \<open>Progress of a worker\<close>

text \<open>
  How far a worker and its connection have got. \<open>stage\<close>: not running, first message queued, on the
  wire, its header read, the message handled by the coordinator; \<open>acc\<close> is the id of the connection;
  of the messages of the coordinator to this worker, \<open>got\<close> have been read, \<open>flying\<close> are on the
  wire (\<open>half\<close>: the header of the first is read) and \<open>queued\<close> are not written; \<open>over\<close>: the
  coordinator has seen the end of the connection.
\<close>

record phase =
  stage :: nat
  acc :: "int option"
  got :: "byte list list"
  flying :: "byte list list"
  queued :: "byte list list"
  half :: bool
  over :: bool

definition contents :: "phase \<Rightarrow> byte list list" where
  "contents ph = got ph @ flying ph @ queued ph"

text \<open>The number of handlers that have run for the worker, of twelve.\<close>

definition steps_done :: "phase \<Rightarrow> nat" where
  "steps_done ph = stage ph + (if acc ph = None then 0 else 1) + 2 * length (got ph) +
     (if half ph then 1 else 0) + length (got ph) + length (flying ph) + (if over ph then 1 else 0)"

definition end_ok ::
  "byte list \<Rightarrow> firsconnection \<Rightarrow> worker_deamon \<Rightarrow> async_client \<Rightarrow> endpoint \<Rightarrow> phase \<Rightarrow> bool" where
  "end_ok pad f w a e ph \<longleftrightarrow>
     running e = (stage ph \<noteq> 0) \<and> conn_no e = acc ph \<and> stage ph \<le> 4 \<and>
     (acc ph = None \<longrightarrow> stage ph \<le> 2 \<and>
        up_bytes e = frames pad (if stage ph = 2 then [first_bytes f] else [])) \<and>
     (stage ph < 4 \<longrightarrow> contents ph = []) \<and> length (contents ph) \<le> 2 \<and>
     (half ph \<longrightarrow> flying ph \<noteq> []) \<and> (over ph \<longrightarrow> length (got ph) = 2) \<and>
     (if stage ph = 0 then worker e = w \<and> client e = a \<and> down_bytes e = []
      else received (holding (client e)) = filter fits (got ph) \<and>
        sends_ok pad (holding (client e)) (if stage ph = 1 then [first_bytes f] else []) \<and>
        worker_ok (length (filter fits (got ph))) (first_bytes f) (worker e) \<and>
        (if length (got ph) < 2 then reads_ok pad (holding (client e)) (down_bytes e) (flying ph) (half ph)
         else \<not> is_open (holding (client e)) \<and> reading (holding (client e)) = No_read))"

definition conn_ok :: "byte list \<Rightarrow> firsconnection \<Rightarrow> connection \<Rightarrow> endpoint \<Rightarrow> phase \<Rightarrow> bool" where
  "conn_ok pad f c e ph \<longleftrightarrow> sends_ok pad c (queued ph) \<and>
     (if over ph then \<not> is_open c \<and> reading c = No_read \<and> up_bytes e = []
      else reads_ok pad c (up_bytes e) (if stage ph = 2 \<or> stage ph = 3 then [first_bytes f] else []) (stage ph = 3))"

section \<open>The invariant\<close>

text \<open>\<open>js\<close> are the workers that are registered, in this order.\<close>

definition registered_at :: "(nat \<Rightarrow> firsconnection) \<Rightarrow> (nat \<Rightarrow> phase) \<Rightarrow> nat list \<Rightarrow> (int \<times> firsconnection) list" where
  "registered_at f ph js = map (\<lambda>j. (the (acc (ph j)), f j)) js"

definition numbers_of :: "(nat \<Rightarrow> phase) \<Rightarrow> nat list \<Rightarrow> int list" where
  "numbers_of ph js = map (\<lambda>j. the (acc (ph j))) js"

definition setup_ok ::
  "platform \<Rightarrow> byte list \<Rightarrow> nat \<Rightarrow> coordinator \<Rightarrow> (nat \<Rightarrow> firsconnection) \<Rightarrow> (nat \<Rightarrow> worker_deamon) \<Rightarrow>
    (nat \<Rightarrow> async_client) \<Rightarrow> bool" where
  "setup_ok p pad n co f w a \<longleftrightarrow> length pad = 3 \<and> platform_ok p \<and> 0 < n \<and> n < 2 ^ 28 \<and> fresh_coordinator n co \<and>
     (\<forall>j<n. fresh_worker (f j) (w j) \<and> fresh_client (a j) \<and> firstcookie (f j) = cookies co ! j)"

definition net_inv ::
  "platform \<Rightarrow> byte list \<Rightarrow> nat \<Rightarrow> coordinator \<Rightarrow> (nat \<Rightarrow> firsconnection) \<Rightarrow> (nat \<Rightarrow> worker_deamon) \<Rightarrow>
    (nat \<Rightarrow> async_client) \<Rightarrow> (nat \<Rightarrow> phase) \<Rightarrow> nat list \<Rightarrow> deployment \<Rightarrow> bool" where
  "net_inv p pad n co f w a ph js s \<longleftrightarrow>
     \<not> crashed s \<and>
     (\<forall>j<n. end_ok pad (f j) (w j) (a j) (ends s j) (ph j)) \<and>
     (\<forall>j<n. \<forall>i. acc (ph j) = Some i \<longrightarrow> id_ok i \<and>
        (\<exists>c. held s j = Some (i, c) \<and> conn_ok pad (f j) c (ends s j) (ph j))) \<and>
     (\<forall>j<n. \<forall>k<n. acc (ph j) = acc (ph k) \<longrightarrow> acc (ph j) \<noteq> None \<longrightarrow> j = k) \<and>
     mclass (cmanager (serv s)) = Server_connection \<and>
     conn_room (cmanager (serv s)) (card {j. j < n \<and> acc (ph j) = None}) \<and>
     distinct js \<and> set js = {j. j < n \<and> stage (ph j) = 4} \<and>
     coord s = coord_at p co (registered_at f ph js) \<and>
     (acceptor_open (serv s) = (length js < n)) \<and> accepting (serv s) \<and>
     (\<forall>j\<in>set js. contents (ph j) =
        [1] # (if length js < n then [] else [startup_buffer p (numbers_of ph js)]))"

lemma held_eq:
  "held s j = Some (i, c) \<longleftrightarrow> conn_no (ends s j) = Some i \<and> holdings (cmanager (serv s)) i = Some (Some c)"
  by (auto simp: held_def split: option.splits)

lemma set_simps [simp]:
  "crashed (set_end j e s) = crashed s" "crashed (set_held i c s) = crashed s"
  "ends (set_end j e s) = (ends s)(j := e)" "ends (set_held i c s) = ends s"
  "serv (set_end j e s) = serv s" "coord (set_end j e s) = coord s" "coord (set_held i c s) = coord s"
  "mclass (cmanager (serv (set_held i c s))) = mclass (cmanager (serv s))"
  "acceptor_open (serv (set_held i c s)) = acceptor_open (serv s)"
  "accepting (serv (set_held i c s)) = accepting (serv s)"
  "holdings (cmanager (serv (set_held i c s))) = (holdings (cmanager (serv s)))(i \<mapsto> Some c)"
  "next_id (cmanager (serv (set_held i c s))) = next_id (cmanager (serv s))"
  by (simp_all add: set_end_def set_held_def)

lemma outcome_Inr [simp]: "outcome (Inr u) s = s"
  by (simp add: outcome_def)

text \<open>A step that changes one worker and at most its own connection, and registers nobody.\<close>

lemma net_inv_local:
  assumes inv: "net_inv p pad n co f w a ph js s" and j: "j < n"
    and e: "end_ok pad (f j) (w j) (a j) e ph'"
    and same: "acc ph' = acc (ph j)" "stage ph' = 4 \<longleftrightarrow> stage (ph j) = 4" "contents ph' = contents (ph j)"
    and t: "crashed t = crashed s" "ends t = (ends s)(j := e)" "coord t = coord s"
      "mclass (cmanager (serv t)) = mclass (cmanager (serv s))" "next_id (cmanager (serv t)) = next_id (cmanager (serv s))"
      "acceptor_open (serv t) = acceptor_open (serv s)" "accepting (serv t) = accepting (serv s)"
      "dom (holdings (cmanager (serv t))) = dom (holdings (cmanager (serv s)))"
      "\<And>i. acc (ph j) \<noteq> Some i \<Longrightarrow> holdings (cmanager (serv t)) i = holdings (cmanager (serv s)) i"
    and own: "\<And>i c. held s j = Some (i, c) \<Longrightarrow>
      \<exists>c'. holdings (cmanager (serv t)) i = Some (Some c') \<and> conn_ok pad (f j) c' e ph'"
  shows "net_inv p pad n co f w a (ph(j := ph')) js t"
proof -
  let ?ph = "ph(j := ph')"
  have acc: "acc (?ph k) = acc (ph k)" for k using same(1) by simp
  have ends: "end_ok pad (f k) (w k) (a k) (ends t k) (?ph k)" if "k < n" for k
    using inv that e t(2) by (simp add: net_inv_def)
  have held: "id_ok i \<and> (\<exists>c. held t k = Some (i, c) \<and> conn_ok pad (f k) c (ends t k) (?ph k))"
    if k: "k < n" and i: "acc (ph k) = Some i" for k i
  proof -
    obtain c where c: "held s k = Some (i, c)" "conn_ok pad (f k) c (ends s k) (ph k)" "id_ok i"
      using inv k i unfolding net_inv_def by meson
    show ?thesis
    proof (cases "k = j")
      case True
      with own [of i c] c obtain c' where "holdings (cmanager (serv t)) i = Some (Some c')" "conn_ok pad (f j) c' e ph'"
        by auto
      moreover have "conn_no e = Some i" using e same(1) i True by (simp add: end_ok_def)
      ultimately show ?thesis using True t(2) c(3) by (simp add: held_eq)
    next
      case False
      have "acc (ph j) \<noteq> Some i"
      proof
        assume "acc (ph j) = Some i"
        with i k j inv have "j = k" unfolding net_inv_def by (metis option.distinct(1))
        with False show False by simp
      qed
      with t(9) c False t(2) show ?thesis by (auto simp: held_eq)
    qed
  qed
  have card: "{k. k < n \<and> acc (?ph k) = None} = {k. k < n \<and> acc (ph k) = None}" using acc by simp
  have stages: "{k. k < n \<and> stage (?ph k) = 4} = {k. k < n \<and> stage (ph k) = 4}" using same(2) by auto
  have lists: "registered_at f ?ph js = registered_at f ph js" "numbers_of ?ph js = numbers_of ph js"
    using acc by (simp_all add: registered_at_def numbers_of_def)
  have contents: "contents (?ph k) = contents (ph k)" for k using same(3) by simp
  show ?thesis
    unfolding net_inv_def acc card stages lists contents
  proof (intro conjI)
    show "\<forall>k<n. \<forall>i. acc (ph k) = Some i \<longrightarrow> id_ok i \<and>
        (\<exists>c. held t k = Some (i, c) \<and> conn_ok pad (f k) c (ends t k) (?ph k))"
      using held by blast
  qed (use inv ends t in \<open>simp_all add: net_inv_def conn_room_def\<close>)
qed

section \<open>Every handler makes progress\<close>

definition all_steps :: "nat \<Rightarrow> (nat \<Rightarrow> phase) \<Rightarrow> nat" where
  "all_steps n ph = (\<Sum>j<n. steps_done (ph j))"

lemma all_steps_change:
  assumes "j < n" "steps_done (q j) = Suc (steps_done (ph j))"
    and "\<And>k. k < n \<Longrightarrow> k \<noteq> j \<Longrightarrow> steps_done (q k) = steps_done (ph k)"
  shows "all_steps n q = Suc (all_steps n ph)"
proof -
  have "all_steps n r = steps_done (r j) + (\<Sum>k\<in>{..<n} - {j}. steps_done (r k))" for r
    using assms(1) by (simp add: all_steps_def sum.remove)
  moreover have "(\<Sum>k\<in>{..<n} - {j}. steps_done (q k)) = (\<Sum>k\<in>{..<n} - {j}. steps_done (ph k))"
    using assms(3) by (intro sum.cong) auto
  ultimately show ?thesis using assms(2) by simp
qed

lemma all_steps_update:
  "j < n \<Longrightarrow> steps_done ph' = Suc (steps_done (ph j)) \<Longrightarrow> all_steps n (ph(j := ph')) = Suc (all_steps n ph)"
  by (rule all_steps_change) simp_all

definition advances ::
  "platform \<Rightarrow> byte list \<Rightarrow> nat \<Rightarrow> coordinator \<Rightarrow> (nat \<Rightarrow> firsconnection) \<Rightarrow> (nat \<Rightarrow> worker_deamon) \<Rightarrow>
    (nat \<Rightarrow> async_client) \<Rightarrow> (nat \<Rightarrow> phase) \<Rightarrow> deployment option \<Rightarrow> bool" where
  "advances p pad n co f w a ph r \<longleftrightarrow>
     (\<exists>s' ph' js'. r = Some s' \<and> net_inv p pad n co f w a ph' js' s' \<and> all_steps n ph' = Suc (all_steps n ph))"

lemma inv_end: "net_inv p pad n co f w a ph js s \<Longrightarrow> j < n \<Longrightarrow> end_ok pad (f j) (w j) (a j) (ends s j) (ph j)"
  by (simp add: net_inv_def)

lemma inv_held:
  assumes "net_inv p pad n co f w a ph js s" "j < n" "acc (ph j) = Some i"
  obtains c where "held s j = Some (i, c)" "conn_ok pad (f j) c (ends s j) (ph j)" "id_ok i"
  using assms unfolding net_inv_def by meson

lemma inv_not_held:
  assumes "net_inv p pad n co f w a ph js s" "j < n" "acc (ph j) = None"
  shows "held s j = None"
  using inv_end [OF assms(1,2)] assms(3) by (simp add: held_def end_ok_def)

lemma inv_acc_unique:
  assumes "net_inv p pad n co f w a ph js s" "j < n" "k < n" "acc (ph j) = acc (ph k)" "acc (ph j) \<noteq> None"
  shows "j = k"
proof -
  have "\<forall>j<n. \<forall>k<n. acc (ph j) = acc (ph k) \<longrightarrow> acc (ph j) \<noteq> None \<longrightarrow> j = k"
    using assms(1) unfolding net_inv_def by (elim conjE)
  with assms(2-5) show ?thesis by blast
qed

lemma setupD:
  assumes "setup_ok p pad n co f w a"
  shows "length pad = 3" "platform_ok p" "fresh_coordinator n co" "n < 2 ^ 28"
    "j < n \<Longrightarrow> fresh_worker (f j) (w j)" "j < n \<Longrightarrow> fresh_client (a j)" "j < n \<Longrightarrow> firstcookie (f j) = cookies co ! j"
  using assms by (simp_all add: setup_ok_def)

text \<open>Before the coordinator has handled the first message it has sent nothing.\<close>

lemma early_end:
  assumes "end_ok pad f w a e ph" "stage ph < 4"
  shows "got ph = []" "flying ph = []" "queued ph = []" "\<not> half ph" "\<not> over ph"
  using assms by (auto simp: end_ok_def contents_def)

text \<open>The two kinds of steps that change one worker and no list of the coordinator.\<close>

lemma advances_end:
  assumes inv: "net_inv p pad n co f w a ph js s" and j: "j < n"
    and e: "end_ok pad (f j) (w j) (a j) e ph'"
    and same: "acc ph' = acc (ph j)" "stage ph' = 4 \<longleftrightarrow> stage (ph j) = 4" "contents ph' = contents (ph j)"
    and own: "\<And>i c. held s j = Some (i, c) \<Longrightarrow> conn_ok pad (f j) c (ends s j) (ph j) \<Longrightarrow> conn_ok pad (f j) c e ph'"
    and steps: "steps_done ph' = Suc (steps_done (ph j))"
  shows "advances p pad n co f w a ph (Some (set_end j e s))"
proof -
  have "net_inv p pad n co f w a (ph(j := ph')) js (set_end j e s)"
  proof (rule net_inv_local [OF inv j e same])
    fix i c assume h: "held s j = Some (i, c)"
    then have "acc (ph j) = Some i" using inv_end [OF inv j] by (simp add: held_eq end_ok_def)
    from inv_held [OF inv j this] h have "conn_ok pad (f j) c (ends s j) (ph j)" by force
    with own [OF h] h show "\<exists>c'. holdings (cmanager (serv (set_end j e s))) i = Some (Some c') \<and> conn_ok pad (f j) c' e ph'"
      by (simp add: held_eq)
  qed simp_all
  with all_steps_update [where ph = ph, OF j steps] show ?thesis unfolding advances_def by blast
qed

lemma advances_held:
  assumes inv: "net_inv p pad n co f w a ph js s" and j: "j < n"
    and e: "end_ok pad (f j) (w j) (a j) e ph'"
    and same: "acc ph' = acc (ph j)" "stage ph' = 4 \<longleftrightarrow> stage (ph j) = 4" "contents ph' = contents (ph j)"
    and own: "held s j = Some (i, c)" "conn_ok pad (f j) c' e ph'"
    and steps: "steps_done ph' = Suc (steps_done (ph j))"
  shows "advances p pad n co f w a ph (Some (set_held i c' (set_end j e s)))"
proof -
  have i: "acc (ph j) = Some i" using inv_end [OF inv j] own(1) by (simp add: held_eq end_ok_def)
  have "net_inv p pad n co f w a (ph(j := ph')) js (set_held i c' (set_end j e s))"
    by (rule net_inv_local [OF inv j e same]) (use own i in \<open>auto simp: held_eq\<close>)
  with all_steps_update [where ph = ph, OF j steps] show ?thesis unfolding advances_def by blast
qed

lemma worker_runs_step:
  assumes "setup_ok p pad n co f w a" "net_inv p pad n co f w a ph js s" "j < n"
  shows "if stage (ph j) = 0 then advances p pad n co f w a ph (worker_runs pad j s) else worker_runs pad j s = None"
proof (cases "stage (ph j) = 0")
  case True
  note S = setupD [OF assms(1)] and e = inv_end [OF assms(2,3)]
  have e0: "\<not> running (ends s j)" "worker (ends s j) = w j" "client (ends s j) = a j" "down_bytes (ends s j) = []"
    "got (ph j) = []" "flying (ph j) = []" "queued (ph j) = []" "\<not> half (ph j)"
    using e True early_end [OF e] by (simp_all add: end_ok_def)
  from run_client_starts [OF S(1) S(5) [OF assms(3)] S(6) [OF assms(3)]] obtain w' a' where
    r: "run_client pad init_logic (w j, a j) = (Inr (), (w', a'))" "worker_ok 0 (first_bytes (f j)) w'"
      "sends_ok pad (holding a') [first_bytes (f j)]" "reads_ok pad (holding a') [] [] False"
      "received (holding a') = []"
    by blast
  let ?e = "(ends s j)\<lparr>worker := w', client := a', running := True\<rparr>"
  have "advances p pad n co f w a ph (Some (set_end j ?e s))"
    by (rule advances_end [OF assms(2,3), of _ "(ph j)\<lparr>stage := 1\<rparr>"])
      (use True e e0 r in \<open>auto simp: end_ok_def contents_def conn_ok_def steps_done_def\<close>)
  then show ?thesis using True e0 r(1) by (simp add: worker_runs_def)
next
  case False
  then show ?thesis using inv_end [OF assms(2,3)] by (simp add: worker_runs_def end_ok_def)
qed

lemma first_bytes_length:
  assumes "fresh_worker f w"
  shows "fits (first_bytes f)" "length (first_bytes f) < 2 ^ 32"
  using assms
  by (simp_all add: fits_def fresh_worker_def first_bytes_def firsconnection_val_def cookie_val_def cookie_ok_def
      data_len_def connection_buffer_size_def length_concat comp_def sum_list_triv)

lemma client_wrote_step:
  assumes "setup_ok p pad n co f w a" "net_inv p pad n co f w a ph js s" "j < n"
  shows "if stage (ph j) = 1 then advances p pad n co f w a ph (client_wrote p pad j s)
    else client_wrote p pad j s = None"
proof (cases "stage (ph j) = 1")
  case True
  note e = inv_end [OF assms(2,3)]
  let ?e = "ends s j" let ?m = "first_bytes (f j)"
  have e0: "got (ph j) = []" "flying (ph j) = []" "queued (ph j) = []" "\<not> half (ph j)"
      "sends_ok pad (holding (client ?e)) [?m]"
    using e True early_end [OF e] by (simp_all add: end_ok_def)
  from write_one [OF e0(5), of "worker_layer p pad (worker ?e)"] obtain c' where
    c': "complete_write (worker_layer p pad (worker ?e)) (holding (client ?e)) = Some ((Inr (), c'), frame pad ?m)"
      "sends_ok pad c' []" "same_reading (holding (client ?e)) c'"
    by auto
  note k = same_readingD [OF c'(3)]
  let ?e' = "?e\<lparr>client := (client ?e)\<lparr>holding := c'\<rparr>, up_bytes := up_bytes ?e @ frame pad ?m\<rparr>"
  have len: "length ?m < 2 ^ 32" by (rule first_bytes_length(2) [OF setupD(5) [OF assms(1,3)]])
  have "advances p pad n co f w a ph (Some (set_end j ?e' s))"
  proof (rule advances_end [OF assms(2,3), of _ "(ph j)\<lparr>stage := 2\<rparr>"])
    fix i c assume h: "held s j = Some (i, c)" and c: "conn_ok pad (f j) c ?e (ph j)"
    have "\<not> over (ph j)" using e e0(1) by (auto simp: end_ok_def)
    with c have "reads_ok pad c (up_bytes ?e) [] False" using True by (simp add: conn_ok_def)
    then have "reads_ok pad c (up_bytes ?e @ frame pad ?m) [?m] False" using len by (simp add: reads_ok_def)
    with c \<open>\<not> over (ph j)\<close> show "conn_ok pad (f j) c ?e' ((ph j)\<lparr>stage := 2\<rparr>)" by (simp add: conn_ok_def)
  qed (use True e e0 c' k in \<open>auto simp: end_ok_def contents_def steps_done_def\<close>)
  then show ?thesis using True c'(1) by (simp add: client_wrote_def Let_def)
next
  case False
  have "complete_write up (holding (client (ends s j))) = None" for up
  proof (cases "stage (ph j) = 0")
    case True
    then have "fresh_client (client (ends s j))"
      using inv_end [OF assms(2,3)] setupD(6) [OF assms(1,3)] by (simp add: end_ok_def)
    then show ?thesis by (auto simp: fresh_client_def complete_write_def new_connection_state_def)
  next
    case False
    then show ?thesis using inv_end [OF assms(2,3)] \<open>stage (ph j) \<noteq> 1\<close>
      by (intro write_none [of pad]) (simp add: end_ok_def)
  qed
  then show ?thesis using False by (simp add: client_wrote_def Let_def)
qed

text \<open>
  The registrations so far are legal: every worker has its own cookie and its own connection. The
  length of the map of the registered workers fits into a header, and the map fits into the receive
  buffer of a worker if there are at most 584 workers.
\<close>

lemma numbers_registered: "map fst (registered_at f ph js) = numbers_of ph js"
  by (simp add: registered_at_def numbers_of_def comp_def)

lemma inv_regs:
  assumes "setup_ok p pad n co f w a" "net_inv p pad n co f w a ph js s"
    and "distinct ks" "\<forall>k\<in>set ks. k < n \<and> acc (ph k) \<noteq> None"
  shows "regs_ok co (registered_at f ph ks)" "length ks \<le> n"
proof -
  note S = setupD [OF assms(1)]
  have cookies: "distinct (cookies co)" "length (cookies co) = n" using S(3) by (simp_all add: fresh_coordinator_def)
  have ks: "k < n" "acc (ph k) \<noteq> None" if "k \<in> set ks" for k using assms(4) that by simp_all
  have "inj_on (\<lambda>k. cookies co ! k) (set ks)" using cookies ks(1) by (intro inj_on_nth) auto
  then have d: "distinct (map (\<lambda>k. cookies co ! k) ks)" using assms(3) by (simp add: distinct_map)
  have m: "map (firstcookie \<circ> snd) (registered_at f ph ks) = map (\<lambda>k. cookies co ! k) ks"
    using S(7) ks(1) by (simp add: registered_at_def)
  have "set (map (\<lambda>k. cookies co ! k) ks) \<subseteq> set (cookies co)" using ks(1) cookies(2) by auto
  then have c: "distinct (map (firstcookie \<circ> snd) (registered_at f ph ks))"
      "(firstcookie \<circ> snd) ` set (registered_at f ph ks) \<subseteq> set (cookies co)"
    using d by (simp_all only: m set_map [symmetric])
  have "inj_on (\<lambda>k. the (acc (ph k))) (set ks)"
  proof (rule inj_onI)
    fix k l assume kl: "k \<in> set ks" "l \<in> set ks" "the (acc (ph k)) = the (acc (ph l))"
    with ks(2) [OF kl(1)] ks(2) [OF kl(2)] have "acc (ph k) = acc (ph l)" "acc (ph k) \<noteq> None" by auto
    with inv_acc_unique [OF assms(2) ks(1) [OF kl(1)] ks(1) [OF kl(2)]] show "k = l" by blast
  qed
  then have d: "distinct (numbers_of ph ks)" using assms(3) by (simp add: numbers_of_def distinct_map)
  have "id_ok (the (acc (ph k)))" if "k \<in> set ks" for k
    using inv_held [OF assms(2) ks(1) [OF that]] ks(2) [OF that] by (metis option.exhaust_sel)
  then have "list_all id_ok (numbers_of ph ks)" by (auto simp: numbers_of_def list_all_iff)
  with c d show "regs_ok co (registered_at f ph ks)" by (simp only: regs_ok_def numbers_registered)
  have "card (set ks) \<le> card {..<n}" using ks(1) by (intro card_mono) auto
  then show "length ks \<le> n" using distinct_card [OF assms(3)] by simp
qed

lemma inv_registered:
  assumes "net_inv p pad n co f w a ph js s"
  shows "distinct js" "\<forall>k\<in>set js. k < n \<and> acc (ph k) \<noteq> None" "j < n \<Longrightarrow> j \<in> set js \<longleftrightarrow> stage (ph j) = 4"
proof -
  have "acc (ph k) \<noteq> None" if "k < n" "stage (ph k) = 4" for k
    using inv_end [OF assms that(1)] that(2) by (auto simp: end_ok_def)
  then show "distinct js" "\<forall>k\<in>set js. k < n \<and> acc (ph k) \<noteq> None" "j < n \<Longrightarrow> j \<in> set js \<longleftrightarrow> stage (ph j) = 4"
    using assms by (simp_all add: net_inv_def)
qed

lemma inv_contents:
  assumes "net_inv p pad n co f w a ph js s" "j < n" "stage (ph j) = 4"
  shows "contents (ph j) = [1] # (if length js < n then [] else [startup_buffer p (numbers_of ph js)])"
proof -
  have "j \<in> set js" using inv_registered(3) [OF assms(1,2)] assms(3) by simp
  with assms(1) show ?thesis unfolding net_inv_def by blast
qed

lemma inv_buffer:
  assumes "setup_ok p pad n co f w a" "net_inv p pad n co f w a ph js s"
  shows "length (startup_buffer p (numbers_of ph js)) < 2 ^ 32"
    and "fits (startup_buffer p (numbers_of ph js)) \<longleftrightarrow> length js \<le> 584"
proof -
  note r = inv_regs [OF assms inv_registered(1,2) [OF assms(2)]]
  have "distinct (numbers_of ph js)" "list_all id_ok (numbers_of ph js)"
    using r(1) by (simp_all only: regs_ok_def numbers_registered)
  from startup_buffer_facts(3) [OF setupD(2) [OF assms(1)] this refl]
  have len: "length (startup_buffer p (numbers_of ph js)) = 9 + 14 * length js" by (simp add: numbers_of_def)
  show "length (startup_buffer p (numbers_of ph js)) < 2 ^ 32"
    using r(2) setupD(4) [OF assms(1)] unfolding len by simp
  show "fits (startup_buffer p (numbers_of ph js)) \<longleftrightarrow> length js \<le> 584"
    unfolding fits_def len by (auto simp: connection_buffer_size_def)
qed

lemma server_wrote_step:
  assumes "setup_ok p pad n co f w a" "net_inv p pad n co f w a ph js s" "j < n"
  shows "if queued (ph j) \<noteq> [] then advances p pad n co f w a ph (server_wrote p pad j s)
    else server_wrote p pad j s = None"
proof (cases "acc (ph j)")
  case None
  then have "queued (ph j) = []" using early_end [OF inv_end [OF assms(2,3)]] inv_end [OF assms(2,3)]
    by (simp add: end_ok_def)
  then show ?thesis using inv_not_held [OF assms(2,3) None] by (simp add: server_wrote_def)
next
  case (Some i)
  note e = inv_end [OF assms(2,3)]
  from inv_held [OF assms(2,3) Some] obtain c where c: "held s j = Some (i, c)" "conn_ok pad (f j) c (ends s j) (ph j)" .
  show ?thesis
  proof (cases "queued (ph j)")
    case Nil
    then have "complete_write up c = None" for up using c(2) by (intro write_none [of pad]) (simp add: conn_ok_def)
    then show ?thesis using Nil c(1) by (simp add: server_wrote_def)
  next
    case (Cons m q)
    have stage: "stage (ph j) = 4" using early_end [OF e] Cons e by (fastforce simp: end_ok_def)
    have len: "length (got (ph j)) + length (flying (ph j)) + length q < 2"
      using e Cons by (simp add: end_ok_def contents_def)
    have "sends_ok pad c (m # q)" using c(2) Cons by (simp add: conn_ok_def)
    from write_one [OF this, of "coordinator_layer p pad i (coord s)"] len obtain c' where
      c': "complete_write (coordinator_layer p pad i (coord s)) c = Some ((Inr (), c'), frame pad m)"
        "sends_ok pad c' q" "same_reading c c'"
      by auto
    let ?e = "(ends s j)\<lparr>down_bytes := down_bytes (ends s j) @ frame pad m\<rparr>"
    let ?ph = "(ph j)\<lparr>flying := flying (ph j) @ [m], queued := q\<rparr>"
    have m: "length m < 2 ^ 32"
    proof -
      have "m \<in> set (contents (ph j))" using Cons by (simp add: contents_def)
      then have m: "m \<in> set ([1] # (if length js < n then [] else [startup_buffer p (numbers_of ph js)]))"
        by (simp only: inv_contents [OF assms(2,3) stage])
      show ?thesis
      proof (cases "m = [1]")
        case False
        then have "m = startup_buffer p (numbers_of ph js)" using m by (auto split: if_splits)
        with inv_buffer(1) [OF assms(1,2)] show ?thesis by simp
      qed simp
    qed
    have reads: "reads_ok pad (holding (client (ends s j))) (down_bytes ?e) (flying ?ph) (half (ph j))"
      using e stage len m unfolding reads_ok_def end_ok_def
      by (cases "flying (ph j)") auto
    have "advances p pad n co f w a ph (Some (set_held i c' (set_end j ?e s)))"
    proof (rule advances_held [OF assms(2,3), of _ ?ph])
      show "end_ok pad (f j) (w j) (a j) ?e ?ph"
        using e stage len reads Cons by (simp add: end_ok_def contents_def)
      show "conn_ok pad (f j) c' ?e ?ph" using c(2) c'(2,3) same_readingD(1) [OF c'(3)]
        by (simp add: conn_ok_def same_reading_def)
    qed (use c(1) Cons in \<open>simp_all add: contents_def steps_done_def\<close>)
    then show ?thesis using Cons c(1) c'(1) by (simp add: server_wrote_def Let_def)
  qed
qed

lemma inv_map_read:
  assumes "setup_ok p pad n co f w a" "net_inv p pad n co f w a ph js s"
  shows "worker_info_map_from_buffer (max_size p) (startup_buffer p (numbers_of ph js)) =
    Inr (startup_map p (numbers_of ph js))"
proof -
  note r = inv_regs [OF assms inv_registered(1,2) [OF assms(2)]]
  have "distinct (numbers_of ph js)" "list_all id_ok (numbers_of ph js)"
    using r(1) by (simp_all only: regs_ok_def numbers_registered)
  then show ?thesis by (rule startup_buffer_facts(4) [OF setupD(2) [OF assms(1)] _ _ refl])
qed

text \<open>The next message of a worker is the OK, or the map if it has got the OK.\<close>

lemma next_message:
  assumes "net_inv p pad n co f w a ph js s" "j < n" "flying (ph j) = m # ms"
  shows "got (ph j) = [] \<and> m = [1] \<and> length ms < 2 \<or>
    got (ph j) = [[1]] \<and> m = startup_buffer p (numbers_of ph js) \<and> ms = [] \<and> queued (ph j) = []"
proof -
  note e = inv_end [OF assms(1,2)]
  have "stage (ph j) = 4" using early_end(2) [OF e] assms(3) e by (fastforce simp: end_ok_def)
  from inv_contents [OF assms(1,2) this] show ?thesis
    using assms(3) by (cases "got (ph j)") (auto simp: contents_def Cons_eq_append_conv append_eq_Cons_conv split: if_splits)
qed

lemma client_reads_step:
  assumes "setup_ok p pad n co f w a" "net_inv p pad n co f w a ph js s" "j < n"
  shows "if flying (ph j) \<noteq> [] then advances p pad n co f w a ph (client_reads p pad j s)
    else client_reads p pad j s = None"
proof (cases "flying (ph j)")
  case Nil
  note e = inv_end [OF assms(2,3)]
  have "complete_read up (down_bytes (ends s j)) (holding (client (ends s j))) = None" for up
  proof (cases "stage (ph j) = 0 \<or> \<not> length (got (ph j)) < 2")
    case True
    moreover have "reading (holding (client (ends s j))) = No_read" if "stage (ph j) = 0"
      using that e setupD(6) [OF assms(1,3)] by (auto simp: end_ok_def fresh_client_def new_connection_state_def)
    ultimately have "reading (holding (client (ends s j))) = No_read" using e by (auto simp: end_ok_def)
    then show ?thesis by (simp add: complete_read_def)
  next
    case False
    then have r: "reads_ok pad (holding (client (ends s j))) (down_bytes (ends s j)) [] False"
      using e Nil by (auto simp: end_ok_def)
    then have "down_bytes (ends s j) = []" by (simp add: reads_ok_def)
    with r show ?thesis by (simp add: read_none)
  qed
  then show ?thesis using Nil by (simp add: client_reads_def Let_def)
next
  case (Cons m ms)
  note e = inv_end [OF assms(2,3)]
  let ?e = "ends s j" let ?c = "holding (client (ends s j))"
  have stage: "stage (ph j) = 4" using early_end(2) [OF e] Cons e by (fastforce simp: end_ok_def)
  have len: "length (got (ph j)) + length ms + length (queued (ph j)) < 2"
    using e Cons by (simp add: end_ok_def contents_def)
  have r: "reads_ok pad ?c (down_bytes ?e) (m # ms) (half (ph j))" "sends_ok pad ?c []"
      "worker_ok (length (filter fits (got (ph j)))) (first_bytes (f j)) (worker ?e)"
      "received ?c = filter fits (got (ph j))"
    using e stage len Cons by (simp_all add: end_ok_def)
  have "advances p pad n co f w a ph (client_reads p pad j s)"
  proof (cases "half (ph j)")
    case False
    from read_header [OF setupD(1) [OF assms(1)], of "?c" "down_bytes ?e" m ms "worker_layer p pad (worker ?e)"] r(1) False
    obtain c' rest where
      c': "complete_read (worker_layer p pad (worker ?e)) (down_bytes ?e) ?c = Some ((Inr (), c'), rest)"
        "reads_ok pad c' rest (m # ms) True" "same_sending ?c c'" "received c' = received ?c"
      by auto
    have "after_delivery p ?c c' (worker ?e) = worker ?e"
      using c'(4) by (simp add: after_delivery_def delivered_def)
    then have step: "client_reads p pad j s =
        Some (set_end j (?e\<lparr>client := (client ?e)\<lparr>holding := c'\<rparr>, down_bytes := rest\<rparr>) s)"
      using c'(1) by (simp add: client_reads_def Let_def)
    show ?thesis unfolding step
      by (rule advances_end [OF assms(2,3), of _ "(ph j)\<lparr>half := True\<rparr>"])
        (use e c' r same_sendingD [OF c'(3)] stage len False Cons in
          \<open>auto simp: end_ok_def contents_def steps_done_def conn_ok_def\<close>)
  next
    case True
    from next_message [OF assms(2,3) Cons] show ?thesis
    proof (elim disjE conjE)
      assume g: "got (ph j) = []" "m = [1]" "length ms < 2"
      from client_gets_ok [of pad "client ?e" "down_bytes ?e" ms "first_bytes (f j)" "worker ?e" p] r True g
      obtain c' wk' where
        c': "complete_read (worker_layer p pad (worker ?e)) (down_bytes ?e) ?c = Some ((Inr (), c'), frames pad ms)"
          "same_sending ?c c'" "received c' = received ?c @ [[1]]" "reads_ok pad c' (frames pad ms) ms False"
          "after_delivery p ?c c' (worker ?e) = wk'" "worker_ok (Suc 0) (first_bytes (f j)) wk'"
        by auto
      have step: "client_reads p pad j s = Some (set_end j (?e\<lparr>client := (client ?e)\<lparr>holding := c'\<rparr>,
          worker := wk', down_bytes := frames pad ms\<rparr>) s)"
        using c'(1,5) by (simp add: client_reads_def Let_def)
      show ?thesis unfolding step
        by (rule advances_end [OF assms(2,3), of _ "(ph j)\<lparr>got := [[1]], flying := ms, half := False\<rparr>"])
          (use e c' r same_sendingD [OF c'(2)] stage len True Cons g in
            \<open>auto simp: end_ok_def contents_def steps_done_def conn_ok_def\<close>)
    next
      assume g: "got (ph j) = [[1]]" "m = startup_buffer p (numbers_of ph js)" "ms = []" "queued (ph j) = []"
      have over: "\<not> over (ph j)" using e g(1) by (auto simp: end_ok_def)
      show ?thesis
      proof (cases "fits m")
        case small: True
        from client_gets_map [of pad "client ?e" "down_bytes ?e" m "first_bytes (f j)" "worker ?e" p
            "startup_map p (numbers_of ph js)"] r True g inv_map_read [OF assms(1,2)] small
        obtain c' wk' where
          c': "complete_read (worker_layer p pad (worker ?e)) (down_bytes ?e) ?c = Some ((Inr (), c'), [])"
            "same_sending ?c c'" "received c' = received ?c @ [m]" "\<not> is_open c'" "reading c' = No_read"
            "after_delivery p ?c c' (worker ?e) = wk'" "worker_ok (Suc (Suc 0)) (first_bytes (f j)) wk'"
          by auto
        have step: "client_reads p pad j s = Some (set_end j (?e\<lparr>client := (client ?e)\<lparr>holding := c'\<rparr>,
            worker := wk', down_bytes := []\<rparr>) s)"
          using c'(1,6) by (simp add: client_reads_def Let_def)
        show ?thesis unfolding step
          by (rule advances_end [OF assms(2,3), of _ "(ph j)\<lparr>got := got (ph j) @ [m], flying := [], half := False\<rparr>"])
            (use e c' r same_sendingD [OF c'(2)] stage len True Cons g over small in
              \<open>auto simp: end_ok_def contents_def steps_done_def conn_ok_def numeral_2_eq_2\<close>)
      next
        case large: False
        from read_body_oversized [of pad ?c "down_bytes ?e" m ms "worker_layer p pad (worker ?e)"] r(1) True large
        obtain c' rest where
          c': "complete_read (worker_layer p pad (worker ?e)) (down_bytes ?e) ?c = Some ((Inr (), c'), rest)"
            "same_sending ?c c'" "received c' = received ?c" "\<not> is_open c'" "reading c' = No_read"
          by auto
        have "after_delivery p ?c c' (worker ?e) = worker ?e"
          using c'(3) by (simp add: after_delivery_def delivered_def)
        then have step: "client_reads p pad j s =
            Some (set_end j (?e\<lparr>client := (client ?e)\<lparr>holding := c'\<rparr>, down_bytes := rest\<rparr>) s)"
          using c'(1) by (simp add: client_reads_def Let_def)
        show ?thesis unfolding step
          by (rule advances_end [OF assms(2,3), of _ "(ph j)\<lparr>got := got (ph j) @ [m], flying := [], half := False\<rparr>"])
            (use e c' r same_sendingD [OF c'(2)] stage len True Cons g over large in
              \<open>auto simp: end_ok_def contents_def steps_done_def conn_ok_def\<close>)
      qed
    qed
  qed
  then show ?thesis using Cons by simp
qed

lemma server_eof_step:
  assumes "setup_ok p pad n co f w a" "net_inv p pad n co f w a ph js s" "j < n"
  shows "if length (got (ph j)) = 2 \<and> \<not> over (ph j) \<and> x \<noteq> Operation_aborted
    then advances p pad n co f w a ph (server_eof p pad x j s) else server_eof p pad x j s = None"
proof (cases "acc (ph j)")
  case None
  then have "got (ph j) = []" using early_end [OF inv_end [OF assms(2,3)]] inv_end [OF assms(2,3)]
    by (simp add: end_ok_def)
  then show ?thesis using inv_not_held [OF assms(2,3) None] by (simp add: server_eof_def)
next
  case (Some i)
  note e = inv_end [OF assms(2,3)]
  let ?e = "ends s j"
  from inv_held [OF assms(2,3) Some] obtain c where c: "held s j = Some (i, c)" "conn_ok pad (f j) c ?e (ph j)" .
  show ?thesis
  proof (cases "length (got (ph j)) = 2 \<and> \<not> over (ph j) \<and> x \<noteq> Operation_aborted")
    case True
    have stage: "stage (ph j) = 4" using early_end(1) [OF e] True e by (fastforce simp: end_ok_def)
    have empty: "flying (ph j) = []" "queued (ph j) = []" "\<not> half (ph j)"
      using e True by (auto simp: end_ok_def contents_def)
    have r: "reads_ok pad c (up_bytes ?e) [] False" "sends_ok pad c []"
      using c(2) True stage empty by (simp_all add: conn_ok_def)
    then have up: "up_bytes ?e = []" by (simp add: reads_ok_def)
    with r eof_closes [of pad c x] True obtain c' where
      c': "complete_eof (coordinator_layer p pad i (coord s)) x c = Some (Inr (), c')" "\<not> is_open c'"
        "reading c' = No_read" "same_sending c c'"
      by (metis coordinator_layer_def)
    have "ends s = (ends s)(j := ?e)" by simp
    then have same: "set_end j ?e s = s" by (simp add: set_end_def)
    have step: "server_eof p pad x j s = Some (set_held i c' s)"
      using c(1) c'(1) up e stage True by (simp add: server_eof_def Let_def end_ok_def)
    have "advances p pad n co f w a ph (Some (set_held i c' (set_end j ?e s)))"
      by (rule advances_held [OF assms(2,3), of _ "(ph j)\<lparr>over := True\<rparr>"])
        (use e c c' up True empty stage same_sendingD [OF c'(4)] in
          \<open>auto simp: end_ok_def contents_def steps_done_def conn_ok_def\<close>)
    then show ?thesis using True step same by simp
  next
    case False
    have "is_open (holding (client ?e)) \<or> over (ph j) \<or> x = Operation_aborted"
    proof (cases "stage (ph j) = 0")
      case True
      then show ?thesis using e setupD(6) [OF assms(1,3)]
        by (auto simp: end_ok_def fresh_client_def new_connection_state_def)
    next
      case nz: False
      have "length (got (ph j)) \<le> 2" using e by (simp add: end_ok_def contents_def)
      then show ?thesis using e nz False by (auto simp: end_ok_def reads_ok_def)
    qed
    then show ?thesis using False c by (auto simp: server_eof_def complete_eof_def conn_ok_def Let_def)
  qed
qed

lemma client_eof_step:
  assumes "setup_ok p pad n co f w a" "net_inv p pad n co f w a ph js s" "j < n"
  shows "client_eof p pad x j s = None"
proof (cases "acc (ph j)")
  case None
  then show ?thesis using inv_not_held [OF assms(2,3) None] by (simp add: client_eof_def)
next
  case (Some i)
  note e = inv_end [OF assms(2,3)]
  from inv_held [OF assms(2,3) Some] obtain c where
    c: "held s j = Some (i, c)" "conn_ok pad (f j) c (ends s j) (ph j)" .
  have "is_open c \<or> reading (holding (client (ends s j))) = No_read"
  proof (cases "over (ph j)")
    case True
    then have "stage (ph j) = 4" using early_end(5) [OF e] e by (fastforce simp: end_ok_def)
    with True e show ?thesis by (simp add: end_ok_def)
  next
    case False
    with c(2) show ?thesis by (simp add: conn_ok_def reads_ok_def)
  qed
  then show ?thesis using c(1) by (auto simp: client_eof_def complete_eof_def Let_def)
qed

text \<open>Accepting: as long as a worker is not registered the server listens.\<close>

lemma inv_missing:
  assumes "net_inv p pad n co f w a ph js s" "j < n" "stage (ph j) \<noteq> 4"
  shows "length js < n"
proof -
  have "set js = {j. j < n \<and> stage (ph j) = 4}" "distinct js" using assms(1) by (simp_all add: net_inv_def)
  then have "set js \<subset> {..<n}" using assms(2,3) by auto
  then have "card (set js) < card {..<n}" by (intro psubset_card_mono) simp_all
  then show ?thesis using distinct_card [OF \<open>distinct js\<close>] by simp
qed

lemma server_accepts_step:
  assumes "setup_ok p pad n co f w a" "net_inv p pad n co f w a ph js s" "j < n"
  shows "if acc (ph j) = None then advances p pad n co f w a ph (server_accepts peer j s)
    else server_accepts peer j s = None"
proof (cases "acc (ph j)")
  case (Some i)
  then show ?thesis using inv_end [OF assms(2,3)] by (simp add: server_accepts_def end_ok_def Let_def)
next
  case None
  note e = inv_end [OF assms(2,3)]
  let ?e = "ends s j" let ?m = "cmanager (serv s)" let ?i = "next_id (cmanager (serv s))"
  let ?none = "\<lambda>ph :: nat \<Rightarrow> phase. {k. k < n \<and> acc (ph k) = None}"
  have missing: "length js < n" "stage (ph j) \<noteq> 4" using inv_missing [OF assms(2,3)] e None by (auto simp: end_ok_def)
  have none: "j \<in> ?none ph" "finite (?none ph)" using None assms(3) by simp_all
  then obtain r where r: "card (?none ph) = Suc r" by (metis card_Suc_Diff1)
  have room: "conn_room ?m (Suc r)" using assms(2) r by (simp add: net_inv_def)
  from when_accept_fresh [OF room, of peer] obtain sv where
    sv: "when_accept None peer (serv s) = (Inr (), sv)" "accepting sv" "conn_room (cmanager sv) r"
      "next_id (cmanager sv) = ?i + 1" "mclass (cmanager sv) = mclass ?m"
      "holdings (cmanager sv) = (holdings ?m)(?i \<mapsto> Some (started (mclass ?m) (peer_text peer)))"
    by blast
  have open_sv: "acceptor_open sv = acceptor_open (serv s)"
    using sv(1) by (auto simp: when_accept_def server_log_line_def log_line_def on_cmanager_def do_accept_def
        format_accepting sbind_def split_beta Let_def split: sum.splits)
  have i: "id_ok ?i" "\<And>k. k < n \<Longrightarrow> acc (ph k) \<noteq> Some ?i"
  proof -
    show "id_ok ?i" using room by (simp add: conn_room_def id_ok_def int_max_def)
    fix k assume k: "k < n"
    show "acc (ph k) \<noteq> Some ?i"
    proof
      assume "acc (ph k) = Some ?i"
      from inv_held [OF assms(2) k this] have "?i \<in> dom (holdings ?m)" by (auto simp: held_eq)
      with room show False by (auto simp: conn_room_def)
    qed
  qed
  let ?c = "started Server_connection (peer_text peer)"
  let ?e' = "?e\<lparr>conn_no := Some ?i\<rparr>" let ?p = "(ph j)\<lparr>acc := Some ?i\<rparr>"
  let ?t = "set_end j ?e' (s\<lparr>serv := sv\<rparr>)" let ?ph = "ph(j := ?p)"
  have early: "got (ph j) = []" "flying (ph j) = []" "queued (ph j) = []" "\<not> half (ph j)" "\<not> over (ph j)"
      "stage (ph j) \<le> 2"
    using early_end [OF e] e None by (simp_all add: end_ok_def)
  have cls: "mclass ?m = Server_connection" using assms(2) by (simp add: net_inv_def)
  have c: "conn_ok pad (f j) ?c ?e' ?p"
  proof -
    have "length (first_bytes (f j)) < 2 ^ 32"
      by (rule first_bytes_length(2) [OF setupD(5) [OF assms(1,3)]])
    then show ?thesis
      using e None early idle_started [of Server_connection "peer_text peer"] ready_started [of Server_connection "peer_text peer"]
      by (auto simp: conn_ok_def end_ok_def sends_ok_def reads_ok_def plain_class_def idle_def ready_def)
  qed
  have e': "end_ok pad (f j) (w j) (a j) ?e' ?p" using e early None by (auto simp: end_ok_def contents_def)
  have "net_inv p pad n co f w a ?ph js ?t"
    unfolding net_inv_def
  proof (intro conjI)
    show "\<forall>k<n. end_ok pad (f k) (w k) (a k) (ends ?t k) (?ph k)"
      using inv_end [OF assms(2)] e' by simp
    show "\<forall>k<n. \<forall>i. acc (?ph k) = Some i \<longrightarrow> id_ok i \<and>
        (\<exists>c. held ?t k = Some (i, c) \<and> conn_ok pad (f k) c (ends ?t k) (?ph k))"
    proof (intro allI impI)
      fix k i' assume k: "k < n" "acc (?ph k) = Some i'"
      show "id_ok i' \<and> (\<exists>c. held ?t k = Some (i', c) \<and> conn_ok pad (f k) c (ends ?t k) (?ph k))"
      proof (cases "k = j")
        case True
        with k(2) i(1) c sv(6) cls show ?thesis by (simp add: held_eq)
      next
        case False
        with k(2) have "acc (ph k) = Some i'" by simp
        with inv_held [OF assms(2) k(1) this] i(2) [OF k(1)] sv(6) False show ?thesis
          by (auto simp: held_eq)
      qed
    qed
    show "\<forall>k<n. \<forall>l<n. acc (?ph k) = acc (?ph l) \<longrightarrow> acc (?ph k) \<noteq> None \<longrightarrow> k = l"
    proof (intro allI impI)
      fix k l assume kl: "k < n" "l < n" "acc (?ph k) = acc (?ph l)" "acc (?ph k) \<noteq> None"
      then show "k = l" using inv_acc_unique [OF assms(2) kl(1,2)] i(2) [OF kl(1)] i(2) [OF kl(2)]
        by (auto split: if_splits)
    qed
    have "?none ?ph = ?none ph - {j}" by auto
    then have "card (?none ?ph) = r" using r none by simp
    then show "conn_room (cmanager (serv ?t)) (card (?none ?ph))" using sv(3) by simp
    show "set js = {k. k < n \<and> stage (?ph k) = 4}" using assms(2) by (auto simp: net_inv_def)
    have js: "j \<notin> set js" using inv_registered(3) [OF assms(2,3)] missing(2) by simp
    then have lists: "registered_at f ?ph js = registered_at f ph js" "numbers_of ?ph js = numbers_of ph js"
      by (auto simp: registered_at_def numbers_of_def)
    show "coord ?t = coord_at p co (registered_at f ?ph js)"
      using assms(2) unfolding lists by (simp add: net_inv_def)
    show "\<forall>k\<in>set js. contents (?ph k) =
        [1] # (if length js < n then [] else [startup_buffer p (numbers_of ?ph js)])"
      using assms(2) js unfolding lists by (auto simp: net_inv_def contents_def)
  qed (use assms(2) sv open_sv in \<open>simp_all add: net_inv_def\<close>)
  moreover have "all_steps n ?ph = Suc (all_steps n ph)"
    using None by (intro all_steps_update assms(3)) (simp add: steps_done_def)
  moreover have "server_accepts peer j s = Some ?t"
  proof -
    have "acceptor_open (serv s)" "accepting (serv s)" "conn_no ?e = None"
      using assms(2) missing(1) e None by (simp_all add: net_inv_def end_ok_def)
    then show ?thesis by (simp add: server_accepts_def sv(1))
  qed
  ultimately show ?thesis using None unfolding advances_def by auto
qed

text \<open>
  A registration: the worker gets an OK, and if it is the last one, every worker gets the map as
  well.
\<close>

definition after_registration :: "byte list \<Rightarrow> bool \<Rightarrow> nat list \<Rightarrow> nat \<Rightarrow> (nat \<Rightarrow> phase) \<Rightarrow> nat \<Rightarrow> phase" where
  "after_registration buf all_there js j ph k =
     (if k = j then (ph j)\<lparr>stage := 4, queued := [1] # (if all_there then [buf] else [])\<rparr>
      else if all_there \<and> k \<in> set js then (ph k)\<lparr>queued := queued (ph k) @ [buf]\<rparr>
      else ph k)"

lemma after_registration_simps [simp]:
  "acc (after_registration buf full js j ph k) = acc (ph k)"
  "got (after_registration buf full js j ph k) = got (ph k)"
  "flying (after_registration buf full js j ph k) = flying (ph k)"
  "half (after_registration buf full js j ph k) = half (ph k)"
  "over (after_registration buf full js j ph k) = over (ph k)"
  "stage (after_registration buf full js j ph k) = (if k = j then 4 else stage (ph k))"
  by (simp_all add: after_registration_def)

lemma numbers_after_registration [simp]:
  "numbers_of (after_registration buf full js j ph) ks = numbers_of ph ks"
  "registered_at f (after_registration buf full js j ph) ks = registered_at f ph ks"
  by (simp_all add: numbers_of_def registered_at_def)

lemma others_registered:
  assumes "net_inv p pad n co f w a ph js s" "j < n" "stage (ph j) \<noteq> 4" "\<not> Suc (length js) < n" "k < n" "k \<noteq> j"
  shows "k \<in> set js"
proof -
  note reg = inv_registered [OF assms(1)]
  have j: "j \<notin> set js" using reg(3) [OF assms(2)] assms(3) by simp
  have "length js < n" by (rule inv_missing [OF assms(1-3)])
  then have "card (set (j # js)) = card {..<n}" using reg(1) j assms(4) by (simp add: distinct_card)
  moreover have "set (j # js) \<subseteq> {..<n}" using reg(2) assms(2) by auto
  ultimately have "set (j # js) = {..<n}" by (intro card_subset_eq) auto
  with assms(5,6) show ?thesis by auto
qed

text \<open>Until the last registration a registered worker has been sent the OK only.\<close>

lemma before_map:
  assumes "net_inv p pad n co f w a ph js s" "length js < n" "k \<in> set js"
  shows "contents (ph k) = [[1]]" "\<not> over (ph k)"
proof -
  have k: "k < n" using inv_registered(2) [OF assms(1)] assms(3) by simp
  then show *: "contents (ph k) = [[1]]"
    using inv_contents [OF assms(1) k] inv_registered(3) [OF assms(1) k] assms(2,3) by simp
  have "length (got (ph k)) \<noteq> 2" using arg_cong [OF *, of length] by (auto simp: contents_def)
  then show "\<not> over (ph k)" using inv_end [OF assms(1) k] by (auto simp: end_ok_def)
qed

lemma contents_after_registration:
  assumes "net_inv p pad n co f w a ph js s" "length js < n" "k \<in> set (js @ [j])" "j < n" "stage (ph j) = 3"
  shows "contents (after_registration buf full js j ph k) = [1] # (if full then [buf] else [])"
proof (cases "k = j")
  case True
  then show ?thesis using early_end [OF inv_end [OF assms(1,4)]] assms(5)
    by (simp add: contents_def after_registration_def)
next
  case False
  then have "k \<in> set js" using assms(3) by simp
  then show ?thesis using before_map(1) [OF assms(1,2)] False
    by (simp add: contents_def after_registration_def)
qed

lemma registration_ends:
  assumes "net_inv p pad n co f w a ph js s" "j < n" "stage (ph j) = 3" "k < n"
  shows "end_ok pad (f k) (w k) (a k) (((ends s)(j := (ends s j)\<lparr>up_bytes := []\<rparr>)) k)
    (after_registration buf full js j ph k)"
proof -
  have missing: "length js < n" using inv_missing [OF assms(1,2)] assms(3) by simp
  note e = inv_end [OF assms(1,4)] and contents = contents_after_registration [OF assms(1) missing _ assms(2,3)]
  consider "k = j" | "k \<noteq> j" "k \<in> set js" | "k \<noteq> j" "k \<notin> set js" by blast
  then show ?thesis
  proof cases
    case 1
    have "contents (after_registration buf full js j ph j) = [1] # (if full then [buf] else [])"
      using contents [of j] by simp
    then show ?thesis using 1 e assms(3) early_end [OF e] by (auto simp: end_ok_def)
  next
    case 2
    have "contents (after_registration buf full js j ph k) = [1] # (if full then [buf] else [])"
      using 2 contents [of k] by simp
    moreover have "stage (ph k) = 4" using 2 inv_registered(3) [OF assms(1,4)] by simp
    ultimately show ?thesis using 2 e by (simp add: end_ok_def)
  next
    case 3
    then show ?thesis using e by (simp add: after_registration_def)
  qed
qed

lemma registration_held:
  assumes "setup_ok p pad n co f w a" "net_inv p pad n co f w a ph js s" "j < n" "stage (ph j) = 3"
    and "acc (ph j) = Some i" "full = (\<not> Suc (length js) < n)" "k < n" "acc (ph k) = Some d"
    and conn: "sends_ok pad c ([1] # (if full then [buf] else []))" "reads_ok pad c [] [] False"
    and hold: "holdings (cmanager sv) i = Some (Some c)"
      "\<And>d. d \<noteq> i \<Longrightarrow> holdings (cmanager sv) d =
        (if full \<and> d \<in> set (numbers_of ph js)
         then map_option (map_option (\<lambda>c. snd (do_send_message pad buf c))) (holdings (cmanager (serv s)) d)
         else holdings (cmanager (serv s)) d)"
  shows "\<exists>c'. holdings (cmanager sv) d = Some (Some c') \<and>
    conn_ok pad (f k) c' (((ends s)(j := (ends s j)\<lparr>up_bytes := []\<rparr>)) k) (after_registration buf full js j ph k)"
proof (cases "k = j")
  case True
  then show ?thesis using assms(5,8) conn hold(1) early_end(5) [OF inv_end [OF assms(2,3)]] assms(4)
    by (auto simp: conn_ok_def after_registration_def split: if_splits)
next
  case False
  have di: "d \<noteq> i" using inv_acc_unique [OF assms(2,7,3)] assms(5,8) False by auto
  from inv_held [OF assms(2,7,8)] obtain ck where
    ck: "holdings (cmanager (serv s)) d = Some (Some ck)" "conn_ok pad (f k) ck (ends s k) (ph k)"
    by (auto simp: held_eq)
  show ?thesis
  proof (cases full)
    case True
    have kin: "k \<in> set js" using others_registered [OF assms(2,3) _ _ assms(7) False] assms(4,6) True by simp
    then have "d \<in> set (numbers_of ph js)" using assms(8) by (force simp: numbers_of_def)
    moreover have "sends_ok pad ck (queued (ph k))" using ck(2) by (simp add: conn_ok_def)
    from send_one [OF setupD(1) [OF assms(1)] this, of buf] obtain ck' where
      ck': "do_send_message pad buf ck = (Inr (), ck')" "sends_ok pad ck' (queued (ph k) @ [buf])" "same_reading ck ck'"
      by blast
    ultimately have "holdings (cmanager sv) d = Some (Some ck')" using hold(2) [OF di] ck(1) True by simp
    moreover have "\<not> over (ph k)"
      using before_map(2) [OF assms(2) _ kin] inv_missing [OF assms(2,3)] assms(4) by simp
    ultimately show ?thesis using ck(2) ck'(2) same_readingD(1) [OF ck'(3)] True kin False
      by (simp add: conn_ok_def after_registration_def)
  next
    case nf: False
    then show ?thesis using hold(2) [OF di] ck False by (simp add: after_registration_def)
  qed
qed

text \<open>The handler of the read of the first message, in a state of the system.\<close>

lemma registration_step:
  assumes S: "setup_ok p pad n co f w a" and inv: "net_inv p pad n co f w a ph js s" and j: "j < n"
    and stage: "stage (ph j) = 3" and full: "full = (\<not> Suc (length js) < n)"
    and buf: "buf = startup_buffer p (numbers_of ph (js @ [j]))"
  obtains i c sv where "acc (ph j) = Some i"
    "server_reads p pad j s = Some (set_end j ((ends s j)\<lparr>up_bytes := []\<rparr>)
       (s\<lparr>coord := coord_at p co (registered_at f ph (js @ [j])), serv := sv\<rparr>))"
    "sends_ok pad c ([1] # (if full then [buf] else []))" "reads_ok pad c [] [] False"
    "holdings (cmanager sv) i = Some (Some c)"
    "\<And>d. d \<noteq> i \<Longrightarrow> holdings (cmanager sv) d =
        (if full \<and> d \<in> set (numbers_of ph js)
         then map_option (map_option (\<lambda>c. snd (do_send_message pad buf c))) (holdings (cmanager (serv s)) d)
         else holdings (cmanager (serv s)) d)"
    "mclass (cmanager sv) = mclass (cmanager (serv s))" "next_id (cmanager sv) = next_id (cmanager (serv s))"
    "accepting sv = accepting (serv s)" "acceptor_open sv = (acceptor_open (serv s) \<and> \<not> full)"
    "dom (holdings (cmanager sv)) = dom (holdings (cmanager (serv s)))"
proof -
  note e = inv_end [OF inv j] and early = early_end [OF inv_end [OF inv j]] and reg = inv_registered [OF inv]
  have "acc (ph j) \<noteq> None" using e stage by (auto simp: end_ok_def)
  then obtain i where i: "acc (ph j) = Some i" by auto
  from inv_held [OF inv j i] obtain c where
    c: "held s j = Some (i, c)" "conn_ok pad (f j) c (ends s j) (ph j)" "id_ok i" .
  have not_in: "j \<notin> set js" using reg(3) [OF j] stage by simp
  have missing: "length js < n" using inv_missing [OF inv j] stage by simp
  let ?js = "js @ [j]" let ?is = "numbers_of ph ?js" let ?rs = "registered_at f ph js"
  have regs: "regs_ok co (registered_at f ph ?js)"
    using inv_regs(1) [OF S inv, of ?js] reg(1,2) not_in j i by auto
  have snoc: "registered_at f ph ?js = ?rs @ [(i, f j)]" "?is = map fst (?rs @ [(i, f j)])" "length ?is = Suc (length js)"
      "set ?is - {i} = set (numbers_of ph js) - {i}"
    using i by (auto simp: registered_at_def numbers_of_def comp_def)
  have "\<exists>c. holdings (cmanager (serv s)) (the (acc (ph k))) = Some (Some c)" if "k \<in> set js" for k
    using inv_held [OF inv, of k] reg(2) that by (metis held_eq option.exhaust_sel)
  then have others: "\<forall>d\<in>set ?is - {i}. \<exists>c. holdings (cmanager (serv s)) d = Some (Some c)"
    unfolding snoc(4) by (auto simp: numbers_of_def)
  have rc: "reads_ok pad c (up_bytes (ends s j)) [first_bytes (f j)] True" "sends_ok pad c []"
    using c(2) stage early by (simp_all add: conn_ok_def)
  have co: "coord s = coord_at p co ?rs" "length ?rs < n"
    using inv missing by (simp_all add: net_inv_def registered_at_def)
  from server_registers [OF setupD(1-3) [OF S] regs [unfolded snoc(1)] co(2) snoc(2) rc
      first_bytes_length(1) [OF setupD(5) [OF S j]] others, folded buf co(1)]
  obtain c' res where
    c': "complete_read (coordinator_layer p pad i (coord s)) (up_bytes (ends s j)) c = Some (res, [])"
      "sends_ok pad c' (if length ?is < n then [[1]] else [[1], buf])" "reads_ok pad c' [] [] False"
      "after_message p pad i c res (coord s, serv s) =
        (Inr (), (coord_at p co (?rs @ [(i, f j)]),
          (let sv' = (serv s)\<lparr>cmanager := (cmanager (serv s))\<lparr>holdings := (holdings (cmanager (serv s)))(i \<mapsto> Some c')\<rparr>\<rparr>
           in if length ?is < n then sv'
              else (queue_on pad (set ?is - {i}) buf sv')\<lparr>acceptor_open := False\<rparr>)))"
    by blast
  define sv where "sv = (let sv' = (serv s)\<lparr>cmanager := (cmanager (serv s))\<lparr>holdings := (holdings (cmanager (serv s)))(i \<mapsto> Some c')\<rparr>\<rparr>
           in if length ?is < n then sv'
              else (queue_on pad (set ?is - {i}) buf sv')\<lparr>acceptor_open := False\<rparr>)"
  have in_dom: "i \<in> dom (holdings (cmanager (serv s)))" using c(1) by (auto simp: held_eq)
  show thesis
  proof (rule that [OF i])
    show "server_reads p pad j s = Some (set_end j ((ends s j)\<lparr>up_bytes := []\<rparr>)
       (s\<lparr>coord := coord_at p co (registered_at f ph ?js), serv := sv\<rparr>))"
      using c(1) c'(1,4) snoc(1) by (simp add: server_reads_def sv_def Let_def)
    show "sends_ok pad c' ([1] # (if full then [buf] else []))" using c'(2) snoc(3) full by (simp split: if_splits)
    show "reads_ok pad c' [] [] False" by (rule c'(3))
    show "dom (holdings (cmanager sv)) = dom (holdings (cmanager (serv s)))"
      using in_dom unfolding sv_def by (auto simp: queue_on_def Let_def split: if_splits)
  qed (simp_all add: sv_def queue_on_def Let_def full snoc(3,4))
qed

lemma registration_advances:
  assumes S: "setup_ok p pad n co f w a" and inv: "net_inv p pad n co f w a ph js s" and j: "j < n"
    and stage: "stage (ph j) = 3"
  shows "advances p pad n co f w a ph (server_reads p pad j s)"
proof -
  define buf full where "buf = startup_buffer p (numbers_of ph (js @ [j]))" and "full = (\<not> Suc (length js) < n)"
  obtain i c sv where
    i: "acc (ph j) = Some i" and
    step: "server_reads p pad j s = Some (set_end j ((ends s j)\<lparr>up_bytes := []\<rparr>)
       (s\<lparr>coord := coord_at p co (registered_at f ph (js @ [j])), serv := sv\<rparr>))" and
    conn: "sends_ok pad c ([1] # (if full then [buf] else []))" "reads_ok pad c [] [] False" and
    hold: "holdings (cmanager sv) i = Some (Some c)"
    "\<And>d. d \<noteq> i \<Longrightarrow> holdings (cmanager sv) d =
        (if full \<and> d \<in> set (numbers_of ph js)
         then map_option (map_option (\<lambda>c. snd (do_send_message pad buf c))) (holdings (cmanager (serv s)) d)
         else holdings (cmanager (serv s)) d)" and
    sv: "mclass (cmanager sv) = mclass (cmanager (serv s))" "next_id (cmanager sv) = next_id (cmanager (serv s))"
    "accepting sv = accepting (serv s)" "acceptor_open sv = (acceptor_open (serv s) \<and> \<not> full)"
    "dom (holdings (cmanager sv)) = dom (holdings (cmanager (serv s)))"
    by (rule registration_step [OF S inv j stage full_def buf_def]) (rule that)
  let ?t = "set_end j ((ends s j)\<lparr>up_bytes := []\<rparr>)
    (s\<lparr>coord := coord_at p co (registered_at f ph (js @ [j])), serv := sv\<rparr>)"
  let ?js = "js @ [j]"
  define Q where "Q = after_registration buf full js j ph"
  have missing: "length js < n" using inv_missing [OF inv j] stage by simp
  note reg = inv_registered [OF inv]
  have not_in: "j \<notin> set js" using reg(3) [OF j] stage by simp
  have "net_inv p pad n co f w a Q ?js ?t"
    unfolding net_inv_def
  proof (intro conjI)
    show "\<forall>k<n. end_ok pad (f k) (w k) (a k) (ends ?t k) (Q k)"
      using registration_ends [OF inv j stage] by (simp add: Q_def)
    show "\<forall>k<n. \<forall>d. acc (Q k) = Some d \<longrightarrow> id_ok d \<and>
        (\<exists>c. held ?t k = Some (d, c) \<and> conn_ok pad (f k) c (ends ?t k) (Q k))"
    proof (intro allI impI)
      fix k d assume k: "k < n" "acc (Q k) = Some d"
      then have d: "acc (ph k) = Some d" by (simp add: Q_def)
      then have "conn_no (ends ?t k) = Some d" "id_ok d"
        using inv_end [OF inv k(1)] inv_held [OF inv k(1) d] by (auto simp: end_ok_def)
      with registration_held [OF S inv j stage i full_def k(1) d conn hold]
      show "id_ok d \<and> (\<exists>c. held ?t k = Some (d, c) \<and> conn_ok pad (f k) c (ends ?t k) (Q k))"
        by (auto simp: held_eq Q_def)
    qed
    show "\<forall>k<n. \<forall>l<n. acc (Q k) = acc (Q l) \<longrightarrow> acc (Q k) \<noteq> None \<longrightarrow> k = l"
      using inv_acc_unique [OF inv] by (auto simp: Q_def)
    show "conn_room (cmanager (serv ?t)) (card {k. k < n \<and> acc (Q k) = None})"
      using inv sv(2,5) by (simp add: net_inv_def conn_room_def Q_def)
    show "set ?js = {k. k < n \<and> stage (Q k) = 4}" using reg j not_in by (auto simp: Q_def)
    show "\<forall>k\<in>set ?js. contents (Q k) = [1] # (if length ?js < n then [] else [startup_buffer p (numbers_of Q ?js)])"
      using contents_after_registration [OF inv missing _ j stage, of _ buf full]
      by (auto simp: Q_def full_def buf_def)
  qed (use inv sv missing not_in in \<open>simp_all add: net_inv_def Q_def full_def\<close>)
  moreover have "all_steps n Q = Suc (all_steps n ph)"
    by (rule all_steps_change [OF j]) (simp_all add: steps_done_def Q_def stage)
  ultimately show ?thesis unfolding advances_def step by blast
qed

lemma server_reads_step:
  assumes "setup_ok p pad n co f w a" "net_inv p pad n co f w a ph js s" "j < n"
  shows "if acc (ph j) \<noteq> None \<and> (stage (ph j) = 2 \<or> stage (ph j) = 3)
    then advances p pad n co f w a ph (server_reads p pad j s)
    else server_reads p pad j s = None"
proof (cases "acc (ph j)")
  case None
  then show ?thesis using inv_not_held [OF assms(2,3) None] by (simp add: server_reads_def)
next
  case (Some i)
  note e = inv_end [OF assms(2,3)]
  let ?e = "ends s j"
  from inv_held [OF assms(2,3) Some] obtain c where c: "held s j = Some (i, c)" "conn_ok pad (f j) c ?e (ph j)" .
  consider "stage (ph j) = 3" | "stage (ph j) = 2" | "stage (ph j) \<noteq> 2" "stage (ph j) \<noteq> 3" by blast
  then show ?thesis
  proof cases
    case 1
    then show ?thesis using registration_advances [OF assms 1] Some by simp
  next
    case 2
    note early = early_end [OF e]
    have "reads_ok pad c (up_bytes ?e) [first_bytes (f j)] False" using c(2) 2 early by (simp add: conn_ok_def)
    from read_header [OF setupD(1) [OF assms(1)] this, of "coordinator_layer p pad i (coord s)"] obtain c' rest where
      c': "complete_read (coordinator_layer p pad i (coord s)) (up_bytes ?e) c = Some ((Inr (), c'), rest)"
        "reads_ok pad c' rest [first_bytes (f j)] True" "same_sending c c'" "received c' = received c"
      by blast
    have "after_message p pad i c (Inr (), c') (coord s, serv s) = (Inr (), (coord s, (serv s)\<lparr>cmanager :=
        (cmanager (serv s))\<lparr>holdings := (holdings (cmanager (serv s)))(i \<mapsto> Some c')\<rparr>\<rparr>))"
      using c'(4) by (simp add: after_message_def delivered_def new_calls_def)
    then have step: "server_reads p pad j s = Some (set_held i c' (set_end j (?e\<lparr>up_bytes := rest\<rparr>) s))"
      using c(1) c'(1) by (simp add: server_reads_def set_held_def set_end_def Let_def)
    have "advances p pad n co f w a ph (Some (set_held i c' (set_end j (?e\<lparr>up_bytes := rest\<rparr>) s)))"
      by (rule advances_held [OF assms(2,3), of _ "(ph j)\<lparr>stage := 3\<rparr>"])
        (use e c c' 2 early Some same_sendingD [OF c'(3)] in
          \<open>auto simp: end_ok_def contents_def steps_done_def conn_ok_def\<close>)
    then show ?thesis using step 2 Some by simp
  next
    case 3
    have "complete_read up (up_bytes ?e) c = None" for up
    proof (cases "over (ph j)")
      case True
      then show ?thesis using c(2) by (simp add: conn_ok_def complete_read_def)
    next
      case False
      then have "reads_ok pad c (up_bytes ?e) [] False" using c(2) 3 by (simp add: conn_ok_def)
      moreover from this have "up_bytes ?e = []" by (simp add: reads_ok_def)
      ultimately show ?thesis by (simp add: read_none)
    qed
    then show ?thesis using 3 c(1) by (simp add: server_reads_def)
  qed
qed

end
