(* ===== verification/Startup_Runs.thy ===== *)
theory Startup_Runs
  imports Startup_Progress
begin

text \<open>
  The start-up of a coordinator with its workers, in every order in which the event loops can run
  their handlers: a bound on the number of handlers, the absence of exceptions and deadlocks, and
  the state in which every run ends.
\<close>

section \<open>All runs\<close>

lemma net_event_advances:
  assumes "setup_ok p pad n co f w a" "net_inv p pad n co f w a ph js s" "event_worker e < n"
    "net_event_step p pad peer e s = Some s'"
  shows "advances p pad n co f w a ph (Some s')"
proof (cases e)
  case (Worker_runs j)
  with worker_runs_step [OF assms(1,2), of j] assms(3,4) show ?thesis by (simp split: if_splits)
next
  case (Server_accepts j)
  with server_accepts_step [OF assms(1,2), of j "peer j"] assms(3,4) show ?thesis by (simp split: if_splits)
next
  case (Client_wrote j)
  with client_wrote_step [OF assms(1,2), of j] assms(3,4) show ?thesis by (simp split: if_splits)
next
  case (Server_reads j)
  with server_reads_step [OF assms(1,2), of j] assms(3,4) show ?thesis by (simp split: if_splits)
next
  case (Server_wrote j)
  with server_wrote_step [OF assms(1,2), of j] assms(3,4) show ?thesis by (simp split: if_splits)
next
  case (Client_reads j)
  with client_reads_step [OF assms(1,2), of j] assms(3,4) show ?thesis by (simp split: if_splits)
next
  case (Server_eof j x)
  with server_eof_step [OF assms(1,2), of j x] assms(3,4) show ?thesis by (simp split: if_splits)
next
  case (Client_eof j x)
  with client_eof_step [OF assms(1,2), of j x] assms(3,4) show ?thesis by simp
qed

text \<open>Twelve handlers per worker, and none is missing only when all has been done.\<close>

lemma steps_done_le:
  assumes "end_ok pad f w a e ph"
  shows "steps_done ph \<le> 12"
    and "steps_done ph = 12 \<Longrightarrow> stage ph = 4 \<and> acc ph \<noteq> None \<and> length (got ph) = 2 \<and> over ph"
proof -
  have l: "length (got ph) + length (flying ph) + length (queued ph) \<le> 2" "stage ph \<le> 4"
      "half ph \<longrightarrow> flying ph \<noteq> []" "over ph \<longrightarrow> length (got ph) = 2"
    using assms by (auto simp: end_ok_def contents_def)
  have h: "(if half ph then 1 else 0) \<le> length (flying ph)" using l(3) by (cases "flying ph") auto
  have f: "2 * length (got ph) + (if half ph then 1 else 0) + length (got ph) + length (flying ph) +
      (if over ph then 1 else 0) \<le> 7"
    using l(1,4) h by (auto split: if_splits)
  then show "steps_done ph \<le> 12" using l(2) by (auto simp: steps_done_def split: if_splits)
  assume s: "steps_done ph = 12"
  then have "stage ph = 4" "acc ph \<noteq> None" and
    seven: "2 * length (got ph) + (if half ph then 1 else 0) + length (got ph) + length (flying ph) +
      (if over ph then 1 else 0) = 7"
    using f l(2) by (auto simp: steps_done_def split: if_splits)
  moreover have "over ph"
    using seven l(1) h by (auto split: if_splits)
  ultimately show "stage ph = 4 \<and> acc ph \<noteq> None \<and> length (got ph) = 2 \<and> over ph" using l(4) by simp
qed

lemma all_steps_le:
  assumes "net_inv p pad n co f w a ph js s"
  shows "all_steps n ph \<le> 12 * n" and "j < n \<Longrightarrow> all_steps n ph = 12 * n \<Longrightarrow> steps_done (ph j) = 12"
proof -
  have le: "steps_done (ph k) \<le> 12" if "k < n" for k using steps_done_le(1) [OF inv_end [OF assms that]] .
  then show "all_steps n ph \<le> 12 * n"
    using sum_bounded_above [of "{..<n}" "\<lambda>k. steps_done (ph k)" 12] by (simp add: all_steps_def mult.commute)
  assume j: "j < n" and eq: "all_steps n ph = 12 * n"
  show "steps_done (ph j) = 12"
  proof (rule ccontr)
    assume "steps_done (ph j) \<noteq> 12"
    then have "steps_done (ph j) < 12" using le [OF j] by simp
    then have "(\<Sum>k<n. steps_done (ph k)) < (\<Sum>k<n. 12)" using le j by (intro sum_strict_mono_ex1) auto
    with eq show False by (simp add: all_steps_def)
  qed
qed

text \<open>The handlers that can run for a worker whatever the others have done.\<close>

lemma own_event:
  assumes "setup_ok p pad n co f w a" "net_inv p pad n co f w a ph js s" "j < n"
    and "stage (ph j) \<noteq> 4 \<or> queued (ph j) \<noteq> [] \<or> flying (ph j) \<noteq> []"
  shows "\<exists>e s'. event_worker e = j \<and> net_event_step p pad peer e s = Some s'"
proof -
  have adv: "\<exists>s'. r = Some s'" if "advances p pad n co f w a ph r" for r using that by (auto simp: advances_def)
  note e = inv_end [OF assms(2,3)]
  have "stage (ph j) \<le> 4" using e by (simp add: end_ok_def)
  then have "stage (ph j) = 0 \<or> stage (ph j) = 1 \<or> stage (ph j) = 2 \<or> stage (ph j) = 3 \<or> stage (ph j) = 4" by arith
  with assms(4) consider "stage (ph j) = 0" | "stage (ph j) = 1" | "acc (ph j) = None"
    | "stage (ph j) = 2 \<or> stage (ph j) = 3" "acc (ph j) \<noteq> None"
    | "stage (ph j) = 4" "queued (ph j) \<noteq> []" | "stage (ph j) = 4" "flying (ph j) \<noteq> []"
    by (elim disjE) auto
  then show ?thesis
  proof cases
    case 1
    with worker_runs_step [OF assms(1-3)] adv have "\<exists>s'. net_event_step p pad peer (Worker_runs j) s = Some s'" by simp
    then show ?thesis by (metis event_worker.simps(1))
  next
    case 2
    with client_wrote_step [OF assms(1-3)] adv have "\<exists>s'. net_event_step p pad peer (Client_wrote j) s = Some s'" by simp
    then show ?thesis by (metis event_worker.simps(3))
  next
    case 3
    with server_accepts_step [OF assms(1-3), of "peer j"] adv
    have "\<exists>s'. net_event_step p pad peer (Server_accepts j) s = Some s'" by simp
    then show ?thesis by (metis event_worker.simps(2))
  next
    case 4
    with server_reads_step [OF assms(1-3)] adv have "\<exists>s'. net_event_step p pad peer (Server_reads j) s = Some s'" by simp
    then show ?thesis by (metis event_worker.simps(4))
  next
    case 5
    with server_wrote_step [OF assms(1-3)] adv have "\<exists>s'. net_event_step p pad peer (Server_wrote j) s = Some s'" by simp
    then show ?thesis by (metis event_worker.simps(5))
  next
    case 6
    with client_reads_step [OF assms(1-3)] adv have "\<exists>s'. net_event_step p pad peer (Client_reads j) s = Some s'" by simp
    then show ?thesis by (metis event_worker.simps(6))
  qed
qed

lemma some_event:
  assumes "setup_ok p pad n co f w a" "net_inv p pad n co f w a ph js s" "j < n" "steps_done (ph j) < 12"
    and "\<And>k. k < n \<Longrightarrow> stage (ph k) \<noteq> 4 \<Longrightarrow> k = j \<or> stage (ph j) \<noteq> 4"
  shows "\<exists>e s'. event_worker e < n \<and> net_event_step p pad peer e s = Some s'"
proof (cases "stage (ph j) \<noteq> 4 \<or> queued (ph j) \<noteq> [] \<or> flying (ph j) \<noteq> []")
  case True
  with own_event [OF assms(1-3)] assms(3) show ?thesis by metis
next
  case False
  then have 7: "stage (ph j) = 4" "queued (ph j) = []" "flying (ph j) = []" by simp_all
  note e = inv_end [OF assms(2,3)]
  have "\<not> length js < n"
  proof
    assume "length js < n"
    then have "card (set js) < card {..<n}" using distinct_card [OF inv_registered(1) [OF assms(2)]] by simp
    then have "\<not> {..<n} \<subseteq> set js" by (meson List.finite_set card_mono not_le)
    then obtain k where "k < n" "k \<notin> set js" by auto
    with inv_registered(3) [OF assms(2)] assms(5) [of k] 7(1) show False by auto
  qed
  then have "length (got (ph j)) = 2"
    using inv_contents [OF assms(2,3) 7(1)] 7(2,3) by (simp add: contents_def)
  moreover have "\<not> over (ph j)" "\<not> half (ph j)" "acc (ph j) \<noteq> None"
    using e 7 \<open>length (got (ph j)) = 2\<close> assms(4) by (auto simp: end_ok_def steps_done_def)
  ultimately have "\<exists>s'. net_event_step p pad peer (Server_eof j Eof) s = Some s'"
    using server_eof_step [OF assms(1-3), of Eof] by (auto simp: advances_def)
  with assms(3) show ?thesis by (metis event_worker.simps(7))
qed

definition progress_inv ::
  "platform \<Rightarrow> byte list \<Rightarrow> nat \<Rightarrow> coordinator \<Rightarrow> (nat \<Rightarrow> firsconnection) \<Rightarrow> (nat \<Rightarrow> worker_deamon) \<Rightarrow>
    (nat \<Rightarrow> async_client) \<Rightarrow> deployment \<Rightarrow> nat \<Rightarrow> bool" where
  "progress_inv p pad n co f w a s k \<longleftrightarrow> setup_ok p pad n co f w a \<and>
     (\<exists>ph js. net_inv p pad n co f w a ph js s \<and> all_steps n ph = k)"

interpretation startup: counted_system "net_step p pad peer n" "progress_inv p pad n co f w a" "12 * n"
  for p pad peer n co f w a
proof
  fix s k e s'
  assume k: "progress_inv p pad n co f w a s k" and e: "net_step p pad peer n e s = Some s'"
  then obtain ph js where "net_inv p pad n co f w a ph js s" "all_steps n ph = k" "setup_ok p pad n co f w a"
    unfolding progress_inv_def by blast
  with net_event_advances [of p pad n co f w a ph js s e peer s'] e show "progress_inv p pad n co f w a s' (Suc k)"
    by (auto simp: net_step_def progress_inv_def advances_def split: if_splits)
next
  fix s k assume "progress_inv p pad n co f w a s k"
  then show "k \<le> 12 * n" using all_steps_le(1) by (auto simp: progress_inv_def)
next
  fix s k assume k: "progress_inv p pad n co f w a s k" "k < 12 * n"
  then obtain ph js where inv: "net_inv p pad n co f w a ph js s" "all_steps n ph = k" "setup_ok p pad n co f w a"
    unfolding progress_inv_def by blast
  have le: "steps_done (ph j) \<le> 12" if "j < n" for j using steps_done_le(1) [OF inv_end [OF inv(1) that]] .
  have "\<exists>j<n. steps_done (ph j) < 12 \<and> (\<forall>l<n. stage (ph l) \<noteq> 4 \<longrightarrow> l = j \<or> stage (ph j) \<noteq> 4)"
  proof (cases "\<exists>j<n. stage (ph j) \<noteq> 4")
    case True
    then obtain j where j: "j < n" "stage (ph j) \<noteq> 4" by blast
    then have "steps_done (ph j) \<noteq> 12" using steps_done_le(2) [OF inv_end [OF inv(1) j(1)]] by auto
    with le [OF j(1)] j show ?thesis by (intro exI [of _ j]) auto
  next
    case False
    have "\<exists>j<n. steps_done (ph j) \<noteq> 12"
    proof (rule ccontr)
      assume "\<not> (\<exists>j<n. steps_done (ph j) \<noteq> 12)"
      then have "all_steps n ph = 12 * n" by (simp add: all_steps_def)
      with k(2) inv(2) show False by simp
    qed
    with False le show ?thesis by (metis le_neq_implies_less)
  qed
  then obtain j where "j < n" "steps_done (ph j) < 12" "\<And>l. l < n \<Longrightarrow> stage (ph l) \<noteq> 4 \<Longrightarrow> l = j \<or> stage (ph j) \<noteq> 4"
    by blast
  from some_event [OF inv(3,1) this, of peer] obtain e s' where
    e: "event_worker e < n" "net_event_step p pad peer e s = Some s'" by blast
  have "\<not> crashed s" using inv(1) by (simp add: net_inv_def)
  with e show "\<exists>e s'. net_step p pad peer n e s = Some s'" unfolding net_step_def by auto
qed

text \<open>The coordinator in every state: how many cookies are left, and whether it has sent the map.\<close>

lemma length_filter_removed:
  assumes "distinct xs" "distinct ys" "set ys \<subseteq> set xs"
  shows "length (filter (\<lambda>x. x \<notin> set ys) xs) = length xs - length ys"
proof -
  have "set (filter (\<lambda>x. x \<notin> set ys) xs) = set xs - set ys" by auto
  then have "card (set (filter (\<lambda>x. x \<notin> set ys) xs)) = card (set xs) - card (set ys)"
    using assms(3) by (simp add: card_Diff_subset)
  then show ?thesis using assms(1,2) distinct_card [of "filter (\<lambda>x. x \<notin> set ys) xs"]
    by (simp add: distinct_card)
qed

lemma inv_coordinator:
  assumes S: "setup_ok p pad n co f w a" and inv: "net_inv p pad n co f w a ph js s"
  shows "length js \<le> n" "length (cookies (coord s)) = n - length js"
    "current_state (coord s) = (if length js < n then Firstconnection_state else Peersinfo_state)"
proof -
  note reg = inv_registered [OF inv] and regs = inv_regs [OF S inv inv_registered(1,2) [OF inv]]
  let ?rs = "registered_at f ph js"
  have n: "0 < n" and fresh: "fresh_coordinator n co" using S by (simp_all add: setup_ok_def)
  have co: "coord s = coord_at p co ?rs" using inv by (simp add: net_inv_def)
  have num: "worker_num co = n" "distinct (cookies co)" "length (cookies co) = n"
    using fresh by (simp_all add: fresh_coordinator_def)
  have len: "length ?rs = length js" by (simp add: registered_at_def)
  show le: "length js \<le> n" by (rule regs(2))
  have d: "distinct (map (firstcookie \<circ> snd) ?rs)" "(firstcookie \<circ> snd) ` set ?rs \<subseteq> set (cookies co)"
    using regs(1) by (simp_all only: regs_ok_def)
  from length_filter_removed [OF num(2) d(1)] d(2)
  have "length (filter (\<lambda>c. c \<notin> (firstcookie \<circ> snd) ` set ?rs) (cookies co)) = n - length js"
    by (simp only: set_map length_map num(3) len)
  then have left: "length (cookies (register_all p ?rs co)) = n - length js"
    using registered_fields(7) [OF fresh regs(1)] by simp
  have full: "current_state (coord s) = Peersinfo_state \<and> cookies (coord s) = cookies (register_all p ?rs co)"
    if full: "\<not> length js < n"
  proof -
    obtain js' j where js: "js = js' @ [j]" using full n by (cases js rule: rev_cases) auto
    have r: "?rs = registered_at f ph js' @ [(the (acc (ph j)), f j)]" by (simp add: registered_at_def js)
    have "length (registered_at f ph js') < n" "n \<le> Suc (length (registered_at f ph js'))"
      using full le js by (simp_all add: registered_at_def)
    from coordinator_receives(3) [OF setupD(2) [OF S] fresh regs(1) [unfolded r] this, folded r] co
    show ?thesis by simp
  qed
  show "length (cookies (coord s)) = n - length js"
    "current_state (coord s) = (if length js < n then Firstconnection_state else Peersinfo_state)"
    using full left registered_fields(5) [OF fresh regs(1)] co num(1) len
    by (cases "length js < n"; simp add: coord_at_def)+
qed

text \<open>What a worker has received, and what it has called.\<close>

lemma filter_fits_take:
  assumes "got ph @ rest = [1] # ms" "length ms \<le> Suc 0"
  shows "filter fits (got ph) = [] \<and> got ph = [] \<or> filter fits (got ph) = [[1]] \<or>
    (\<exists>m. ms = [m] \<and> fits m \<and> filter fits (got ph) = [[1], m] \<and> got ph = [[1], m])"
proof (cases "got ph")
  case (Cons g gs)
  then have g: "g = [1]" "gs @ rest = ms" using assms(1) by simp_all
  then have "gs = [] \<or> (\<exists>m. gs = [m] \<and> ms = [m])" using assms(2) by (cases gs) auto
  then show ?thesis using Cons g by auto
qed simp

lemma inv_received:
  assumes S: "setup_ok p pad n co f w a" and inv: "net_inv p pad n co f w a ph js s" and j: "j < n"
  shows "received (holding (client (ends s j))) = [] \<or>
    (\<exists>i c. held s j = Some (i, c) \<and> i \<in> set (numbers_of ph js)) \<and>
      (received (holding (client (ends s j))) = [[1]] \<or>
       length js = n \<and> fits (startup_buffer p (numbers_of ph js)) \<and>
         received (holding (client (ends s j))) = [[1], startup_buffer p (numbers_of ph js)])"
proof -
  note e = inv_end [OF inv j]
  have le: "length js \<le> n" by (rule inv_coordinator(1) [OF S inv])
  show ?thesis
  proof (cases "stage (ph j) = 0")
    case True
    then have "fresh_client (client (ends s j))" using e setupD(6) [OF S j] by (simp add: end_ok_def)
    then show ?thesis by (auto simp: fresh_client_def new_connection_state_def received_def)
  next
    case nz: False
    then have r: "received (holding (client (ends s j))) = filter fits (got (ph j))" using e by (simp add: end_ok_def)
    show ?thesis
    proof (cases "stage (ph j) = 4")
      case False
      then have "got (ph j) = []" using early_end(1) [OF e] e by (fastforce simp: end_ok_def)
      with r show ?thesis by simp
    next
      case True
      note contents = inv_contents [OF inv j True, unfolded contents_def]
      have "j \<in> set js" using inv_registered(3) [OF inv j] True by simp
      moreover obtain i where i: "acc (ph j) = Some i" using inv_registered(2) [OF inv] \<open>j \<in> set js\<close> by auto
      moreover from inv_held [OF inv j i] obtain c where "held s j = Some (i, c)" .
      ultimately have "\<exists>i c. held s j = Some (i, c) \<and> i \<in> set (numbers_of ph js)" by (force simp: numbers_of_def)
      with filter_fits_take [OF contents] r le show ?thesis by (cases "length js < n") auto
    qed
  qed
qed

text \<open>The state in which all handlers have run.\<close>

lemma all_done:
  assumes "progress_inv p pad n co f w a s (12 * n)"
  obtains "is" where "distinct is" "length is = n" "current_state (coord s) = Peersinfo_state"
    "cookies (coord s) = []" "\<not> acceptor_open (serv s)"
    "\<And>j. j < n \<Longrightarrow> \<exists>i\<in>set is. \<exists>c. held s j = Some (i, c) \<and> \<not> is_open c \<and> \<not> is_open (holding (client (ends s j))) \<and>
      (if n \<le> 584
       then received (holding (client (ends s j))) = [[1], startup_buffer p is] \<and>
         calls (worker (ends s j)) = [Call_send 0 (first_bytes (f j)), Call_disconnect 0, Call_stop]
       else received (holding (client (ends s j))) = [[1]] \<and>
         calls (worker (ends s j)) = [Call_send 0 (first_bytes (f j))] \<and>
         current_state (worker (ends s j)) = Recv_worker_info_state)"
    "worker_info_map_from_buffer (max_size p) (startup_buffer p is) = Inr (startup_map p is)"
proof -
  from assms obtain ph js where inv: "net_inv p pad n co f w a ph js s" "all_steps n ph = 12 * n"
      and S: "setup_ok p pad n co f w a"
    unfolding progress_inv_def by blast
  note reg = inv_registered [OF inv(1)] and regs = inv_regs [OF S inv(1) inv_registered(1,2) [OF inv(1)]]
  have ph: "stage (ph j) = 4" "acc (ph j) \<noteq> None" "length (got (ph j)) = 2" "over (ph j)" if "j < n" for j
    using steps_done_le(2) [OF inv_end [OF inv(1) that] all_steps_le(2) [OF inv(1) that inv(2)]] by simp_all
  have "set js = {..<n}" using reg(2,3) ph(1) by auto
  then have len: "length js = n" using distinct_card [OF reg(1)] by simp
  let ?is = "numbers_of ph js"
  have "current_state (coord s) = Peersinfo_state" "cookies (coord s) = []"
    using inv_coordinator(2,3) [OF S inv(1)] len by simp_all
  moreover have "\<not> acceptor_open (serv s)" using inv(1) len by (simp add: net_inv_def)
  moreover have "\<exists>i\<in>set ?is. \<exists>c. held s j = Some (i, c) \<and> \<not> is_open c \<and> \<not> is_open (holding (client (ends s j))) \<and>
      (if n \<le> 584
       then received (holding (client (ends s j))) = [[1], startup_buffer p ?is] \<and>
         calls (worker (ends s j)) = [Call_send 0 (first_bytes (f j)), Call_disconnect 0, Call_stop]
       else received (holding (client (ends s j))) = [[1]] \<and>
         calls (worker (ends s j)) = [Call_send 0 (first_bytes (f j))] \<and>
         current_state (worker (ends s j)) = Recv_worker_info_state)"
    if j: "j < n" for j
  proof -
    note p = ph [OF j] and e = inv_end [OF inv(1) j]
    obtain i where i: "acc (ph j) = Some i" using p(2) by auto
    from inv_held [OF inv(1) j i] obtain c where c: "held s j = Some (i, c)" "conn_ok pad (f j) c (ends s j) (ph j)" .
    have "i \<in> set ?is" using i \<open>set js = {..<n}\<close> j by (force simp: numbers_of_def)
    moreover have "got (ph j) = [[1], startup_buffer p ?is]"
      using inv_contents [OF inv(1) j p(1)] len p(3) by (auto simp: contents_def append_eq_conv_conj)
    moreover have "fits (startup_buffer p ?is) \<longleftrightarrow> n \<le> 584" using inv_buffer(2) [OF S inv(1)] len by simp
    ultimately show ?thesis using c e p by (auto simp: end_ok_def conn_ok_def worker_ok_def)
  qed
  moreover have "distinct ?is" using regs(1) unfolding regs_ok_def numbers_registered by blast
  moreover have "length ?is = n" using len by (simp add: numbers_of_def)
  ultimately show thesis using that inv_map_read [OF S inv(1)] by blast
qed

text \<open>The processes before their event loops, from the constructors and \<open>RunServer\<close>.\<close>

definition fresh_phase :: phase where
  "fresh_phase = \<lparr>stage = 0, acc = None, got = [], flying = [], queued = [], half = False, over = False\<rparr>"

lemma server_runs:
  assumes "run_server pad (server_start None None None lport) (co, new_server skt False) = (r, (co', sv))"
  shows "co' = co \<and> cmanager sv = new_manager_of Server_connection \<and> acceptor_open sv \<and> accepting sv"
  using assms by (auto simp: run_server_def server_start_def new_server_def do_accept_def with_lower_def
      model_start_def new_calls_def sbind_def Let_def split: if_splits)

lemma client_connected:
  assumes "new_client_socket connect skt False ls = (Inr a, ls')"
  shows "fresh_client a"
proof (cases "connect skt")
  case (Inl e)
  then show ?thesis using assms
    by (auto simp: new_client_socket_def try_connect_def log_line_def sbind_def slift_def
        split: prod.splits sum.splits)
next
  case (Inr ep)
  then show ?thesis using assms
    by (auto simp: new_client_socket_def try_connect_def log_line_def format_connected sbind_def slift_def
        fresh_client_def init_connection_def constructs split: prod.splits sum.splits)
qed

lemma deployed_progress:
  assumes "setup_ok p pad n co f w a" "cmanager sv = new_manager_of Server_connection" "acceptor_open sv" "accepting sv"
  shows "progress_inv p pad n co f w a (deployed co sv w a) 0"
proof -
  have n: "0 < n" "n < 2 ^ 28" "fresh_coordinator n co" using assms(1) by (simp_all add: setup_ok_def)
  have "net_inv p pad n co f w a (\<lambda>_. fresh_phase) [] (deployed co sv w a)"
    using n assms(2-4)
    by (auto simp: net_inv_def deployed_def fresh_endpoint_def fresh_phase_def end_ok_def contents_def
        new_manager_of_def conn_room_def int_max_def registered_at_def coord_at_def fresh_coordinator_def)
  moreover have "all_steps n (\<lambda>_. fresh_phase) = 0" by (simp add: all_steps_def steps_done_def fresh_phase_def)
  ultimately show ?thesis using assms(1) unfolding progress_inv_def by blast
qed

definition startup_cookies :: "coordinator \<Rightarrow> (nat \<Rightarrow> worker_info) \<Rightarrow> nat \<Rightarrow> firsconnection" where
  "startup_cookies co info j = \<lparr>firstcookie = cookies co ! j, fc_worker_info = info j\<rparr>"

lemma startup_setup:
  assumes "platform_ok p" "length pad = 3" "0 < n" "n < 2 ^ 28"
    and "coordinator_new dis n send_cookie = Inr co" "length (cookies co) = n"
    and "\<And>j. j < n \<Longrightarrow> worker_new (to_printable (cookies co ! j)) (info j) = Inr (w j)"
    and "\<And>j. j < n \<Longrightarrow> \<exists>ls ls'. new_client_socket connect skt False ls = (Inr (a j), ls')"
  shows "setup_ok p pad n co (startup_cookies co info) w a"
proof -
  have cs: "list_all cookie_ok (cookies co) \<and> distinct (cookies co)" by (rule coordinator_new_cookies [OF assms(5)])
  moreover have "current_state co = Firstconnection_state" "workers co = []" "worker_infos co = []"
      "worker_num co = n" "calls co = []"
    using assms(5) by (auto simp: coordinator_new_def res_iff Let_def)
  ultimately have "fresh_coordinator n co" using assms(6) by (simp add: fresh_coordinator_def)
  moreover have "fresh_worker (startup_cookies co info j) (w j)" if "j < n" for j
  proof -
    have c: "cookie_ok (cookies co ! j)" using cs that assms(6) by (simp add: list_all_length)
    show ?thesis using assms(7) [OF that, symmetric] parse_printed_cookie [OF c] c
      by (simp add: worker_new_def fresh_worker_def startup_cookies_def)
  qed
  moreover have "fresh_client (a j)" if "j < n" for j using assms(8) [OF that] client_connected by blast
  ultimately show ?thesis using assms(1-4) by (simp add: setup_ok_def startup_cookies_def)
qed

text \<open>
  The state in which the start-up begins: the coordinator has drawn as many different cookies as
  there are workers and has called \<open>RunServer\<close>, every worker has been started with the printed
  form of one of the cookies and has connected.
\<close>

definition startup_state :: "platform \<Rightarrow> byte list \<Rightarrow> nat \<Rightarrow> deployment \<Rightarrow> bool" where
  "startup_state p pad n s \<longleftrightarrow> platform_ok p \<and> length pad = 3 \<and> 0 < n \<and>
     (\<exists>dis send_cookie co co' sv skt lport w info a connect.
        coordinator_new dis n send_cookie = Inr co \<and> length (cookies co) = n \<and>
        run_server pad (server_start None None None lport) (co, new_server skt False) = (Inr (), (co', sv)) \<and>
        (\<forall>j<n. worker_new (to_printable (cookies co ! j)) (info j) = Inr (w j)) \<and>
        (\<forall>j<n. \<exists>ls ls'. new_client_socket connect skt False ls = (Inr (a j), ls')) \<and>
        s = deployed co' sv w a)"

lemma startup_progress:
  assumes "startup_state p pad n s" "n < 2 ^ 28"
  shows "\<exists>co f w a. progress_inv p pad n co f w a s 0"
proof -
  from assms(1) obtain dis send_cookie co co' sv skt lport w info a connect where
    h: "platform_ok p" "length pad = 3" "0 < n" "coordinator_new dis n send_cookie = Inr co" "length (cookies co) = n"
      "run_server pad (server_start None None None lport) (co, new_server skt False) = (Inr (), (co', sv))"
      "\<And>j. j < n \<Longrightarrow> worker_new (to_printable (cookies co ! j)) (info j) = Inr (w j)"
      "\<And>j. j < n \<Longrightarrow> \<exists>ls ls'. new_client_socket connect skt False ls = (Inr (a j), ls')"
      "s = deployed co' sv w a"
    unfolding startup_state_def by blast
  have "setup_ok p pad n co (startup_cookies co info) w a"
    by (rule startup_setup [OF h(1-3) assms(2) h(4,5,7,8)])
  with server_runs [OF h(6)] h(9) deployed_progress show ?thesis by blast
qed


text \<open>
  C1. The end of every run that cannot be continued: all workers are registered, all cookies used,
  the coordinator listens no more, and every worker has a connection of its own, one of \<open>n\<close> with
  different ids, which is closed on both sides. Up to 584 workers, each has received exactly two
  messages, the OK and the map of all workers, and has made exactly three calls (it sent its
  cookie, disconnected and stopped). With more workers each has received the OK only, and waits for
  the map for ever.
\<close>

theorem startup_outcome:
  assumes "startup_state p pad n s0" "n < 2 ^ 28" "run_events (net_step p pad peer n) es s0 = Some s"
    and "\<And>e. net_step p pad peer n e s = None" "firsconnection_ok_to_buffer = Inr ok"
  shows "\<exists>is buf. distinct is \<and> length is = n \<and> current_state (coord s) = Peersinfo_state \<and>
    cookies (coord s) = [] \<and> \<not> acceptor_open (serv s) \<and>
    worker_info_map_from_buffer (max_size p) buf =
      Inr (map (\<lambda>i. (of_int i, default_worker_info (fresh_port p))) (order_of p is)) \<and>
    (\<forall>j<n. \<exists>i\<in>set is. \<exists>c first. held s j = Some (i, c) \<and> \<not> is_open c \<and>
       \<not> is_open (holding (client (ends s j))) \<and>
       (if n \<le> 584
        then received (holding (client (ends s j))) = [ok, buf] \<and>
          calls (worker (ends s j)) = [Call_send 0 first, Call_disconnect 0, Call_stop]
        else received (holding (client (ends s j))) = [ok] \<and>
          calls (worker (ends s j)) = [Call_send 0 first] \<and>
          current_state (worker (ends s j)) = Recv_worker_info_state))"
proof -
  from startup_progress [OF assms(1,2)] obtain co f w a where i: "progress_inv p pad n co f w a s0 0" by blast
  have k: "progress_inv p pad n co f w a s (length es)" using startup.run_inv [OF i assms(3)] by simp
  have "length es = 12 * n"
    using startup.continues_iff [OF k, of peer] startup.run_bounded [OF i assms(3)] assms(4) by simp
  with k have "progress_inv p pad n co f w a s (12 * n)" by simp
  moreover have "ok = [1]" by (rule sum.inject(2) [THEN iffD1, OF trans [OF assms(5) [symmetric] ok_buffer]])
  ultimately show ?thesis using all_done [of p pad n co f w a s] unfolding startup_map_def by metis
qed


section \<open>An example\<close>

lemma demo_startup: "\<exists>s. startup_state demo_platform [0, 0, 0] 2 s"
proof -
  obtain co where co: "coordinator_new demo_dis 2 (\<lambda>_. Inr ()) = Inr co" "cookies co = [demo_cookie 0, demo_cookie 1]"
    using demo_coordinator by blast
  have "cookie_ok (demo_cookie b)" for b by (simp add: cookie_ok_def demo_cookie_def data_len_def)
  then have "\<exists>w. worker_new (to_printable (demo_cookie b)) demo_info = Inr w" for b
    by (simp add: worker_new_def parse_printed_cookie)
  then obtain w where w: "worker_new (to_printable (demo_cookie b)) demo_info = Inr (w b)" for b by metis
  obtain sv where sv: "run_server [0, 0, 0] (server_start None None None 4000) (co, new_server (''0.0.0.0'', 0) False) =
      (Inr (), (co, sv))"
    by (simp add: run_server_def server_start_def do_accept_def with_lower_def model_start_def new_calls_def
        sbind_def Let_def)
  have "\<exists>a ls'. new_client_socket Inr (''0.0.0.0'', 0) False [] = (Inr a, ls')"
    by (simp add: new_client_socket_def try_connect_def log_line_def format_connected sbind_def)
  then obtain a ls' where "new_client_socket Inr (''0.0.0.0'', 0) False [] = (Inr a, ls')" by blast
  then have a: "\<exists>ls ls'. new_client_socket Inr (''0.0.0.0'', 0) False ls = (Inr a, ls')" by blast
  have ws: "worker_new (to_printable (cookies co ! j)) demo_info = Inr (w (of_nat j))" if "j < 2" for j
    using that w by (auto simp: co(2) less_2_cases_iff)
  have "startup_state demo_platform [0, 0, 0] 2 (deployed co sv (\<lambda>j. w (of_nat j)) (\<lambda>_. a))"
    unfolding startup_state_def
    by (intro conjI, rule demo_platform_ok, simp, simp, rule exI [of _ demo_dis], rule exI [of _ "\<lambda>_. Inr ()"],
        rule exI [of _ co], rule exI [of _ co], rule exI [of _ sv], rule exI [of _ "(''0.0.0.0'', 0)"],
        rule exI [of _ 4000], rule exI [of _ "\<lambda>j. w (of_nat j)"], rule exI [of _ "\<lambda>_. demo_info"],
        rule exI [of _ "\<lambda>_. a"], rule exI [of _ Inr]) (use co sv a ws in simp)
  then show ?thesis by blast
qed


theorem startup_outcome_witness:
  "\<exists>s0 es s. startup_state demo_platform [0, 0, 0] 2 s0 \<and> length es = 24 \<and>
    run_events (net_step demo_platform [0, 0, 0] (\<lambda>_. (''peer'', 1)) 2) es s0 = Some s \<and>
    current_state (coord s) = Peersinfo_state \<and> cookies (coord s) = []"
proof -
  let ?step = "net_step demo_platform [0, 0, 0] (\<lambda>_. (''peer'', 1)) 2"
  obtain s0 where s0: "startup_state demo_platform [0, 0, 0] 2 s0" using demo_startup by blast
  then obtain co f w a where i: "progress_inv demo_platform [0, 0, 0] 2 co f w a s0 0"
    using startup_progress [OF s0] by auto
  obtain es s where es: "run_events ?step es s0 = Some s" "length es = 24"
    using startup.run_to_end [OF i, of "\<lambda>_. (''peer'', 1)"] by auto
  have "?step e s = None" for e
    using startup.continues_iff [of demo_platform "[0, 0, 0]" 2 co f w a s 24 "\<lambda>_. (''peer'', 1)"]
      startup.run_inv [OF i es(1)] es(2) by auto
  from startup_outcome [OF s0 _ es(1) this ok_buffer] s0 es show ?thesis by auto
qed


end
