(* ===== verification/Missing_Workers.thy ===== *)
theory Missing_Workers
  imports Startup_Runs
begin

text \<open>
  The start-up over the network (Deployment) when some of the worker processes connect but never run:
  what the coordinator and the other workers then do. The invariant is that of Startup_Progress.
\<close>

section \<open>Who has begun to run\<close>

lemma ends_outcome [simp]: "ends (outcome r s) = ends s"
  by (simp add: outcome_def split: sum.split)

text \<open>Only the worker itself starts to run.\<close>

lemma running_kept:
  "net_event_step p pad peer e s = Some s' \<Longrightarrow> e \<noteq> Worker_runs m \<Longrightarrow> running (ends s' m) = running (ends s m)"
  by (cases e) (auto simp: worker_runs_def server_accepts_def client_wrote_def client_reads_def server_wrote_def
      server_reads_def server_eof_def client_eof_def Let_def split: if_splits option.splits prod.splits)

lemma run_running_kept:
  "run_events (net_step p pad peer n) es s = Some s' \<Longrightarrow> Worker_runs m \<notin> set es \<Longrightarrow>
    running (ends s' m) = running (ends s m)"
proof (induction es arbitrary: s)
  case (Cons e es)
  then obtain t where t: "net_step p pad peer n e s = Some t" "run_events (net_step p pad peer n) es t = Some s'"
    by (auto simp: bind_eq_Some_conv)
  then have "running (ends t m) = running (ends s m)"
    using Cons.prems(2) running_kept [of p pad peer e s t m] by (auto simp: net_step_def split: if_splits)
  with Cons.IH [OF t(2)] Cons.prems(2) show ?case by simp
qed simp

lemma worker_waits:
  assumes "setup_ok p pad n co f w a" "net_inv p pad n co f w a ph js s" "j < n" "length js < n"
  shows "received (holding (client (ends s j))) \<in> {[], [[1]]} \<and> Call_stop \<notin> set (calls (worker (ends s j)))"
proof -
  note e = inv_end [OF assms(2,3)]
  have "received (holding (client (ends s j))) \<in> {[], [[1]]}"
    using inv_received [OF assms(1-3)] assms(4) by auto
  moreover from this have "Call_stop \<notin> set (calls (worker (ends s j)))"
    using e setupD(5) [OF assms(1,3)]
    by (auto simp: end_ok_def worker_ok_def fresh_worker_def split: if_splits)
  ultimately show ?thesis by blast
qed

section \<open>The others\<close>

text \<open>A registered worker for which no handler can run, while others are missing, has got the OK.\<close>

lemma worker_stuck:
  assumes S: "setup_ok p pad n co f w a" and inv: "net_inv p pad n co f w a ph js s" and j: "j < n"
    and "length js < n" "\<And>e s'. net_event_step p pad peer e s = Some s' \<Longrightarrow> event_worker e \<noteq> j"
  shows "received (holding (client (ends s j))) = [[1]] \<and> is_open (holding (client (ends s j)))"
proof -
  have "stage (ph j) = 4" "queued (ph j) = []" "flying (ph j) = []"
    using own_event [OF S inv j, of peer] assms(5) by blast+
  moreover from this have "got (ph j) = [[1]]"
    using inv_contents [OF inv j] assms(4) by (simp add: contents_def)
  moreover have "fits [1]" by (simp add: fits_def connection_buffer_size_def)
  ultimately show ?thesis using inv_end [OF inv j] by (simp add: end_ok_def reads_ok_def)
qed

text \<open>
  C8. The coordinator has no time limit for the start-up. While some worker processes, the set \<open>M\<close>,
  have connected but not begun to run, and whatever the others do, the coordinator remains in the
  registration state, listens and has cookies left; no worker has got more than the OK, and none has
  stopped. When only handlers for workers of \<open>M\<close> are left to run, every other worker has got the OK
  and waits for the map on an open connection.
\<close>

theorem missing_workers_block:
  assumes "startup_state p pad n s0" "n < 2 ^ 28" "run_events (net_step p pad peer n) es s0 = Some s"
    and "m \<in> M" "\<forall>m\<in>M. m < n \<and> Worker_runs m \<notin> set es" "firsconnection_ok_to_buffer = Inr ok"
  shows "current_state (coord s) = Firstconnection_state \<and> cookies (coord s) \<noteq> [] \<and> acceptor_open (serv s) \<and>
    (\<forall>j<n. received (holding (client (ends s j))) \<in> {[], [ok]} \<and> Call_stop \<notin> set (calls (worker (ends s j)))) \<and>
    ((\<forall>e s'. net_step p pad peer n e s = Some s' \<longrightarrow> event_worker e \<in> M) \<longrightarrow>
     (\<forall>j<n. j \<notin> M \<longrightarrow> received (holding (client (ends s j))) = [ok] \<and> is_open (holding (client (ends s j)))))"
proof -
  have m: "m < n" "Worker_runs m \<notin> set es" using assms(4,5) by simp_all
  from startup_progress [OF assms(1,2)] obtain co f w a where i: "progress_inv p pad n co f w a s0 0" by blast
  from startup.run_inv [OF i assms(3)] obtain ph js where
    S: "setup_ok p pad n co f w a" and inv: "net_inv p pad n co f w a ph js s"
    unfolding progress_inv_def by blast
  have "\<not> running (ends s0 m)"
    using assms(1) by (auto simp: startup_state_def deployed_def fresh_endpoint_def)
  then have "stage (ph m) = 0"
    using run_running_kept [OF assms(3) m(2)] inv_end [OF inv m(1)] by (simp add: end_ok_def)
  then have "m \<notin> set js" using inv_registered(3) [OF inv m(1)] by simp
  then have "length js \<noteq> n"
    using inv_registered(1,2) [OF inv] m(1)
    by (metis card_subset_eq distinct_card finite_lessThan lessThan_iff subsetI card_lessThan)
  then have len: "length js < n" using inv_coordinator(1) [OF S inv] by simp
  have ok: "ok = [1]" by (rule sum.inject(2) [THEN iffD1, OF trans [OF assms(6) [symmetric] ok_buffer]])
  have "received (holding (client (ends s j))) = [ok] \<and> is_open (holding (client (ends s j)))"
    if only: "\<forall>e s'. net_step p pad peer n e s = Some s' \<longrightarrow> event_worker e \<in> M" and j: "j < n" "j \<notin> M" for j
    unfolding ok
  proof (rule worker_stuck [OF S inv j(1) len])
    fix e s' assume "net_event_step p pad peer e s = Some s'"
    moreover have "\<not> crashed s" using inv by (simp add: net_inv_def)
    ultimately show "event_worker e \<noteq> j" using only j by (auto simp: net_step_def)
  qed
  moreover have "cookies (coord s) \<noteq> []" using inv_coordinator(2) [OF S inv] len by auto
  moreover have "acceptor_open (serv s)" using inv len by (simp add: net_inv_def)
  ultimately show ?thesis using inv_coordinator(3) [OF S inv] worker_waits [OF S inv _ len] len ok by simp
qed

theorem missing_workers_block_witness:
  "\<exists>s0 s. startup_state demo_platform [0, 0, 0] 2 s0 \<and>
    run_events (net_step demo_platform [0, 0, 0] (\<lambda>_. (''peer'', 1)) 2) [Worker_runs 0] s0 = Some s \<and>
    current_state (coord s) = Firstconnection_state"
proof -
  let ?step = "net_step demo_platform [0, 0, 0] (\<lambda>_. (''peer'', 1)) 2"
  obtain s0 where s0: "startup_state demo_platform [0, 0, 0] 2 s0" using demo_startup by blast
  then have "\<not> crashed s0" "\<not> running (ends s0 0)"
    by (auto simp: startup_state_def deployed_def fresh_endpoint_def)
  then have "\<exists>s. run_events ?step [Worker_runs 0] s0 = Some s"
    by (simp add: net_step_def worker_runs_def Let_def split: prod.split)
  then obtain s where s: "run_events ?step [Worker_runs 0] s0 = Some s" by blast
  from missing_workers_block [OF s0 _ s _ _ ok_buffer, of 1 "{1}"] s0 s show ?thesis by auto
qed

end
