(* ===== verification/Serializer_Overloads.thy ===== *)
theory Serializer_Overloads
  imports Serialization
begin

text \<open>
  The overload set behind \<open><<\<close> and \<open>>>\<close> (include/serialize.hpp): which overload the compiler
  picks for the type of an object, and what each overload does with the next one. The overloads
  call each other through the operators; here the operator for the parts is a parameter (\<open>out\<close>, \<open>inp\<close>),
  so that the overload set is a system of equations. \<open>save\<close> and \<open>load\<close> of Serialization are its only
  solutions.
\<close>

section \<open>Which overload is called\<close>

text \<open>The test for a member template \<open>serializable\<close>.\<close>

fun has_serializable_member :: "ty \<Rightarrow> bool" where
  "has_serializable_member (TStruct ts) = True"
| "has_serializable_member _ = False"

text \<open>The overloads of each of the operators, by the form of their second parameter.\<close>

datatype overload = Any_value | Any_member | An_array | A_string | A_vector | A_map

definition overloads :: "overload list" where
  "overloads = [Any_value, Any_member, An_array, A_string, A_vector, A_map]"

fun viable :: "ty \<Rightarrow> overload \<Rightarrow> bool" where
  "viable t Any_value = (\<not> has_serializable_member t)"
| "viable t Any_member = has_serializable_member t"
| "viable t An_array = (case t of TArr n e \<Rightarrow> True | _ \<Rightarrow> False)"
| "viable t A_string = (t = TStr)"
| "viable t A_vector = (case t of TVec e \<Rightarrow> True | _ \<Rightarrow> False)"
| "viable t A_map = (case t of TMap k e \<Rightarrow> True | _ \<Rightarrow> False)"

text \<open>
  A parameter of a particular form is more specialised than one of any type \<open>T\<close>; two particular
  forms are not comparable. The call is ambiguous unless one viable overload is more specialised
  than all others.
\<close>

fun more_specialised :: "overload \<Rightarrow> overload \<Rightarrow> bool" where
  "more_specialised p q = (p \<notin> {Any_value, Any_member} \<and> q \<in> {Any_value, Any_member})"

definition best_overloads :: "ty \<Rightarrow> overload list" where
  "best_overloads t =
     (let vs = filter (viable t) overloads
      in filter (\<lambda>p. \<forall>q\<in>set vs. q = p \<or> more_specialised p q) vs)"

fun chosen :: "ty \<Rightarrow> overload" where
  "chosen (TTriv n) = Any_value"
| "chosen TStr = A_string"
| "chosen (TVec e) = A_vector"
| "chosen (TArr n e) = An_array"
| "chosen (TMap k e) = A_map"
| "chosen (TStruct ts) = Any_member"

lemma best_overloads_chosen: "best_overloads t = [chosen t]"
  by (cases t) (simp_all add: best_overloads_def overloads_def)

section \<open>Saving\<close>

text \<open>\<open>a & t\<close> in a member \<open>serializable\<close> is \<open>a << t\<close>.\<close>

definition save_amp :: "(ty \<Rightarrow> val \<Rightarrow> 'a \<Rightarrow> 'a res) \<Rightarrow> ty \<Rightarrow> val \<Rightarrow> 'a \<Rightarrow> 'a res" where
  "save_amp out t v a = out t v a"

fun amp_fields :: "(ty \<Rightarrow> val \<Rightarrow> 'a \<Rightarrow> 'a res) \<Rightarrow> ty list \<Rightarrow> val list \<Rightarrow> 'a \<Rightarrow> 'a res" where
  "amp_fields out [] [] a = Inr a"
| "amp_fields out (t # ts) (v # vs) a = rbind (save_amp out t v a) (amp_fields out ts vs)"
| "amp_fields out _ _ a = Inl ill_typed"

text \<open>The elements of a span, copied in one piece or one by one.\<close>

fun save_each :: "(ty \<Rightarrow> val \<Rightarrow> 'a \<Rightarrow> 'a res) \<Rightarrow> ty \<Rightarrow> val list \<Rightarrow> 'a \<Rightarrow> 'a res" where
  "save_each out t [] a = Inr a"
| "save_each out t (v # vs) a = rbind (out t v a) (save_each out t vs)"

definition span_serialize ::
  "(byte list \<Rightarrow> 'a \<Rightarrow> 'a res) \<Rightarrow> (ty \<Rightarrow> val \<Rightarrow> 'a \<Rightarrow> 'a res) \<Rightarrow> ty \<Rightarrow> val list \<Rightarrow> 'a \<Rightarrow> 'a res" where
  "span_serialize put out t vs =
     (if is_trivially_serializable t then put (concat (map triv_bytes vs)) else save_each out t vs)"

definition serialize_value :: "(byte list \<Rightarrow> 'a \<Rightarrow> 'a res) \<Rightarrow> val \<Rightarrow> 'a \<Rightarrow> 'a res" where
  "serialize_value put v a = put (triv_bytes v) a"

definition serialize_static_span ::
  "(byte list \<Rightarrow> 'a \<Rightarrow> 'a res) \<Rightarrow> (ty \<Rightarrow> val \<Rightarrow> 'a \<Rightarrow> 'a res) \<Rightarrow> ty \<Rightarrow> val list \<Rightarrow> 'a \<Rightarrow> 'a res" where
  "serialize_static_span put out t vs = span_serialize put out t vs"

text \<open>The type \<open>size_t\<close> and its values.\<close>

abbreviation size_type :: ty where
  "size_type \<equiv> TTriv 8"

abbreviation size_val :: "nat \<Rightarrow> val" where
  "size_val n \<equiv> VTriv (size_bytes n)"

definition serialize_span ::
  "(byte list \<Rightarrow> 'a \<Rightarrow> 'a res) \<Rightarrow> (ty \<Rightarrow> val \<Rightarrow> 'a \<Rightarrow> 'a res) \<Rightarrow> ty \<Rightarrow> val list \<Rightarrow> 'a \<Rightarrow> 'a res" where
  "serialize_span put out t vs a =
     rbind (out size_type (size_val (length vs)) a) (span_serialize put out t vs)"

text \<open>The overloads of \<open><<\<close>. A string is a span of its characters.\<close>

definition shl_value :: "(byte list \<Rightarrow> 'a \<Rightarrow> 'a res) \<Rightarrow> val \<Rightarrow> 'a \<Rightarrow> 'a res" where
  "shl_value put v a = serialize_value put v a"

definition shl_member :: "(ty \<Rightarrow> val \<Rightarrow> 'a \<Rightarrow> 'a res) \<Rightarrow> ty list \<Rightarrow> val list \<Rightarrow> 'a \<Rightarrow> 'a res" where
  "shl_member out ts vs a = amp_fields out ts vs a"

definition shl_array ::
  "(byte list \<Rightarrow> 'a \<Rightarrow> 'a res) \<Rightarrow> (ty \<Rightarrow> val \<Rightarrow> 'a \<Rightarrow> 'a res) \<Rightarrow> ty \<Rightarrow> val list \<Rightarrow> 'a \<Rightarrow> 'a res" where
  "shl_array put out t vs a = serialize_static_span put out t vs a"

definition char_span :: "byte list \<Rightarrow> val list" where
  "char_span bs = map (\<lambda>b. VTriv [b]) bs"

definition shl_string ::
  "(byte list \<Rightarrow> 'a \<Rightarrow> 'a res) \<Rightarrow> (ty \<Rightarrow> val \<Rightarrow> 'a \<Rightarrow> 'a res) \<Rightarrow> byte list \<Rightarrow> 'a \<Rightarrow> 'a res" where
  "shl_string put out bs a = serialize_span put out (TTriv 1) (char_span bs) a"

definition shl_vector ::
  "(byte list \<Rightarrow> 'a \<Rightarrow> 'a res) \<Rightarrow> (ty \<Rightarrow> val \<Rightarrow> 'a \<Rightarrow> 'a res) \<Rightarrow> ty \<Rightarrow> val list \<Rightarrow> 'a \<Rightarrow> 'a res" where
  "shl_vector put out t vs a = serialize_span put out t vs a"

fun shl_pairs :: "(ty \<Rightarrow> val \<Rightarrow> 'a \<Rightarrow> 'a res) \<Rightarrow> ty \<Rightarrow> ty \<Rightarrow> (val \<times> val) list \<Rightarrow> 'a \<Rightarrow> 'a res" where
  "shl_pairs out k t [] a = Inr a"
| "shl_pairs out k t ((x, y) # kvs) a =
     rbind (out k x a) (\<lambda>a. rbind (out t y a) (shl_pairs out k t kvs))"

definition shl_map ::
  "(ty \<Rightarrow> val \<Rightarrow> 'a \<Rightarrow> 'a res) \<Rightarrow> ty \<Rightarrow> ty \<Rightarrow> (val \<times> val) list \<Rightarrow> 'a \<Rightarrow> 'a res" where
  "shl_map out k t kvs a = rbind (out size_type (size_val (length kvs)) a) (shl_pairs out k t kvs)"

text \<open>A call of \<open><<\<close>: the chosen overload, on the parts of the object.\<close>

definition call_shl ::
  "(byte list \<Rightarrow> 'a \<Rightarrow> 'a res) \<Rightarrow> (ty \<Rightarrow> val \<Rightarrow> 'a \<Rightarrow> 'a res) \<Rightarrow> ty \<Rightarrow> val \<Rightarrow> 'a \<Rightarrow> 'a res" where
  "call_shl put out t v a =
     (case (best_overloads t, t, v) of
        ([Any_value], TTriv n, VTriv bs) \<Rightarrow> shl_value put v a
      | ([Any_member], TStruct ts, VStruct vs) \<Rightarrow> shl_member out ts vs a
      | ([An_array], TArr n e, VArr vs) \<Rightarrow> shl_array put out e vs a
      | ([A_string], TStr, VStr bs) \<Rightarrow> shl_string put out bs a
      | ([A_vector], TVec e, VVec vs) \<Rightarrow> shl_vector put out e vs a
      | ([A_map], TMap k e, VMap kvs) \<Rightarrow> shl_map out k e kvs a
      | _ \<Rightarrow> Inl ill_typed)"

lemmas shl_defs = call_shl_def best_overloads_chosen shl_value_def serialize_value_def shl_member_def shl_array_def
  serialize_static_span_def span_serialize_def shl_string_def shl_vector_def serialize_span_def shl_map_def char_span_def

section \<open>Loading\<close>

definition load_amp :: "(ty \<Rightarrow> 'a \<Rightarrow> (val \<times> 'a) res) \<Rightarrow> ty \<Rightarrow> 'a \<Rightarrow> (val \<times> 'a) res" where
  "load_amp inp t a = inp t a"

fun amp_load_fields :: "(ty \<Rightarrow> 'a \<Rightarrow> (val \<times> 'a) res) \<Rightarrow> ty list \<Rightarrow> 'a \<Rightarrow> (val list \<times> 'a) res" where
  "amp_load_fields inp [] a = Inr ([], a)"
| "amp_load_fields inp (t # ts) a =
     rbind (load_amp inp t a) (\<lambda>(v, a). rbind (amp_load_fields inp ts a) (\<lambda>(vs, a). Inr (v # vs, a)))"

fun load_each :: "(ty \<Rightarrow> 'a \<Rightarrow> (val \<times> 'a) res) \<Rightarrow> ty \<Rightarrow> nat \<Rightarrow> 'a \<Rightarrow> (val list \<times> 'a) res" where
  "load_each inp t 0 a = Inr ([], a)"
| "load_each inp t (Suc n) a =
     rbind (inp t a) (\<lambda>(v, a). rbind (load_each inp t n a) (\<lambda>(vs, a). Inr (v # vs, a)))"

fun elem_size :: "ty \<Rightarrow> nat" where
  "elem_size (TTriv k) = k"
| "elem_size _ = 0"

definition span_deserialize ::
  "(nat \<Rightarrow> 'a \<Rightarrow> (byte list \<times> 'a) res) \<Rightarrow> (ty \<Rightarrow> 'a \<Rightarrow> (val \<times> 'a) res) \<Rightarrow> ty \<Rightarrow> nat \<Rightarrow> 'a \<Rightarrow> (val list \<times> 'a) res" where
  "span_deserialize get inp t n a =
     (if is_trivially_serializable t
      then rbind (get (n * elem_size t) a) (\<lambda>(bs, a). Inr (chunk (elem_size t) n bs, a))
      else load_each inp t n a)"

definition deserialize_value :: "(nat \<Rightarrow> 'a \<Rightarrow> (byte list \<times> 'a) res) \<Rightarrow> nat \<Rightarrow> 'a \<Rightarrow> (val \<times> 'a) res" where
  "deserialize_value get n a = rbind (get n a) (\<lambda>(bs, a). Inr (VTriv bs, a))"

definition deserialize_static_span ::
  "(nat \<Rightarrow> 'a \<Rightarrow> (byte list \<times> 'a) res) \<Rightarrow> (ty \<Rightarrow> 'a \<Rightarrow> (val \<times> 'a) res) \<Rightarrow> ty \<Rightarrow> nat \<Rightarrow> 'a \<Rightarrow> (val list \<times> 'a) res" where
  "deserialize_static_span get inp t n a = span_deserialize get inp t n a"

text \<open>A container \<open>r\<close> of type \<open>c\<close> with elements of type \<open>t\<close>: the size, \<open>resize\<close>, the elements.\<close>

definition deserialize_resizeable ::
  "(nat \<Rightarrow> 'a \<Rightarrow> (byte list \<times> 'a) res) \<Rightarrow> (ty \<Rightarrow> 'a \<Rightarrow> (val \<times> 'a) res) \<Rightarrow> (ty \<Rightarrow> nat) \<Rightarrow> ty \<Rightarrow> ty \<Rightarrow> 'a
    \<Rightarrow> (val list \<times> 'a) res" where
  "deserialize_resizeable get inp msz c t a =
     rbind (inp size_type a) (\<lambda>(sz, a).
       let size_to_increase = le_val (triv_bytes sz)
       in rbind (check_resize msz c size_to_increase) (\<lambda>_.
            if size_to_increase > 0 then span_deserialize get inp t size_to_increase a else Inr ([], a)))"

definition shr_value :: "(nat \<Rightarrow> 'a \<Rightarrow> (byte list \<times> 'a) res) \<Rightarrow> nat \<Rightarrow> 'a \<Rightarrow> (val \<times> 'a) res" where
  "shr_value get n a = deserialize_value get n a"

definition shr_member :: "(ty \<Rightarrow> 'a \<Rightarrow> (val \<times> 'a) res) \<Rightarrow> ty list \<Rightarrow> 'a \<Rightarrow> (val \<times> 'a) res" where
  "shr_member inp ts a = rbind (amp_load_fields inp ts a) (\<lambda>(vs, a). Inr (VStruct vs, a))"

definition shr_array ::
  "(nat \<Rightarrow> 'a \<Rightarrow> (byte list \<times> 'a) res) \<Rightarrow> (ty \<Rightarrow> 'a \<Rightarrow> (val \<times> 'a) res) \<Rightarrow> ty \<Rightarrow> nat \<Rightarrow> 'a \<Rightarrow> (val \<times> 'a) res" where
  "shr_array get inp t n a = rbind (deserialize_static_span get inp t n a) (\<lambda>(vs, a). Inr (VArr vs, a))"

text \<open>The characters of a string are the elements of a span over it.\<close>

definition shr_string ::
  "(nat \<Rightarrow> 'a \<Rightarrow> (byte list \<times> 'a) res) \<Rightarrow> (ty \<Rightarrow> 'a \<Rightarrow> (val \<times> 'a) res) \<Rightarrow> (ty \<Rightarrow> nat) \<Rightarrow> 'a \<Rightarrow> (val \<times> 'a) res" where
  "shr_string get inp msz a =
     rbind (deserialize_resizeable get inp msz TStr (TTriv 1) a)
       (\<lambda>(vs, a). Inr (VStr (concat (map triv_bytes vs)), a))"

definition shr_vector ::
  "(nat \<Rightarrow> 'a \<Rightarrow> (byte list \<times> 'a) res) \<Rightarrow> (ty \<Rightarrow> 'a \<Rightarrow> (val \<times> 'a) res) \<Rightarrow> (ty \<Rightarrow> nat) \<Rightarrow> ty \<Rightarrow> 'a
    \<Rightarrow> (val \<times> 'a) res" where
  "shr_vector get inp msz t a =
     rbind (deserialize_resizeable get inp msz (TVec t) t a) (\<lambda>(vs, a). Inr (VVec vs, a))"

fun shr_pairs ::
  "(ty \<Rightarrow> 'a \<Rightarrow> (val \<times> 'a) res) \<Rightarrow> ty \<Rightarrow> ty \<Rightarrow> nat \<Rightarrow> (val \<times> val) list \<Rightarrow> 'a \<Rightarrow> ((val \<times> val) list \<times> 'a) res" where
  "shr_pairs inp k t 0 m a = Inr (m, a)"
| "shr_pairs inp k t (Suc n) m a =
     rbind (inp k a) (\<lambda>(x, a). rbind (inp t a) (\<lambda>(y, a). shr_pairs inp k t n (AList.update x y m) a))"

definition shr_map :: "(ty \<Rightarrow> 'a \<Rightarrow> (val \<times> 'a) res) \<Rightarrow> ty \<Rightarrow> ty \<Rightarrow> 'a \<Rightarrow> (val \<times> 'a) res" where
  "shr_map inp k t a =
     rbind (inp size_type a) (\<lambda>(sz, a).
     rbind (shr_pairs inp k t (le_val (triv_bytes sz)) [] a) (\<lambda>(kvs, a). Inr (VMap kvs, a)))"

definition call_shr ::
  "(nat \<Rightarrow> 'a \<Rightarrow> (byte list \<times> 'a) res) \<Rightarrow> (ty \<Rightarrow> 'a \<Rightarrow> (val \<times> 'a) res) \<Rightarrow> (ty \<Rightarrow> nat) \<Rightarrow> ty \<Rightarrow> 'a
    \<Rightarrow> (val \<times> 'a) res" where
  "call_shr get inp msz t a =
     (case (best_overloads t, t) of
        ([Any_value], TTriv n) \<Rightarrow> shr_value get n a
      | ([Any_member], TStruct ts) \<Rightarrow> shr_member inp ts a
      | ([An_array], TArr n e) \<Rightarrow> shr_array get inp e n a
      | ([A_string], TStr) \<Rightarrow> shr_string get inp msz a
      | ([A_vector], TVec e) \<Rightarrow> shr_vector get inp msz e a
      | ([A_map], TMap k e) \<Rightarrow> shr_map inp k e a
      | _ \<Rightarrow> Inl ill_typed)"

lemmas shr_defs = call_shr_def best_overloads_chosen shr_value_def deserialize_value_def shr_member_def shr_array_def
  deserialize_static_span_def span_deserialize_def shr_string_def shr_vector_def deserialize_resizeable_def shr_map_def

section \<open>The only solutions\<close>

lemma save_each_eq:
  "\<forall>v\<in>set vs. \<forall>a. f t v a = save put t v a \<Longrightarrow> save_each f t vs a = save_elems put t vs a"
proof (induction vs arbitrary: a)
  case (Cons v vs)
  then have "save_each f t vs = save_elems put t vs" by (intro ext) simp
  with Cons.prems show ?case by simp
qed simp

lemma shl_pairs_eq:
  "\<forall>(x, y)\<in>set kvs. \<forall>a. f k x a = save put k x a \<and> f t y a = save put t y a \<Longrightarrow>
   shl_pairs f k t kvs a = save_pairs put k t kvs a"
proof (induction kvs arbitrary: a)
  case (Cons p kvs)
  then have "shl_pairs f k t kvs = save_pairs put k t kvs" by (intro ext) simp
  with Cons.prems show ?case by (cases p) simp
qed simp

lemma amp_fields_eq:
  "list_all2 (\<lambda>v t. \<forall>a. f t v a = save put t v a) vs ts \<Longrightarrow> amp_fields f ts vs a = save_fields put ts vs a"
proof (induction vs ts arbitrary: a rule: list_all2_induct)
  case (Cons v vs t ts)
  then have "amp_fields f ts vs = save_fields put ts vs" by (intro ext) simp
  with Cons show ?case by (simp add: save_amp_def)
qed simp

lemma concat_char_span: "concat (map triv_bytes (char_span bs)) = bs"
  by (induction bs) (simp_all add: char_span_def)

text \<open>One step of the equations, for parts that are saved as by \<open>save\<close>.\<close>

lemma call_shl_save:
  assumes "wt msz v t" "\<And>n a. f size_type (size_val n) a = save put size_type (size_val n) a"
    and "\<And>t' x. size x < size v \<Longrightarrow> wt msz x t' \<Longrightarrow> \<forall>a. f t' x a = save put t' x a"
  shows "call_shl put f t v a = save put t v a"
proof (cases v)
  case (VTriv bs)
  then show ?thesis using assms(1) by (cases t) (auto simp: shl_defs)
next
  case (VStr bs)
  then have "t = TStr" using assms(1) by (cases t) auto
  then show ?thesis using VStr assms(2) concat_char_span [of bs, unfolded char_span_def] by (simp add: shl_defs)
next
  case (VVec vs)
  then obtain e where t: "t = TVec e" "\<forall>x\<in>set vs. wt msz x e" using assms(1) by (cases t) (auto simp: list_all_iff)
  have "size x < size v" if "x \<in> set vs" for x
    using size_list_estimation' [OF that, of "size x" size] VVec by simp
  then have "\<forall>x\<in>set vs. \<forall>a. f e x a = save put e x a" using t(2) assms(3) by blast
  from save_each_eq [where f = f and t = e, OF this] have "save_each f e vs = save_elems put e vs" by (intro ext) simp
  then show ?thesis using VVec t(1) assms(2) by (simp add: shl_defs)
next
  case (VArr vs)
  then obtain n e where t: "t = TArr n e" "\<forall>x\<in>set vs. wt msz x e" using assms(1) by (cases t) (auto simp: list_all_iff)
  have "size x < size v" if "x \<in> set vs" for x
    using size_list_estimation' [OF that, of "size x" size] VArr by simp
  then have "\<forall>x\<in>set vs. \<forall>a. f e x a = save put e x a" using t(2) assms(3) by blast
  from save_each_eq [where f = f and t = e, OF this] have "save_each f e vs = save_elems put e vs" by (intro ext) simp
  then show ?thesis using VArr t(1) by (simp add: shl_defs)
next
  case (VMap kvs)
  then obtain k e where t: "t = TMap k e" "\<forall>(x, y)\<in>set kvs. wt msz x k \<and> wt msz y e"
    using assms(1) by (cases t) (auto simp: list_all_iff case_prod_unfold)
  have less: "size x < size v \<and> size y < size v" if "(x, y) \<in> set kvs" for x y
    using size_list_estimation' [OF that, of "size_prod size size (x, y)" "size_prod size size"] VMap by simp
  have "\<forall>(x, y)\<in>set kvs. \<forall>a. f k x a = save put k x a \<and> f e y a = save put e y a"
    using t(2) assms(3) less by fast
  from shl_pairs_eq [where f = f and k = k and t = e, OF this] have "shl_pairs f k e kvs = save_pairs put k e kvs" by (intro ext) simp
  then show ?thesis using VMap t(1) assms(2) by (simp add: shl_defs)
next
  case (VStruct vs)
  then obtain ts where t: "t = TStruct ts" "list_all2 (wt msz) vs ts" using assms(1) by (cases t) (auto simp: list_all2_map1)
  have "size x < size v" if "x \<in> set vs" for x
    using size_list_estimation' [OF that, of "size x" size] VStruct by simp
  then have "list_all2 (\<lambda>v t. \<forall>a. f t v a = save put t v a) vs ts"
    using t(2) assms(3) by (auto simp: list_all2_conv_all_nth)
  from amp_fields_eq [where f = f, OF this] show ?thesis using VStruct t(1) by (simp add: shl_defs)
qed

lemma save_solves: "wt msz v t \<Longrightarrow> save put t v a = call_shl put (save put) t v a"
  by (rule call_shl_save [symmetric]) simp_all

lemma save_only_solution:
  assumes "\<And>t v a. wt msz v t \<Longrightarrow> f t v a = call_shl put f t v a"
  shows "wt msz v t \<Longrightarrow> f t v a = save put t v a"
proof (induction "size v" arbitrary: v t a rule: less_induct)
  case less
  have "f size_type (size_val n) a = save put size_type (size_val n) a" for n a
    using assms [of "size_val n" size_type] by (simp add: shl_defs)
  from call_shl_save [OF less.prems, of f put, OF this] less.hyps show ?case
    using assms [OF less.prems] by simp
qed

text \<open>Loading: the same for the types.\<close>

lemma load_each_eq: "(\<And>a. f t a = load get msz t a) \<Longrightarrow> load_each f t n a = load_elems get msz t n a"
  by (induction n arbitrary: a) (auto intro!: rbind_cong)

lemma shr_pairs_eq:
  "(\<And>a. f k a = load get msz k a) \<Longrightarrow> (\<And>a. f t a = load get msz t a) \<Longrightarrow>
   shr_pairs f k t n m a = load_pairs get msz k t n m a"
  by (induction n arbitrary: m a) (auto intro!: rbind_cong)

lemma amp_load_fields_eq:
  "(\<And>t a. t \<in> set ts \<Longrightarrow> f t a = load get msz t a) \<Longrightarrow> amp_load_fields f ts a = load_fields get msz ts a"
  by (induction ts arbitrary: a) (auto simp: load_amp_def intro!: rbind_cong)

lemma chunk_chars: "length bs = n \<Longrightarrow> concat (map triv_bytes (chunk 1 n bs)) = bs"
proof (induction n arbitrary: bs)
  case (Suc n)
  then obtain b bs' where "bs = b # bs'" "length bs' = n" by (auto simp: length_Suc_conv)
  with Suc.IH [of bs'] show ?case by simp
qed simp

definition exact_get :: "(nat \<Rightarrow> 'a \<Rightarrow> (byte list \<times> 'a) res) \<Rightarrow> bool" where
  "exact_get get \<longleftrightarrow> (\<forall>n a bs a'. get n a = Inr (bs, a') \<longrightarrow> length bs = n)"

lemma call_shr_load:
  assumes "exact_get get" "\<And>a. f size_type a = load get msz size_type a"
    and "\<And>t' a. size t' < size t \<Longrightarrow> f t' a = load get msz t' a"
  shows "call_shr get f msz t a = load get msz t a"
proof (cases t)
  case (TTriv n)
  then show ?thesis by (simp add: shr_defs)
next
  case TStr
  have "concat (map triv_bytes (chunk (Suc 0) n bs)) = bs" if "get n a = Inr (bs, a')" for n a bs a'
    using assms(1) that unfolding exact_get_def by (metis One_nat_def chunk_chars)
  then show ?thesis using TStr assms(2) by (auto simp: shr_defs rbind_assoc Let_def intro!: rbind_cong)
next
  case (TVec e)
  have "load_each f e n a = load_elems get msz e n a" for n a
    using assms(3) TVec by (intro load_each_eq) simp
  then show ?thesis using TVec assms(2)
    by (cases e) (auto simp: shr_defs rbind_assoc Let_def intro!: rbind_cong)
next
  case (TArr n e)
  have "load_each f e n a = load_elems get msz e n a" for n a
    using assms(3) TArr by (intro load_each_eq) simp
  then show ?thesis using TArr by (cases e) (auto simp: shr_defs rbind_assoc intro!: rbind_cong)
next
  case (TMap k e)
  have "shr_pairs f k e n m a = load_pairs get msz k e n m a" for n m a
    using assms(3) TMap by (intro shr_pairs_eq) simp_all
  then show ?thesis using TMap assms(2) by (auto simp: shr_defs rbind_assoc intro!: rbind_cong)
next
  case (TStruct ts)
  have "amp_load_fields f ts a = load_fields get msz ts a"
    using assms(3) TStruct by (intro amp_load_fields_eq) (simp add: size_list_estimation' le_imp_less_Suc)
  then show ?thesis using TStruct by (simp add: shr_defs)
qed

lemma load_only_solution:
  assumes "exact_get get" "\<And>t a. f t a = call_shr get f msz t a"
  shows "f t a = load get msz t a"
proof (induction "size t" arbitrary: t a rule: less_induct)
  case less
  have "f size_type a = load get msz size_type a" for a
    using assms(2) [of size_type] by (simp add: shr_defs)
  from call_shr_load [OF assms(1) this less.hyps] show ?case using assms(2) [of t a] by simp
qed


lemma exact_sl_get: "exact_get sl_get"
  by (auto simp: exact_get_def sl_get_def res_iff split: if_splits)


end
