(* ===== verification/Program_Main.thy ===== *)
theory Program_Main
  imports Executions
begin

text \<open>
  The frame around user code: raising an exception with or without a backtrace and what becomes of one
  that nobody catches (include/exception.hpp), \<open>TI_MAIN\<close> and the initialisation of the statics
  (include/thallium.hpp, src/thallium.cpp), singletons and the thread wrapper (include/utils.hpp). Whether
  the program is built with \<open>THALLIUM_ENABLE_BACKTRACE\<close> is the parameter \<open>backtrace\<close>; the text of a
  stack trace is a parameter as well.
\<close>

section \<open>Raising\<close>

text \<open>An exception in flight, with the information that \<open>boost\<close> attaches to it.\<close>

record raised =
  exn :: error
  file_line :: "string option"
  traced :: bool

primrec what :: "error \<Rightarrow> string" where
  "what (Format_error s) = s"
| "what (Logic_error s) = s"
| "what (Runtime_error s) = s"
| "what (Length_error s) = s"
| "what (Parameter_error s) = s"
| "what (Bad_user_input s) = s"
| "what (Invalid_argument s) = s"
| "what (Out_of_range s) = s"
| "what (System_error s) = s"
| "what (Undefined s) = s"

definition plain_throw :: "error \<Rightarrow> raised" where
  "plain_throw e = \<lparr>exn = e, file_line = None, traced = False\<rparr>"

text \<open>\<open>raise\<close> attaches the stack trace, \<open>TI_RAISE\<close> the place.\<close>

definition raise_traced :: "error \<Rightarrow> raised" where
  "raise_traced e = (plain_throw e)\<lparr>traced := True\<rparr>"

definition ti_raise :: "bool \<Rightarrow> string \<Rightarrow> int \<Rightarrow> error \<Rightarrow> raised" where
  "ti_raise backtrace file line e =
     (if backtrace then (raise_traced e)\<lparr>file_line := Some (file @ '', line: '' @ show_int line)\<rparr>
      else plain_throw e)"

section \<open>Uncaught exceptions\<close>

text \<open>
  How a process ends: with an exit code, by \<open>abort\<close>, by an exception that is thrown out of \<open>main\<close> (the
  class of the object thrown), or in undefined behaviour.
\<close>

datatype process_end = Exited int | Aborted | Uncaught string | Undefined_end

text \<open>
  \<open>handle_uncatched_and_abort\<close>: what is written to the standard error, and the end. With backtraces the place
  is read through a pointer that is null unless the exception was raised by \<open>TI_RAISE\<close>; without,
  \<open>throw e\<close> copies the part of the exception that is a \<open>std::exception\<close>.
\<close>

definition newline :: string where
  "newline = [CHR 0x0A]"

definition handle_uncatched_and_abort :: "bool \<Rightarrow> string \<Rightarrow> raised \<Rightarrow> string \<times> process_end" where
  "handle_uncatched_and_abort backtrace st e =
     (if backtrace then
        (let out = ''Exception: '' @ what (exn e) @ newline
         in case file_line e of
              None \<Rightarrow> (out, Undefined_end)
            | Some fl \<Rightarrow>
                (out @ ''in: '' @ fl @ newline @
                   (if traced e then ''stacktrace:'' @ newline @ st @ newline else []), Aborted))
      else ([], Uncaught ''std::exception''))"

section \<open>The main function\<close>

definition init_statics :: "runtime \<Rightarrow> runtime" where
  "init_statics s = init_execution_statics s"

text \<open>\<open>TI_MAIN\<close> around the user's \<open>ti_main\<close>, which returns a number or throws.\<close>

definition ti_main :: "bool \<Rightarrow> string \<Rightarrow> (runtime \<Rightarrow> (raised + int) \<times> runtime) \<Rightarrow> runtime
    \<Rightarrow> (string \<times> process_end) \<times> runtime" where
  "ti_main backtrace st user s =
     (let (r, s) = user (init_statics s)
      in (case r of Inr ret \<Rightarrow> ([], Exited ret) | Inl e \<Rightarrow> handle_uncatched_and_abort backtrace st e, s))"

text \<open>The call operator of \<open>AsyncSubmitter\<close> has an empty body.\<close>

definition async_submitter_call :: "function_type \<Rightarrow> (ty \<times> val) list \<Rightarrow> (runtime, unit) action" where
  "async_submitter_call ft args = sreturn ()"

section \<open>Singletons and joined threads\<close>

text \<open>The local static of \<open>get\<close> is constructed by the first call.\<close>

definition singleton_get :: "'c \<Rightarrow> 'c option \<Rightarrow> 'c \<times> 'c option" where
  "singleton_get fresh inst = (case inst of None \<Rightarrow> (fresh, Some fresh) | Some c \<Rightarrow> (c, inst))"

lemma singleton_once:
  "singleton_get fresh inst = (c, inst') \<Longrightarrow> singleton_get fresh' inst' = (c, inst')"
  by (auto simp: singleton_get_def split: option.splits)

text \<open>
  A thread that may be joined; \<open>join_fails\<close> is the \<open>system_error\<close> of a \<open>join\<close> that is not possible. The
  destructor of the wrapper joins and swallows it.
\<close>

record wrapped_thread =
  joinable :: bool
  join_fails :: "string option"

definition thread_join :: "(wrapped_thread, unit) action" where
  "thread_join t =
     (case join_fails t of
        Some m \<Rightarrow> (Inl (System_error m), t)
      | None \<Rightarrow> (Inr (), t\<lparr>joinable := False\<rparr>))"

definition destroy_join_wrapper :: "(wrapped_thread, unit) action" where
  "destroy_join_wrapper t =
     (if joinable t then
        (case thread_join t of
           (Inl (System_error m), t) \<Rightarrow> (Inr (), t)
         | rt \<Rightarrow> rt)
      else (Inr (), t))"

lemma destroy_join_wrapper_ok: "fst (destroy_join_wrapper t) = Inr ()"
  by (simp add: destroy_join_wrapper_def thread_join_def split: option.split)

section \<open>The end of a process\<close>

text \<open>User code that runs finish blocks and lets their exceptions pass, raised at \<open>file\<close> and \<open>line\<close>.\<close>

definition block_main :: "bool \<Rightarrow> string \<Rightarrow> int \<Rightarrow> prog list \<Rightarrow> runtime \<Rightarrow> (raised + int) \<times> runtime" where
  "block_main backtrace file line ps s =
     (case run_prog (Block ps) s of
        (Inl e, s) \<Rightarrow> (Inl (ti_raise backtrace file line e), s)
      | (Inr _, s) \<Rightarrow> (Inr 0, s))"



end
