(* ===== verification/Open_Network.thy ===== *)
theory Open_Network
  imports Startup_Steps
begin

text \<open>
  The coordinator process in an open network: anybody may connect to it and send any bytes, every
  read and every write may fail at any point, and completions come in any order. A step of the
  process is the completion of one asynchronous operation; nothing is assumed of the peers. The
  handlers are those of Connections, Conn_Managers and Coordinator_Worker, composed as in Deployment.
\<close>

declare message_buffers_bytes [simp del]

section \<open>The inputs of the process\<close>

text \<open>
  A read completes with the first bytes of what has arrived, or with an error after \<open>k\<close> bytes; an
  aborted read has read less than the message. A write completes with all its bytes, or with an
  error after \<open>k\<close> bytes.
\<close>

datatype net_input =
    Peer_connects "string \<times> nat"
  | Accept_fails error_code
  | Bytes_arrive int "byte list"
  | Read_fails int error_code nat
  | Write_done int
  | Write_fails int error_code nat

definition read_failed :: "upper_layer \<Rightarrow> error_code \<Rightarrow> nat \<Rightarrow> connection \<Rightarrow> (unit res \<times> connection) option" where
  "read_failed up e k c =
     (case reading c of
        No_read \<Rightarrow> None
      | Header_read \<Rightarrow> Some (when_header_received up (Some e) (c\<lparr>reading := No_read\<rparr>))
      | Payload_read len n \<Rightarrow>
          if e = Operation_aborted \<and> len \<le> k then None
          else Some (when_payload_received up len (Some e) k (c\<lparr>reading := No_read\<rparr>)))"

definition write_failed :: "upper_layer \<Rightarrow> error_code \<Rightarrow> nat \<Rightarrow> connection \<Rightarrow> (unit res \<times> connection) option" where
  "write_failed up e k c =
     (case writing c of
        None \<Rightarrow> None
      | Some (bytes, len) \<Rightarrow>
          if length bytes < k then None
          else Some (when_message_sent up len (Some e) k (c\<lparr>writing := None\<rparr>)))"

text \<open>A completion on the connection \<open>i\<close> of the server, with the calls that the coordinator makes.\<close>

type_synonym process = "coordinator \<times> async_server"

definition conn_step ::
  "platform \<Rightarrow> byte list \<Rightarrow> int \<Rightarrow> (upper_layer \<Rightarrow> connection \<Rightarrow> (unit res \<times> connection) option) \<Rightarrow> process \<Rightarrow>
    (unit res \<times> process) option" where
  "conn_step p pad i f s =
     (case holdings (cmanager (snd s)) i of
        Some (Some c) \<Rightarrow>
          map_option (\<lambda>res. after_message p pad i c res s) (f (coordinator_layer p pad i (fst s)) c)
      | _ \<Rightarrow> None)"

text \<open>An accept that completed before the acceptor was closed still succeeds.\<close>

definition accept_step :: "error_code option \<Rightarrow> string \<times> nat \<Rightarrow> process \<Rightarrow> (unit res \<times> process) option" where
  "accept_step ec peer s =
     (if accepting (snd s)
      then Some (let (r, sv) = when_accept ec peer (snd s) in (r, (fst s, sv))) else None)"

fun open_step :: "platform \<Rightarrow> byte list \<Rightarrow> net_input \<Rightarrow> process \<Rightarrow> (unit res \<times> process) option" where
  "open_step p pad (Peer_connects peer) = accept_step None peer"
| "open_step p pad (Accept_fails e) = accept_step (Some e) ([], 0)"
| "open_step p pad (Bytes_arrive i w) = conn_step p pad i (\<lambda>up c. map_option fst (complete_read up w c))"
| "open_step p pad (Read_fails i e k) = conn_step p pad i (\<lambda>up. read_failed up e k)"
| "open_step p pad (Write_done i) = conn_step p pad i (\<lambda>up c. map_option fst (complete_write up c))"
| "open_step p pad (Write_fails i e k) = conn_step p pad i (\<lambda>up. write_failed up e k)"

text \<open>The process goes on as long as no handler throws.\<close>

fun survives :: "(unit res \<times> process) option \<Rightarrow> process option" where
  "survives (Some (Inr _, s)) = Some s"
| "survives _ = None"

definition live_step :: "platform \<Rightarrow> byte list \<Rightarrow> net_input \<Rightarrow> process \<Rightarrow> process option" where
  "live_step p pad x s = survives (open_step p pad x s)"

section \<open>What a completion does to a connection\<close>

text \<open>The message that a completed read hands up, and a header that the server does not know.\<close>

definition delivers :: "byte list \<Rightarrow> connection \<Rightarrow> byte list option" where
  "delivers w c =
     (case reading c of
        Payload_read len n \<Rightarrow>
          if is_open c \<and> len \<le> n then Some (take len (write_at 0 (take n w) (receive_buffer c))) else None
      | _ \<Rightarrow> None)"

definition bad_header :: "byte list \<Rightarrow> connection \<Rightarrow> bool" where
  "bad_header w c \<longleftrightarrow> reading c = Header_read \<and> is_open c \<and> hd w \<noteq> header_message_code Normal"

definition unnoticed :: "connection \<Rightarrow> connection \<Rightarrow> bool" where
  "unnoticed c c' \<longleftrightarrow> same_sending c c' \<and> cclass c' = cclass c \<and> received c' = received c"

lemma received_close [simp]:
  "concat (map (\<lambda>e. case e of Upper_receive m \<Rightarrow> [m] | _ \<Rightarrow> []) (close_effects c)) = []"
  by (auto simp: close_effects_def)

lemma header_type_hd:
  assumes "header_size \<le> length w"
  shows "\<exists>h. string_to_header (take header_size w) = Inr h \<and> msg_type h = hd w"
  using assms by (cases w) (auto simp: string_to_header_def header_size_def)

lemma read_cases:
  assumes "cclass c = Server_connection" "complete_read up w c = Some (res, rest)"
  obtains (bad) e c' where "bad_header w c" "delivers w c = None" "res = (Inl e, c')"
  | (quiet) c' where "\<not> bad_header w c" "delivers w c = None" "res = (Inr (), c')" "unnoticed c c'"
  | (deliver) m c1 where "\<not> bad_header w c" "delivers w c = Some m" "same_sending c c1"
      "cclass c1 = cclass c" "received c1 = received c @ [m]"
      "res = andthen (on_receive up m) do_receive_message c1"
proof (cases "reading c")
  case No_read
  with assms(2) show thesis by (simp add: complete_read_def)
next
  case Header_read
  with assms(2) have w: "header_size \<le> length w" "res = when_header_received up None
      (c\<lparr>header_buffer := take header_size w, reading := No_read\<rparr>)"
    by (auto simp: complete_read_def split: if_splits)
  obtain h where h: "string_to_header (take header_size w) = Inr h" "msg_type h = hd w"
    using header_type_hd [OF w(1)] by blast
  have d: "delivers w c = None" by (simp add: delivers_def Header_read)
  show thesis
  proof (cases "bad_header w c")
    case True
    with bad [of "Logic_error ''Should not be here!''" "snd res"] d w(2) h assms(1) Header_read show thesis
      by (simp add: bad_header_def when_header_received_def header_parsers)
  next
    case False
    then have "is_open c \<longrightarrow> msg_type h = header_message_code Normal" using Header_read h(2) by (simp add: bad_header_def)
    with quiet [of "snd res"] False d w(2) h assms(1) show thesis
      by (simp add: when_header_received_def header_parsers do_receive_payload_def unnoticed_def same_sending_def
          received_def split: if_splits)
  qed
next
  case (Payload_read len n)
  let ?b = "write_at 0 (take n w) (receive_buffer c)"
  have res: "res = when_payload_received up len None n (c\<lparr>receive_buffer := ?b, reading := No_read\<rparr>)"
    using assms(2) Payload_read by (auto simp: complete_read_def split: if_splits)
  have b: "\<not> bad_header w c" by (simp add: bad_header_def Payload_read)
  show thesis
  proof (cases "is_open c \<and> len \<le> n")
    case True
    let ?c = "c\<lparr>receive_buffer := ?b, reading := No_read, effects := effects c @ [Upper_receive (take len ?b)]\<rparr>"
    have "res = andthen (on_receive up (take len ?b)) do_receive_message ?c"
      using res True by (simp add: when_payload_received_def Let_def emit_def andthen_def sbind_def)
    with deliver [of "take len ?b" ?c] b True Payload_read show thesis
      by (simp add: delivers_def same_sending_def received_def)
  next
    case False
    then have "delivers w c = None" by (auto simp: delivers_def Payload_read)
    with quiet [of "snd res"] b res False show thesis
      by (cases "n < len") (simp_all add: when_payload_received_def Let_def log_texts unnoticed_def same_sending_def
          received_def do_receive_message_def andthen_def sbind_def)
  qed
qed

text \<open>A read that fails is never noticed above, and no error of a read throws.\<close>

lemma read_failed_quiet:
  assumes "read_failed up e k c = Some res" "on_event up Close = skip"
  shows "\<exists>c'. res = (Inr (), c') \<and> unnoticed c c'"
proof -
  note defs = read_failed_def when_header_received_def when_payload_received_def handle_eofs upper_event_def
    log_texts unnoticed_def same_sending_def received_def emit_def Let_def
  from assms show ?thesis
    by (cases e; cases "reading c") (auto simp: defs split: if_splits)
qed

text \<open>
  What a connection of the server has in its queue and on its way: frames of the messages in \<open>A\<close>.
\<close>

definition sends_only :: "byte list \<Rightarrow> byte list set \<Rightarrow> connection \<Rightarrow> bool" where
  "sends_only pad A c \<longleftrightarrow> cclass c = Server_connection \<and> set (write_queue c) \<subseteq> message_buffers pad ` A \<and>
     (\<forall>b k. writing c = Some (b, k) \<longrightarrow> write_queue c \<noteq> [] \<and> k = length b \<and> b \<in> frame pad ` A)"

lemma sends_only_mono: "sends_only pad A c \<Longrightarrow> A \<subseteq> B \<Longrightarrow> sends_only pad B c"
  unfolding sends_only_def by blast

lemma sends_only_unnoticed: "sends_only pad A c \<Longrightarrow> unnoticed c c' \<Longrightarrow> sends_only pad A c'"
  by (simp add: sends_only_def unnoticed_def same_sending_def)

lemma write_only:
  assumes "set (write_queue c) \<subseteq> message_buffers pad ` A" "write_queue c \<noteq> []" "cclass c = Server_connection"
  shows "\<exists>c'. do_write c = (Inr (), c') \<and> sends_only pad A c' \<and> received c' = received c"
proof -
  have "last (write_queue c) \<in> message_buffers pad ` A" using assms(1,2) by auto
  then obtain m where m: "m \<in> A" "last (write_queue c) = message_buffers pad m" by blast
  then have "sum_list (map length (last (write_queue c))) = length (frame pad m)"
    by (simp only: m(2) length_concat [symmetric] concat_buffers)
  with assms m show ?thesis by (auto simp: do_write_def sends_only_def received_def Let_def)
qed

lemma push_only:
  assumes "sends_only pad A c" "m \<in> A" "length pad = 3"
  shows "\<exists>c'. do_send_message pad m c = (Inr (), c') \<and> sends_only pad A c' \<and> received c' = received c"
proof (cases "write_queue c = []")
  case True
  with assms show ?thesis
    by (auto simp: do_send_message_eq push_idle sends_only_def received_def)
next
  case False
  with assms show ?thesis
    by (auto simp: do_send_message_eq push_busy sends_only_def received_def)
qed

text \<open>The next write, when the last one is complete.\<close>

lemma next_write_only:
  assumes "sends_only pad A c" "writing c = None"
  shows "\<exists>c'. (let c = c\<lparr>write_queue := tl (write_queue c)\<rparr>
      in if write_queue c = [] then (Inr (), c) else do_write c) = (Inr (), c') \<and>
    sends_only pad A c' \<and> received c' = received c"
proof -
  let ?c = "c\<lparr>write_queue := tl (write_queue c)\<rparr>"
  have "set (tl (write_queue c)) \<subseteq> set (write_queue c)" by (cases "write_queue c") auto
  with assms have t: "set (write_queue ?c) \<subseteq> message_buffers pad ` A" "cclass ?c = Server_connection"
    by (auto simp: sends_only_def)
  show ?thesis
  proof (cases "write_queue ?c = []")
    case True
    with assms show ?thesis by (simp add: sends_only_def received_def)
  next
    case False
    from write_only [OF t(1) this t(2)] False show ?thesis by (auto simp: received_def)
  qed
qed

lemma sends_only_stop: "sends_only pad A c \<Longrightarrow> sends_only pad A (c\<lparr>writing := None\<rparr>)"
  by (simp add: sends_only_def)

lemma write_done_only:
  assumes "sends_only pad A c" "complete_write up c = Some (res, bytes)"
  shows "\<exists>c'. res = (Inr (), c') \<and> sends_only pad A c' \<and> received c' = received c"
proof -
  obtain b k where w: "writing c = Some (b, k)" using assms(2) by (auto simp: complete_write_def split: option.splits)
  with assms(1) have k: "k = length b" "b \<in> frame pad ` A" by (auto simp: sends_only_def)
  then have "0 < length b" using frame_not_Nil by auto
  moreover have "received (c\<lparr>writing := None\<rparr>) = received c" by (simp add: received_def)
  ultimately show ?thesis
    using next_write_only [OF sends_only_stop [OF assms(1)]] assms(2) w k(1)
    by (auto simp: complete_write_def message_sent_complete Let_def)
qed

text \<open>A write that fails throws exactly if it is aborted before its first byte.\<close>

lemma write_failed_only:
  assumes "sends_only pad A c" "write_failed up e k c = Some res" "on_event up Pipe = skip"
  shows "if e = Operation_aborted \<and> k = 0 then \<exists>e c'. res = (Inl e, c')
    else \<exists>c'. res = (Inr (), c') \<and> sends_only pad A c' \<and> received c' = received c"
proof -
  obtain b l where w: "writing c = Some (b, l)" "k \<le> length b"
      "res = when_message_sent up l (Some e) k (c\<lparr>writing := None\<rparr>)"
    using assms(2) by (auto simp: write_failed_def split: option.splits if_splits)
  with assms(1) have l: "l = length b" by (simp add: sends_only_def)
  show ?thesis
  proof (cases "e = Operation_aborted")
    case True
    show ?thesis
    proof (cases "k = 0")
      case zero: True
      with True w(3) show ?thesis by (simp add: when_message_sent_def log_texts Let_def)
    next
      case False
      let ?c = "c\<lparr>writing := None, effects := effects c @ [Log Warn (''Socket '' @ socket_str c @
        '': Write canceled. But should not be cancelled here.'')]\<rparr>"
      have "sends_only pad A ?c" "writing ?c = None" using assms(1) by (simp_all add: sends_only_def)
      from next_write_only [OF this] obtain c' where c': "(let c = ?c\<lparr>write_queue := tl (write_queue ?c)\<rparr>
          in if write_queue c = [] then (Inr (), c) else do_write c) = (Inr (), c')"
          "sends_only pad A c'" "received c' = received ?c" by blast
      moreover have "received ?c = received c" by (simp add: received_def)
      moreover have "res = (Inr (), c')"
        using c'(1) True False w(3) by (simp add: when_message_sent_def log_texts Let_def split: if_splits)
      ultimately show ?thesis using True False by simp
    qed
  next
    case False
    with assms(1,3) w(3) show ?thesis
      by (cases e) (auto simp: when_message_sent_def log_texts Let_def upper_event_def emit_def
          sends_only_def received_def)
  qed
qed

section \<open>What the coordinator makes of a message\<close>

text \<open>A message introduces its sender with a cookie: the type, the bytes of the cookie, and anything.\<close>

definition introduction :: "byte list \<Rightarrow> first_con_cookie option" where
  "introduction m =
     (if data_len < length m \<and> hd m = message_code Firstconnection
      then Some \<lparr>cookie_data = take data_len (tl m)\<rparr> else None)"

lemma introduction_ok: "introduction m = Some k \<Longrightarrow> cookie_ok k"
  by (cases m) (auto simp: introduction_def cookie_ok_def split: if_splits)

lemma introduction_read:
  assumes "size_limits msz" "introduction m = Some k"
  shows "firsconnection_from_buffer msz port0 m = Inr \<lparr>firstcookie = k, fc_worker_info = default_worker_info port0\<rparr>"
    "hd m = message_code Firstconnection" "m \<noteq> []"
proof -
  let ?f = "\<lparr>firstcookie = k, fc_worker_info = default_worker_info port0\<rparr>"
  obtain bs where m: "m = 0 # bs" "data_len \<le> length bs" "k = \<lparr>cookie_data = take data_len bs\<rparr>"
    using assms(2) by (cases m) (auto simp: introduction_def split: if_splits)
  have "cookie_ok (firstcookie ?f)" using introduction_ok [OF assms(2)] by simp
  note ok = firsconnection_message_ok [OF this]
  have "flat (firsconnection_val ?f) = take data_len bs"
    by (simp add: firsconnection_val_def cookie_val_def m(3) comp_def)
  with m(1) have "m = 0 # flat (firsconnection_val ?f) @ drop data_len bs" by simp
  then show "firsconnection_from_buffer msz port0 m = Inr ?f"
    using from_buffer_flat [OF assms(1) ok, of Firstconnection Firstconnection "drop data_len bs"]
    by (simp add: firsconnection_from_buffer_def)
  show "hd m = message_code Firstconnection" "m \<noteq> []" by (simp_all add: m(1))
qed

lemma no_introduction_read:
  assumes "introduction m = None" "hd m = message_code Firstconnection" "m \<noteq> []"
  shows "\<exists>e. firsconnection_from_buffer msz port0 m = Inl e"
proof -
  obtain bs where m: "m = 0 # bs" "length bs < data_len"
    using assms by (cases m) (auto simp: introduction_def split: if_splits)
  then show ?thesis
    by (simp add: firsconnection_from_buffer_def from_buffer_def cast_buf_def load_header firsconnection_ty_def
        cookie_ty_def fl_get_eq fl_ok_def fl_rest_def)
qed

text \<open>The handler of the registration state, on every message.\<close>

lemma firstconnection_introduced:
  assumes "platform_ok p" "introduction m = Some k"
  shows "firstconnection p i m s =
    complete_registration p (if cookie_count k (cookies s) = 0 then refused i s else registered p i k s)"
proof -
  have "size_limits (max_size p)" using assms(1) by (simp add: platform_ok_def)
  note read = introduction_read [OF this assms(2)]
  let ?f = "\<lparr>firstcookie = k, fc_worker_info = default_worker_info (fresh_port p)\<rparr>"
  have "assert_message_type p m Firstconnection s = (Inr (), s)"
    using read(2,3) by (cases m) (simp_all add: assert_message_type_Cons)
  moreover have "register_worker i ?f s = (Inr (), registered p i k s)"
    using register_worker_eq [where i = i and f = ?f and p = p and s = s] by simp
  ultimately show ?thesis
    by (simp add: firstconnection_def read(1) refused_def machine_defs sbind_def)
qed

lemma firstconnection_unintroduced:
  assumes "introduction m = None"
  shows "\<exists>e s'. firstconnection p i m s = (Inl e, s') \<and> calls s' = calls s"
proof (cases m)
  case Nil
  have "\<exists>e. read_header_messagetype (max_size p) [] = Inl e"
    by (simp add: read_header_messagetype_def cast_buf_def runtime_header_ty_def fl_get_eq fl_ok_def fl_rest_def
        fix_load_init_def)
  with Nil show ?thesis by (auto simp: firstconnection_def assert_message_type_def sbind_def)
next
  case (Cons b bs)
  show ?thesis
  proof (cases "b = message_code Firstconnection")
    case True
    obtain e where "firsconnection_from_buffer (max_size p) (fresh_port p) m = Inl e"
      using no_introduction_read [OF assms, of "max_size p" "fresh_port p"] Cons True by auto
    with Cons True show ?thesis
      by (simp add: firstconnection_def assert_message_type_Cons sbind_def)
  next
    case False
    with Cons show ?thesis by (simp add: firstconnection_def assert_message_type_Cons sbind_def Let_def)
  qed
qed

end
