(* ===== verification/Open_Registration.thy ===== *)
theory Open_Registration
  imports Open_Network
begin

text \<open>
  What holds of the coordinator process in an open network, whatever the peers send and however the
  operations fail: which inputs end the process, and what a peer must have presented before anything
  is sent to it.
\<close>

section \<open>The registrations\<close>

text \<open>
  \<open>regs\<close> are the registrations in their order, a connection and the cookie that it presented. A
  connection can register more than once.
\<close>

type_synonym registrations = "(int \<times> first_con_cookie) list"

definition reg_ids :: "registrations \<Rightarrow> int list" where
  "reg_ids regs = rev (remdups (map fst (rev regs)))"

lemma reg_ids_Nil [simp]: "reg_ids [] = []"
  by (simp add: reg_ids_def)

lemma reg_ids_snoc:
  "reg_ids (regs @ [(i, k)]) = (if i \<in> set (reg_ids regs) then reg_ids regs else reg_ids regs @ [i])"
  by (simp add: reg_ids_def image_image)

lemma reg_ids_set [simp]: "set (reg_ids regs) = fst ` set regs" "distinct (reg_ids regs)"
  by (simp_all add: reg_ids_def)

definition reg_workers :: "registrations \<Rightarrow> (int \<times> place_obj) list" where
  "reg_workers regs = map (\<lambda>i. (i, \<lparr>rank = i, is_local = False\<rparr>)) (reg_ids regs)"

definition reg_infos :: "platform \<Rightarrow> registrations \<Rightarrow> (int \<times> worker_info) list" where
  "reg_infos p regs = map (\<lambda>i. (i, default_worker_info (fresh_port p))) (reg_ids regs)"

lemma update_graph:
  "distinct is \<Longrightarrow> AList.update i (g i) (map (\<lambda>j. (j, g j)) is) =
    map (\<lambda>j. (j, g j)) (if i \<in> set is then is else is @ [i])"
  by (induction "is") auto

lemma reg_update:
  "AList.update i \<lparr>rank = i, is_local = False\<rparr> (reg_workers regs) = reg_workers (regs @ [(i, k)])"
  "AList.update i (default_worker_info (fresh_port p)) (reg_infos p regs) = reg_infos p (regs @ [(i, k)])"
  using update_graph [of "reg_ids regs" i "\<lambda>i. \<lparr>rank = i, is_local = False\<rparr>"]
    update_graph [of "reg_ids regs" i "\<lambda>i. default_worker_info (fresh_port p)"]
  by (simp_all add: reg_workers_def reg_infos_def reg_ids_snoc del: reg_ids_set(1))

definition co_inv :: "platform \<Rightarrow> nat \<Rightarrow> first_con_cookie list \<Rightarrow> registrations \<Rightarrow> coordinator \<Rightarrow> bool" where
  "co_inv p n cs regs co \<longleftrightarrow> distinct (map snd regs) \<and> snd ` set regs \<subseteq> set cs \<and>
     cookies co = filter (\<lambda>c. c \<notin> snd ` set regs) cs \<and>
     workers co = reg_workers regs \<and> worker_infos co = reg_infos p regs \<and> worker_num co = n \<and>
     length (reg_ids regs) \<le> n \<and>
     current_state co = (if length (reg_ids regs) = n then Peersinfo_state else Firstconnection_state)"

text \<open>The coordinator on any message, while the ids of the connections are integers of the code.\<close>

lemma message_ignored:
  assumes "co_inv p n cs regs co" "length (reg_ids regs) = n"
  shows "model_receive (coordinator_handlers p) i m co = (Inr (), co)"
  using assms by (simp add: co_inv_def machine_defs peersinfo_def)

lemma message_unintroduced:
  assumes "co_inv p n cs regs co" "length (reg_ids regs) < n" "introduction m = None"
  shows "\<exists>e co'. model_receive (coordinator_handlers p) i m co = (Inl e, co') \<and> calls co' = calls co"
  using assms(1,2) firstconnection_unintroduced [OF assms(3)]
  by (simp add: co_inv_def machine_defs)

lemma message_refused:
  assumes "co_inv p n cs regs co" "length (reg_ids regs) < n" "introduction m = Some k" "k \<notin> set (cookies co)"
    "platform_ok p" "list_all cookie_ok cs"
  shows "\<exists>co'. model_receive (coordinator_handlers p) i m co = (Inr (), co') \<and> co_inv p n cs regs co' \<and>
    new_calls co co' = [Call_disconnect i]"
proof -
  have "list_all cookie_ok (cookies co)" using assms(1,6) by (auto simp: co_inv_def list_all_iff)
  then have "cookie_count k (cookies co) = 0"
    using cookie_count_iff [OF introduction_ok [OF assms(3)]] assms(4) by blast
  then have "firstconnection p i m co = complete_registration p (refused i co)"
    using firstconnection_introduced [OF assms(5,3)] by simp
  moreover have "length (workers (refused i co)) \<noteq> worker_num (refused i co)"
    using assms(1,2) by (simp add: co_inv_def refused_def reg_workers_def)
  ultimately have "model_receive (coordinator_handlers p) i m co = (Inr (), refused i co)"
    using assms(1,2) by (simp add: co_inv_def machine_defs complete_registration_def)
  moreover have "co_inv p n cs regs (refused i co)" using assms(1) by (simp add: co_inv_def refused_def)
  ultimately show ?thesis by (simp add: refused_def new_calls_def)
qed

lemma message_registers:
  assumes "co_inv p n cs regs co" "length (reg_ids regs) < n" "introduction m = Some k" "k \<in> set (cookies co)"
    "platform_ok p" "list_all cookie_ok cs" "list_all id_ok (i # reg_ids regs)"
  shows "\<exists>co'. model_receive (coordinator_handlers p) i m co = (Inr (), co') \<and>
    co_inv p n cs (regs @ [(i, k)]) co' \<and>
    new_calls co co' = registration_calls p n (reg_ids (regs @ [(i, k)])) i"
proof -
  let ?regs = "regs @ [(i, k)]" and ?co = "registered p i k co"
  let ?is = "reg_ids ?regs"
  have cs: "list_all cookie_ok (cookies co)" "k \<in> set cs" "k \<notin> snd ` set regs"
    using assms(1,4,6) by (auto simp: co_inv_def list_all_iff)
  note k = introduction_ok [OF assms(3)]
  have "cookie_count k (cookies co) \<noteq> 0" using cookie_count_iff [OF k cs(1)] assms(4) by blast
  then have step: "model_receive (coordinator_handlers p) i m co = complete_registration p ?co"
    using firstconnection_introduced [OF assms(5,3)] assms(1,2) by (simp add: co_inv_def machine_defs)
  have "cookies ?co = filter (\<lambda>c. c \<notin> snd ` set ?regs) cs"
    using assms(1) cookie_erase_eq [OF k cs(1)]
    by (auto simp: registered_def co_inv_def removeAll_filter_not_eq intro!: filter_cong)
  then have co: "cookies ?co = filter (\<lambda>c. c \<notin> snd ` set ?regs) cs" "workers ?co = reg_workers ?regs"
      "worker_infos ?co = reg_infos p ?regs" "worker_num ?co = n" "current_state ?co = Firstconnection_state"
      "calls ?co = calls co @ [Call_send i [1]]" "distinct (map snd ?regs)" "snd ` set ?regs \<subseteq> set cs"
    using assms(1,2) cs(2,3)
    by (simp_all add: registered_def co_inv_def reg_update [where k = k and regs = regs and i = i])
  have len: "length ?is \<le> n" "length ?is = length (workers ?co)"
    using assms(2) co(2) by (simp_all add: reg_ids_snoc reg_workers_def)
  have ids: "distinct ?is" "list_all id_ok ?is" using assms(7) by (auto simp: reg_ids_snoc)
  show ?thesis
  proof (cases "length ?is = n")
    case False
    then have "complete_registration p ?co = (Inr (), ?co)" using len(2) co(4) by (simp add: complete_registration_def)
    then show ?thesis using False step co len(1)
      by (simp add: co_inv_def new_calls_def registration_calls_def)
  next
    case True
    note b = startup_buffer_facts [OF assms(5) ids co(3) [unfolded reg_infos_def]]
    have "length (workers ?co) = worker_num ?co" using True len(2) co(4) by simp
    from complete_registration_full [OF assms(5) this b(2,1)] obtain ls where
      "complete_registration p ?co = (Inr (), ?co\<lparr>current_state := Peersinfo_state, logged := ls,
        calls := calls ?co @ map (\<lambda>d. Call_send d (startup_buffer p ?is)) (order_of p (map fst (workers ?co))) @ [Call_stop]\<rparr>)"
      by blast
    moreover have "map fst (workers ?co) = ?is" by (simp add: co(2) reg_workers_def comp_def)
    ultimately show ?thesis using True step co by (simp add: co_inv_def new_calls_def registration_calls_def)
  qed
qed

end
