(* ===== verification/Open_Coordinator.thy ===== *)
theory Open_Coordinator
  imports Open_Registration
begin

text \<open>
  The invariant of the coordinator process in an open network, and what it gives.
\<close>

section \<open>The connections of the server\<close>

text \<open>What has been received on a connection, and connections that send nothing but what they may.\<close>

definition heard :: "async_server \<Rightarrow> int \<Rightarrow> byte list list" where
  "heard sv i = (case holdings (cmanager sv) i of Some (Some c) \<Rightarrow> received c | _ \<Rightarrow> [])"

definition holds_only :: "byte list \<Rightarrow> (int \<Rightarrow> byte list set) \<Rightarrow> async_server \<Rightarrow> bool" where
  "holds_only pad A sv \<longleftrightarrow> mclass (cmanager sv) = Server_connection \<and>
     0 \<le> next_id (cmanager sv) \<and> next_id (cmanager sv) \<le> int_max \<and>
     (\<forall>i x. holdings (cmanager sv) i = Some x \<longrightarrow> 0 \<le> i \<and> i < next_id (cmanager sv) \<and>
        (\<exists>c. x = Some c \<and> sends_only pad (A i) c))"

definition put_conn :: "int \<Rightarrow> connection \<Rightarrow> async_server \<Rightarrow> async_server" where
  "put_conn i c sv = sv\<lparr>cmanager := (cmanager sv)\<lparr>holdings := (holdings (cmanager sv))(i \<mapsto> Some c)\<rparr>\<rparr>"

lemma holds_only_mono: "holds_only pad A sv \<Longrightarrow> (\<And>i. A i \<subseteq> B i) \<Longrightarrow> holds_only pad B sv"
  unfolding holds_only_def using sends_only_mono by blast

lemma holds_onlyD:
  assumes "holds_only pad A sv" "holdings (cmanager sv) i = Some (Some c)"
  shows "sends_only pad (A i) c" "id_ok i"
  using assms unfolding holds_only_def id_ok_def int_max_def by fastforce+

lemma holds_only_put:
  assumes "holds_only pad A sv" "holdings (cmanager sv) i = Some (Some c)" "sends_only pad (A i) c'"
  shows "holds_only pad A (put_conn i c' sv)"
  using assms by (auto simp: holds_only_def put_conn_def)

lemma heard_put [simp]: "heard (put_conn i c sv) j = (if j = i then received c else heard sv j)"
  by (simp add: heard_def put_conn_def)

lemma heard_held: "heard sv i \<noteq> [] \<Longrightarrow> \<exists>c. holdings (cmanager sv) i = Some (Some c)"
  by (auto simp: heard_def split: option.splits)

text \<open>The calls on the connection whose handler runs, and the calls on the others.\<close>

lemma own_calls_only:
  assumes "length pad = 3" "\<forall>d m. Call_send d m \<in> set ks \<longrightarrow> m \<in> A" "sends_only pad A c"
  shows "\<exists>c'. conn_calls pad ks c = (Inr (), c') \<and> sends_only pad A c' \<and> received c' = received c"
  using assms(2,3)
proof (induction ks arbitrary: c)
  case Nil
  then show ?case by simp
next
  case (Cons k ks)
  have "\<exists>c1. conn_call pad k c = (Inr (), c1) \<and> sends_only pad A c1 \<and> received c1 = received c"
  proof (cases k)
    case (Call_send d m)
    with Cons.prems have "m \<in> A" by auto
    from push_only [OF Cons.prems(2) this assms(1)] show ?thesis by (simp add: Call_send)
  next
    case (Call_disconnect d)
    with Cons.prems(2) show ?thesis
      by (auto simp: sends_only_def received_def close_effects_def)
  qed (use Cons.prems(2) in simp)
  then obtain c1 where "conn_call pad k c = (Inr (), c1)" "sends_only pad A c1" "received c1 = received c" by blast
  with Cons.IH [of c1] Cons.prems(1) show ?case by auto
qed

lemma read_more_only:
  assumes "sends_only pad A c"
  shows "\<exists>c'. do_receive_message c = (Inr (), c') \<and> sends_only pad A c' \<and> received c' = received c"
  using assms by (cases "is_open c") (simp_all add: do_receive_message_def sends_only_def received_def)

lemma other_calls_only:
  assumes "length pad = 3" "\<forall>k\<in>set ks. k = Call_stop \<or> (\<exists>d m. k = Call_send d m \<and> m \<in> A d \<and> heard sv d \<noteq> [])"
    and "holds_only pad A sv"
  shows "\<exists>sv'. server_calls pad ks sv = (Inr (), sv') \<and> holds_only pad A sv' \<and> heard sv' = heard sv"
  using assms(2,3)
proof (induction ks arbitrary: sv)
  case Nil
  then show ?case by simp
next
  case (Cons k ks)
  have "\<exists>sv1. server_call pad k sv = (Inr (), sv1) \<and> holds_only pad A sv1 \<and> heard sv1 = heard sv"
  proof (cases "k = Call_stop")
    case True
    with Cons.prems(2) show ?thesis by (simp add: server_stop_def holds_only_def heard_def fun_eq_iff)
  next
    case False
    with Cons.prems(1) obtain d m where k: "k = Call_send d m" "m \<in> A d" "heard sv d \<noteq> []" by auto
    from heard_held [OF this(3)] obtain c where c: "holdings (cmanager sv) d = Some (Some c)" by blast
    from push_only [OF holds_onlyD(1) [OF Cons.prems(2) c] k(2) assms(1)] obtain c' where
      c': "do_send_message pad m c = (Inr (), c')" "sends_only pad (A d) c'" "received c' = received c" by blast
    from manager_send_held [OF c c'(1)] have "server_call pad k sv = (Inr (), put_conn d c' sv)"
      by (simp add: k(1) on_cmanager_def put_conn_def)
    moreover have "heard (put_conn d c' sv) = heard sv" using c c'(3) by (auto simp: fun_eq_iff heard_def [of sv])
    ultimately show ?thesis using holds_only_put [OF Cons.prems(2) c c'(2)] by blast
  qed
  then obtain sv1 where sv1: "server_call pad k sv = (Inr (), sv1)" "holds_only pad A sv1" "heard sv1 = heard sv"
    by blast
  then show ?case using Cons.IH [of sv1] Cons.prems(1) by (auto simp: sbind_def)
qed

section \<open>The invariant\<close>

text \<open>What may be sent to a connection: nothing before it is registered, the map only to all.\<close>

definition allowed :: "platform \<Rightarrow> nat \<Rightarrow> registrations \<Rightarrow> int \<Rightarrow> byte list set" where
  "allowed p n regs i =
     (if i \<notin> fst ` set regs then {}
      else if length (reg_ids regs) < n then {[1]} else {[1], startup_buffer p (reg_ids regs)})"

definition proc_inv ::
  "platform \<Rightarrow> byte list \<Rightarrow> nat \<Rightarrow> first_con_cookie list \<Rightarrow> registrations \<Rightarrow> process \<Rightarrow> bool" where
  "proc_inv p pad n cs regs s \<longleftrightarrow> co_inv p n cs regs (fst s) \<and>
     holds_only pad (allowed p n regs) (snd s) \<and>
     (\<forall>(i, k)\<in>set regs. \<exists>m\<in>set (heard (snd s) i). introduction m = Some k)"

definition setting :: "platform \<Rightarrow> byte list \<Rightarrow> first_con_cookie list \<Rightarrow> bool" where
  "setting p pad cs \<longleftrightarrow> platform_ok p \<and> length pad = 3 \<and> list_all cookie_ok cs"

lemma registered_heard: "proc_inv p pad n cs regs s \<Longrightarrow> i \<in> fst ` set regs \<Longrightarrow> heard (snd s) i \<noteq> []"
  unfolding proc_inv_def by fastforce

lemma registered_id_ok:
  assumes "proc_inv p pad n cs regs s"
  shows "list_all id_ok (reg_ids regs)"
  using holds_onlyD(2) heard_held registered_heard [OF assms] assms
  by (fastforce simp: list_all_iff proc_inv_def)

text \<open>The inputs that end the process.\<close>

definition on_held :: "(connection \<Rightarrow> bool) \<Rightarrow> int \<Rightarrow> process \<Rightarrow> bool" where
  "on_held P i s = (case holdings (cmanager (snd s)) i of Some (Some c) \<Rightarrow> P c | _ \<Rightarrow> False)"

fun provokes :: "net_input \<Rightarrow> process \<Rightarrow> bool" where
  "provokes (Peer_connects peer) s \<longleftrightarrow> next_id (cmanager (snd s)) = int_max"
| "provokes (Accept_fails e) s \<longleftrightarrow> False"
| "provokes (Bytes_arrive i w) s \<longleftrightarrow> on_held (\<lambda>c. bad_header w c \<or>
     (current_state (fst s) = Firstconnection_state \<and>
      (case delivers w c of Some m \<Rightarrow> introduction m = None | None \<Rightarrow> False))) i s"
| "provokes (Read_fails i e k) s \<longleftrightarrow> False"
| "provokes (Write_done i) s \<longleftrightarrow> False"
| "provokes (Write_fails i e k) s \<longleftrightarrow> e = Operation_aborted \<and> k = 0"

lemma after_message_put:
  "after_message p pad i c (r, c') (co, sv) =
    (let co' = snd (receive_all (coordinator_handlers p) (map (Pair i) (delivered c c')) co);
         (r', sv') = server_calls pad (filter (Not \<circ> own_call i) (new_calls co co')) (put_conn i c' sv)
     in (rbind r (\<lambda>_. r'), (co', sv')))"
  by (simp add: after_message_def put_conn_def)

lemma quiet_step:
  assumes "proc_inv p pad n cs regs (co, sv)" "holdings (cmanager sv) i = Some (Some c)"
    "sends_only pad (allowed p n regs i) c'" "received c' = received c"
  shows "after_message p pad i c (Inr (), c') (co, sv) = (Inr (), (co, put_conn i c' sv)) \<and>
    proc_inv p pad n cs regs (co, put_conn i c' sv)"
proof -
  have "delivered c c' = []" by (simp add: delivered_def assms(4))
  moreover have "heard (put_conn i c' sv) = heard sv" using assms(2,4) by (auto simp: fun_eq_iff heard_def [of sv])
  ultimately show ?thesis using assms holds_only_put [of pad "allowed p n regs" sv i c c']
    by (auto simp: after_message_put proc_inv_def new_calls_def)
qed

lemma handled_step:
  assumes "length pad = 3" "proc_inv p pad n cs regs (co, sv)" "holdings (cmanager sv) i = Some (Some c)"
    and "same_sending c c1" "cclass c1 = cclass c" "received c1 = received c @ [m]"
    and "model_receive (coordinator_handlers p) i m co = (Inr (), co')" "co_inv p n cs regs' co'"
    and "\<forall>(j, k)\<in>set regs'. (j, k) \<in> set regs \<or> j = i \<and> introduction m = Some k"
    and "\<And>j. allowed p n regs j \<subseteq> allowed p n regs' j"
    and "\<forall>d x. Call_send d x \<in> set (filter (own_call i) (new_calls co co')) \<longrightarrow> x \<in> allowed p n regs' i"
    and "\<forall>k\<in>set (filter (Not \<circ> own_call i) (new_calls co co')).
      k = Call_stop \<or> (\<exists>d x. k = Call_send d x \<and> x \<in> allowed p n regs' d \<and> d \<in> fst ` set regs)"
  shows "\<exists>s'. after_message p pad i c (andthen (on_receive (coordinator_layer p pad i co) m) do_receive_message c1)
      (co, sv) = (Inr (), s') \<and> proc_inv p pad n cs regs' s'"
proof -
  have inv: "holds_only pad (allowed p n regs) sv" using assms(2) by (simp add: proc_inv_def)
  have only: "holds_only pad (allowed p n regs') sv" by (rule holds_only_mono [OF inv assms(10)])
  have "sends_only pad (allowed p n regs' i) c1"
    using holds_onlyD(1) [OF only assms(3)] assms(4,5) by (simp add: sends_only_def same_sending_def)
  from own_calls_only [OF assms(1,11) this] obtain c2 where c2:
    "conn_calls pad (filter (own_call i) (new_calls co co')) c1 = (Inr (), c2)"
    "sends_only pad (allowed p n regs' i) c2" "received c2 = received c @ [m]"
    using assms(6) by auto
  obtain c3 where c3: "do_receive_message c2 = (Inr (), c3)" "sends_only pad (allowed p n regs' i) c3"
      "received c3 = received c @ [m]"
    using read_more_only [OF c2(2)] c2(3) by auto
  have res: "andthen (on_receive (coordinator_layer p pad i co) m) do_receive_message c1 = (Inr (), c3)"
    using c2(1) c3(1) assms(7) by (simp add: coordinator_layer_def model_layer_receive andthen_def sbind_def)
  have "delivered c c3 = [m]" by (simp add: delivered_def c3(3))
  then have co': "snd (receive_all (coordinator_handlers p) (map (Pair i) (delivered c c3)) co) = co'"
    using assms(7) by (simp add: sbind_def)
  let ?sv = "put_conn i c3 sv"
  have "holds_only pad (allowed p n regs') ?sv" by (rule holds_only_put [where c = c, OF only assms(3) c3(2)])
  moreover have "\<forall>k\<in>set (filter (Not \<circ> own_call i) (new_calls co co')).
      k = Call_stop \<or> (\<exists>d x. k = Call_send d x \<and> x \<in> allowed p n regs' d \<and> heard ?sv d \<noteq> [])"
    using assms(12) registered_heard [OF assms(2)] by (fastforce simp: c3(3))
  ultimately obtain sv' where sv': "server_calls pad (filter (Not \<circ> own_call i) (new_calls co co')) ?sv = (Inr (), sv')"
      "holds_only pad (allowed p n regs') sv'" "heard sv' = heard ?sv"
    using other_calls_only [OF assms(1)] by blast
  have "\<forall>(j, k)\<in>set regs'. \<exists>m\<in>set (heard sv' j). introduction m = Some k"
  proof (clarify)
    fix j k
    assume "(j, k) \<in> set regs'"
    moreover have "heard sv i = received c" using assms(3) by (simp add: heard_def)
    moreover have "\<forall>(j, k)\<in>set regs. \<exists>m\<in>set (heard sv j). introduction m = Some k"
      using assms(2) by (simp add: proc_inv_def)
    ultimately show "\<exists>m\<in>set (heard sv' j). introduction m = Some k"
      using assms(9) by (fastforce simp: sv'(3) c3(3))
  qed
  then have "proc_inv p pad n cs regs' (co', sv')" using sv'(2) assms(8) by (simp add: proc_inv_def)
  then show ?thesis using sv'(1) by (simp add: res after_message_put co')
qed

lemma deliver_step:
  assumes "setting p pad cs" "proc_inv p pad n cs regs (co, sv)" "holdings (cmanager sv) i = Some (Some c)"
    and "same_sending c c1" "cclass c1 = cclass c" "received c1 = received c @ [m]"
    and "res = andthen (on_receive (coordinator_layer p pad i co) m) do_receive_message c1"
  shows "if current_state co = Firstconnection_state \<and> introduction m = None
    then \<exists>e s'. after_message p pad i c res (co, sv) = (Inl e, s')
    else \<exists>regs' s'. after_message p pad i c res (co, sv) = (Inr (), s') \<and> proc_inv p pad n cs regs' s'"
proof -
  have env: "platform_ok p" "length pad = 3" "list_all cookie_ok cs" using assms(1) by (simp_all add: setting_def)
  have co: "co_inv p n cs regs co" using assms(2) by (simp add: proc_inv_def)
  have le: "length (reg_ids regs) \<le> n" using co by (simp add: co_inv_def)
  have state: "current_state co = Firstconnection_state \<longleftrightarrow> length (reg_ids regs) < n"
    using co le by (auto simp: co_inv_def)
  note handled = handled_step [OF env(2) assms(2-6)]
  show ?thesis
  proof (cases "length (reg_ids regs) < n")
    case False
    with le have "length (reg_ids regs) = n" by simp
    from handled [OF message_ignored [OF co this] co] show ?thesis
      using state False by (force simp: new_calls_def assms(7))
  next
    case True
    show ?thesis
    proof (cases "introduction m")
      case None
      obtain e co' where e: "model_receive (coordinator_handlers p) i m co = (Inl e, co')" "calls co' = calls co"
        using message_unintroduced [OF co True None] by blast
      then have "\<exists>c'. res = (Inl e, c')"
        by (simp add: assms(7) coordinator_layer_def model_layer_receive andthen_def sbind_def new_calls_def)
      then show ?thesis using state True None by (auto simp: after_message_put Let_def split: prod.split)
    next
      case (Some k)
      show ?thesis
      proof (cases "k \<in> set (cookies co)")
        case False
        obtain co' where co': "model_receive (coordinator_handlers p) i m co = (Inr (), co')" "co_inv p n cs regs co'"
            "new_calls co co' = [Call_disconnect i]"
          using message_refused [OF co True Some False env(1,3)] by blast
        from handled [OF co'(1,2)] show ?thesis
          using Some by (force simp: co'(3) own_call_def assms(7))
      next
        case reg: True
        let ?regs = "regs @ [(i, k)]"
        have ids: "list_all id_ok (i # reg_ids regs)"
          using registered_id_ok [OF assms(2)] holds_onlyD(2) [OF _ assms(3)] assms(2) by (auto simp: proc_inv_def)
        obtain co' where co': "model_receive (coordinator_handlers p) i m co = (Inr (), co')" "co_inv p n cs ?regs co'"
            "new_calls co co' = registration_calls p n (reg_ids ?regs) i"
          using message_registers [OF co True Some reg env(1,3) ids] by blast
        have i: "i \<in> set (reg_ids ?regs)" by simp
        note own = own_registration_calls [OF env(1) reg_ids_set(2) i, of n]
        have order: "set (order_of p (reg_ids ?regs)) = insert i (fst ` set regs)"
          using env(1) reg_ids_set [of ?regs] by (simp add: platform_ok_def)
        have mono: "allowed p n regs j \<subseteq> allowed p n ?regs j" for j
          using True by (auto simp: allowed_def)
        have "\<exists>s'. after_message p pad i c (andthen (on_receive (coordinator_layer p pad i co) m) do_receive_message c1)
            (co, sv) = (Inr (), s') \<and> proc_inv p pad n cs ?regs s'"
        proof (rule handled [OF co'(1,2) _ mono])
          show "\<forall>(j, k)\<in>set ?regs. (j, k) \<in> set regs \<or> j = i \<and> introduction m = Some k" using Some by auto
          show "\<forall>d x. Call_send d x \<in> set (filter (own_call i) (new_calls co co')) \<longrightarrow> x \<in> allowed p n ?regs i"
            unfolding co'(3) own(1) by (auto simp: allowed_def)
          show "\<forall>k\<in>set (filter (Not \<circ> own_call i) (new_calls co co')).
              k = Call_stop \<or> (\<exists>d x. k = Call_send d x \<and> x \<in> allowed p n ?regs d \<and> d \<in> fst ` set regs)"
            unfolding co'(3) own(2) using order by (auto simp: allowed_def)
        qed
        then show ?thesis using Some by (auto simp: assms(7))
      qed
    qed
  qed
qed


text \<open>A step throws exactly if its input is one of those, and else keeps the invariant.\<close>

lemma conn_stepE:
  assumes "conn_step p pad i f (co, sv) = Some (r, s')"
  obtains c res where "holdings (cmanager sv) i = Some (Some c)" "f (coordinator_layer p pad i co) c = Some res"
    "after_message p pad i c res (co, sv) = (r, s')"
  using assms by (auto simp: conn_step_def split: option.splits)

lemma layer_events [simp]: "on_event (coordinator_layer p pad i co) e = skip"
  by (simp add: coordinator_layer_def model_layer_def)

lemma thrown_step: "\<exists>s'. after_message p pad i c (Inl e, c') s = (Inl e, s')"
  by (cases s) (simp add: after_message_put Let_def split: prod.split)

lemma accept_inv:
  assumes "proc_inv p pad n cs regs (co, sv)" "when_accept ec peer sv = (r, sv')"
  shows "if ec = None \<and> next_id (cmanager sv) = int_max then \<exists>e. r = Inl e
    else r = Inr () \<and> proc_inv p pad n cs regs (co, sv')"
proof (cases ec)
  case None
  let ?i = "next_id (cmanager sv)"
  have h: "holds_only pad (allowed p n regs) sv" using assms(1) by (simp add: proc_inv_def)
  show ?thesis
  proof (cases "?i = int_max")
    case True
    have "new_connection (peer_text peer) (- 1) (cmanager sv) = (Inl (Undefined ''signed overflow''), cmanager sv)"
      by (simp add: new_connection_def True)
    then show ?thesis using None True assms(2)
      by (auto simp: when_accept_def server_log_line_def log_line_def on_cmanager_def format_accepting sbind_def Let_def)
  next
    case False
    from h have "conn_room (cmanager sv) (Suc 0)"
      using False unfolding conn_room_def holds_only_def by fastforce
    from when_accept_fresh [OF this, of peer] None assms(2) have
      s': "r = Inr ()" "next_id (cmanager sv') = ?i + 1" "mclass (cmanager sv') = mclass (cmanager sv)"
        "holdings (cmanager sv') = (holdings (cmanager sv))(?i \<mapsto> Some (started (mclass (cmanager sv)) (peer_text peer)))"
      by auto
    have new: "sends_only pad A (started Server_connection (peer_text peer)) \<and>
        received (started Server_connection (peer_text peer)) = []" for A
      by (simp add: sends_only_def started_def constructs new_connection_state_def do_receive_message_def received_def)
    have fresh: "holdings (cmanager sv) ?i = None" using h unfolding holds_only_def by (meson not_None_eq order_less_irrefl)
    have h': "mclass (cmanager sv) = Server_connection" "0 \<le> ?i" "?i < int_max"
      and old: "\<And>j x. holdings (cmanager sv) j = Some x \<Longrightarrow> 0 \<le> j \<and> j < ?i \<and>
        (\<exists>c. x = Some c \<and> sends_only pad (allowed p n regs j) c)"
      using h False unfolding holds_only_def by auto
    have "holds_only pad (allowed p n regs) sv'"
      unfolding holds_only_def
    proof (intro conjI allI impI, goal_cases)
      case (4 j x)
      then show ?case using old [of j x] h'(2) s'(4) by (cases "j = ?i") simp_all
    next
      case (5 j x)
      then show ?case using old [of j x] s'(2,4) by (cases "j = ?i") simp_all
    next
      case (6 j x)
      then show ?case using old [of j x] new h'(1) s'(4) by (cases "j = ?i") auto
    qed (use h' s'(2,3) in simp_all)
    moreover have "heard sv' = heard sv"
      using new fresh s'(4) h by (auto simp: heard_def fun_eq_iff holds_only_def)
    ultimately show ?thesis using assms(1) s'(1) False by (simp add: proc_inv_def)
  qed
next
  case (Some e)
  have "r = Inr () \<and> cmanager sv' = cmanager sv"
    using assms(2) by (cases e) (auto simp: Some when_accept_def server_log_line_def log_line_def format_def sbind_def)
  then show ?thesis using assms(1) by (simp add: Some proc_inv_def holds_only_def heard_def fun_eq_iff)
qed

lemma open_step_inv:
  assumes "setting p pad cs" "proc_inv p pad n cs regs s" "open_step p pad x s = Some (r, s')"
  shows "if provokes x s then \<exists>e. r = Inl e else r = Inr () \<and> (\<exists>regs'. proc_inv p pad n cs regs' s')"
proof -
  obtain co sv where s: "s = (co, sv)" by (rule prod.exhaust)
  note inv = assms(2) [unfolded s] and step = assms(3) [unfolded s]
  have h: "holds_only pad (allowed p n regs) sv" using inv by (simp add: proc_inv_def)
  note only = holds_onlyD(1) [OF h]
  have quiet: "r = Inr () \<and> (\<exists>regs'. proc_inv p pad n cs regs' s')"
    if "holdings (cmanager sv) i = Some (Some c)" "after_message p pad i c (Inr (), c') (co, sv) = (r, s')"
      "sends_only pad (allowed p n regs i) c'" "received c' = received c" for i c c'
    using quiet_step [OF inv that(1,3,4)] that(2) by auto
  show ?thesis
  proof (cases x)
    case (Peer_connects peer)
    then show ?thesis using step accept_inv [OF inv, of None peer]
      by (fastforce simp: s accept_step_def split: if_splits prod.splits)
  next
    case (Accept_fails e)
    then show ?thesis using step accept_inv [OF inv, of "Some e" "([], 0)"]
      by (fastforce simp: s accept_step_def split: if_splits prod.splits)
  next
    case (Bytes_arrive i w)
    from step [unfolded Bytes_arrive open_step.simps] obtain c res rest where
      c: "holdings (cmanager sv) i = Some (Some c)" "complete_read (coordinator_layer p pad i co) w c = Some (res, rest)"
        "after_message p pad i c res (co, sv) = (r, s')"
      by (rule conn_stepE) auto
    have "cclass c = Server_connection" using only [OF c(1)] by (simp add: sends_only_def)
    then show ?thesis
    proof (cases rule: read_cases [OF _ c(2)])
      case (2 e c')
      then show ?thesis using c(1,3) thrown_step [of p pad i c e c' "(co, sv)"]
        by (auto simp: Bytes_arrive s on_held_def)
    next
      case (3 c')
      have "sends_only pad (allowed p n regs i) c'" by (rule sends_only_unnoticed [OF only [OF c(1)] 3(4)])
      with quiet [OF c(1), of c'] c(3) 3 show ?thesis
        by (simp add: Bytes_arrive s on_held_def c(1) unnoticed_def)
    next
      case (4 m c1)
      from deliver_step [OF assms(1) inv c(1) 4(3-6)] 4(1,2) c(3) show ?thesis
        by (auto simp: Bytes_arrive s on_held_def c(1) split: if_splits)
    qed
  next
    case (Read_fails i e k)
    from step [unfolded Read_fails open_step.simps] obtain c res where
      c: "holdings (cmanager sv) i = Some (Some c)" "read_failed (coordinator_layer p pad i co) e k c = Some res"
        "after_message p pad i c res (co, sv) = (r, s')"
      by (rule conn_stepE)
    from read_failed_quiet [OF c(2) layer_events] obtain c' where c': "res = (Inr (), c')" "unnoticed c c'" by blast
    with quiet [OF c(1), of c'] c(3) sends_only_unnoticed [OF only [OF c(1)] c'(2)] show ?thesis
      by (simp add: Read_fails unnoticed_def)
  next
    case (Write_done i)
    from step [unfolded Write_done open_step.simps] obtain c res bytes where
      c: "holdings (cmanager sv) i = Some (Some c)" "complete_write (coordinator_layer p pad i co) c = Some (res, bytes)"
        "after_message p pad i c res (co, sv) = (r, s')"
      by (rule conn_stepE) auto
    from write_done_only [OF only [OF c(1)] c(2)] quiet [OF c(1)] c(3) show ?thesis
      by (auto simp: Write_done)
  next
    case (Write_fails i e k)
    from step [unfolded Write_fails open_step.simps] obtain c res where
      c: "holdings (cmanager sv) i = Some (Some c)" "write_failed (coordinator_layer p pad i co) e k c = Some res"
        "after_message p pad i c res (co, sv) = (r, s')"
      by (rule conn_stepE)
    note failed = write_failed_only [OF only [OF c(1)] c(2) layer_events]
    show ?thesis
    proof (cases "e = Operation_aborted \<and> k = 0")
      case True
      with failed obtain e' c' where "res = (Inl e', c')" by auto
      with thrown_step [of p pad i c e' c' "(co, sv)"] c(3) show ?thesis by (auto simp: Write_fails True)
    next
      case False
      with failed obtain c' where c': "res = (Inr (), c')" "sends_only pad (allowed p n regs i) c'"
          "received c' = received c" by (auto split: if_splits)
      with quiet [OF c(1), of c'] c(3) False show ?thesis by (simp add: Write_fails)
    qed
  qed
qed

end
