(* ===== verification/Open_Safety.thy ===== *)
theory Open_Safety
  imports Open_Coordinator Startup_Runs
begin

text \<open>
  The properties of the coordinator process in an open network.
\<close>

text \<open>The process when it has entered its event loop.\<close>

definition process_started :: "platform \<Rightarrow> byte list \<Rightarrow> nat \<Rightarrow> process \<Rightarrow> bool" where
  "process_started p pad n s \<longleftrightarrow> platform_ok p \<and> length pad = 3 \<and> 0 < n \<and>
     (\<exists>dis send_cookie co lport skt. coordinator_new dis n send_cookie = Inr co \<and>
        run_server pad (server_start None None None lport) (co, new_server skt False) = (Inr (), s))"

lemma started_inv:
  assumes "process_started p pad n s"
  shows "setting p pad (cookies (fst s))" "proc_inv p pad n (cookies (fst s)) [] s"
proof -
  from assms obtain dis send_cookie co lport skt where
    s: "coordinator_new dis n send_cookie = Inr co"
      "run_server pad (server_start None None None lport) (co, new_server skt False) = (Inr (), s)"
    and env: "platform_ok p" "length pad = 3" "0 < n"
    by (auto simp: process_started_def)
  obtain sv where st: "server_start None None None lport (new_server skt False) = (Inr (), sv)"
      and m: "cmanager sv = new_manager_of Server_connection"
    by (simp add: server_start_def do_accept_def new_server_def Let_def)
  from s(2) have "s = (co, sv)"
    by (simp add: run_server_def with_lower_def model_start_def new_calls_def sbind_def st)
  note sv = this m
  have co: "workers co = []" "worker_infos co = []" "worker_num co = n" "current_state co = Firstconnection_state"
    using s(1) by (auto simp: coordinator_new_def res_iff Let_def)
  show "setting p pad (cookies (fst s))"
    using env coordinator_new_cookies [OF s(1)] by (simp add: setting_def sv(1))
  show "proc_inv p pad n (cookies (fst s)) [] s"
    using co env(3) by (simp add: proc_inv_def co_inv_def reg_workers_def reg_infos_def sv holds_only_def
        new_manager_of_def int_max_def)
qed

lemma open_run_inv:
  assumes "setting p pad cs" "proc_inv p pad n cs regs s" "run_events (live_step p pad) xs s = Some s'"
  shows "\<exists>regs'. proc_inv p pad n cs regs' s'"
  using assms(2,3)
proof (induction xs arbitrary: regs s)
  case Nil
  then show ?case by auto
next
  case (Cons x xs)
  from Cons.prems(2) obtain t where t: "live_step p pad x s = Some t" "run_events (live_step p pad) xs t = Some s'"
    by (cases "live_step p pad x s") auto
  then have "open_step p pad x s = Some (Inr (), t)"
    by (cases "open_step p pad x s" rule: survives.cases) (auto simp: live_step_def)
  from open_step_inv [OF assms(1) Cons.prems(1) this] obtain regs' where "proc_inv p pad n cs regs' t"
    by (auto split: if_splits)
  from Cons.IH [OF this t(2)] show ?case .
qed


text \<open>
  C5. The cookies protect the start-up: in every state that the process reaches, each registered
  connection has sent a message with a cookie that the coordinator drew and no other connection
  used, the cookies left are exactly those nobody presented, nothing was queued or is being written
  on a connection that is not registered, and nothing but the OK on any before as many connections are
  registered as there are workers.
\<close>

theorem cookies_protect:
  assumes "process_started p pad n s0" "run_events (live_step p pad) xs s0 = Some s"
    "firsconnection_ok_to_buffer = Inr ok"
  shows "\<exists>regs. distinct (map snd regs) \<and> snd ` set regs \<subseteq> set (cookies (fst s0)) \<and>
    set (cookies (fst s)) = set (cookies (fst s0)) - snd ` set regs \<and>
    distinct (map fst (workers (fst s))) \<and> fst ` set (workers (fst s)) = fst ` set regs \<and>
    (\<forall>(i, k)\<in>set regs. \<exists>m\<in>set (heard (snd s) i). introduction m = Some k) \<and>
    length (workers (fst s)) \<le> n \<and>
    (current_state (fst s) = Peersinfo_state \<longleftrightarrow> length (workers (fst s)) = n) \<and>
    (\<forall>i c. holdings (cmanager (snd s)) i = Some (Some c) \<longrightarrow>
       (i \<notin> fst ` set (workers (fst s)) \<longrightarrow> write_queue c = [] \<and> writing c = None) \<and>
       (current_state (fst s) = Firstconnection_state \<longrightarrow>
          set (write_queue c) \<subseteq> {message_buffers pad ok} \<and>
          (\<forall>b l. writing c = Some (b, l) \<longrightarrow> b = frame pad ok)))"
proof -
  note start = started_inv [OF assms(1)]
  obtain regs where inv: "proc_inv p pad n (cookies (fst s0)) regs s" using open_run_inv [OF start assms(2)] by blast
  then have co: "co_inv p n (cookies (fst s0)) regs (fst s)" and heard:
    "\<forall>(i, k)\<in>set regs. \<exists>m\<in>set (heard (snd s) i). introduction m = Some k" by (simp_all add: proc_inv_def)
  have only: "sends_only pad (allowed p n regs i) c" if "holdings (cmanager (snd s)) i = Some (Some c)" for i c
    using holds_onlyD(1) [OF _ that] inv by (simp add: proc_inv_def)
  have ok: "ok = [1]" using assms(3) unfolding ok_buffer by simp
  have w: "map fst (workers (fst s)) = reg_ids regs" "length (workers (fst s)) = length (reg_ids regs)"
    using co by (simp_all add: co_inv_def reg_workers_def comp_def)
  have ids: "fst ` set (workers (fst s)) = fst ` set regs" using w(1) by (metis list.set_map reg_ids_set(1))
  have one: "distinct (map fst (workers (fst s)))" by (simp add: w(1))
  have silent: "write_queue c = [] \<and> writing c = None"
    if "holdings (cmanager (snd s)) i = Some (Some c)" "i \<notin> fst ` set regs" for i c
    using only [OF that(1)] that(2) by (auto simp: sends_only_def allowed_def)
  have early: "set (write_queue c) \<subseteq> {message_buffers pad ok} \<and>
      (\<forall>b l. writing c = Some (b, l) \<longrightarrow> b = frame pad ok)"
    if "holdings (cmanager (snd s)) i = Some (Some c)" "current_state (fst s) = Firstconnection_state" for i c
  proof -
    have "length (reg_ids regs) \<noteq> n" "length (reg_ids regs) \<le> n" using co that(2) by (auto simp: co_inv_def)
    then have "allowed p n regs i \<subseteq> {ok}" by (auto simp: allowed_def ok)
    from sends_only_mono [OF only [OF that(1)] this] show ?thesis by (auto simp: sends_only_def)
  qed
  have reg: "distinct (map snd regs)" "snd ` set regs \<subseteq> set (cookies (fst s0))"
      "set (cookies (fst s)) = set (cookies (fst s0)) - snd ` set regs" "length (workers (fst s)) \<le> n"
      "current_state (fst s) = Peersinfo_state \<longleftrightarrow> length (workers (fst s)) = n"
    using co w(2) by (auto simp: co_inv_def)
  have conns: "\<forall>i c. holdings (cmanager (snd s)) i = Some (Some c) \<longrightarrow>
      (i \<notin> fst ` set (workers (fst s)) \<longrightarrow> write_queue c = [] \<and> writing c = None) \<and>
      (current_state (fst s) = Firstconnection_state \<longrightarrow> set (write_queue c) \<subseteq> {message_buffers pad ok} \<and>
        (\<forall>b l. writing c = Some (b, l) \<longrightarrow> b = frame pad ok))"
    unfolding ids using silent early by blast
  show ?thesis
    by (rule exI [of _ regs], intro conjI; fact)
qed


section \<open>The start-up in the open network\<close>

text \<open>A write that succeeds delivers nothing.\<close>

lemma write_hears_nothing:
  assumes "complete_write up c = Some ((r, c'), bytes)"
  shows "received c' = received c"
  using assms
  by (auto simp: complete_write_def when_message_sent_def do_write_def log_texts received_def close_effects_def
      Let_def split: option.splits if_splits)

lemma conn_step_silent:
  assumes "holdings (cmanager (serv d)) i = Some (Some c)" "f (coordinator_layer p pad i (coord d)) c = Some (r, c')"
    "received c' = received c"
  shows "conn_step p pad i f (coord d, serv d) = Some (r, (coord d, serv (set_held i c' d)))"
proof -
  have "delivered c c' = []" by (simp add: delivered_def assms(3))
  then show ?thesis using assms(1,2)
    by (cases r) (simp_all add: conn_step_def after_message_put new_calls_def put_conn_def set_held_def)
qed

lemma outcome_fields [simp]:
  "coord (outcome r d) = coord d" "serv (outcome r d) = serv d" "crashed (outcome r d) \<longleftrightarrow> crashed d \<or> (\<exists>e. r = Inl e)"
  by (auto simp: outcome_def split: sum.split)

lemma set_end_fields [simp]:
  "coord (set_end j e d) = coord d" "serv (set_end j e d) = serv d" "crashed (set_end j e d) = crashed d"
  by (simp_all add: set_end_def)

lemma set_held_fields [simp]:
  "coord (set_held i c d) = coord d" "crashed (set_held i c d) = crashed d"
  "serv (set_held i c (set_end j e d)) = serv (set_held i c d)"
  by (simp_all add: set_held_def set_end_def)

lemma heldD: "held d j = Some (i, c) \<Longrightarrow> holdings (cmanager (serv d)) i = Some (Some c)"
  by (auto simp: held_def split: option.splits)



section \<open>Examples\<close>

text \<open>A process, a peer that connects, and one that sends a header nobody knows.\<close>

lemma demo_process:
  "\<exists>s0 s. process_started demo_platform [0, 0, 0] 2 s0 \<and>
    run_events (live_step demo_platform [0, 0, 0]) [Peer_connects (''peer'', 1)] s0 = Some s \<and>
    holdings (cmanager (snd s)) 0 = Some (Some (started Server_connection (peer_text (''peer'', 1)))) \<and>
    cookies (fst s) = [demo_cookie 0, demo_cookie 1] \<and> current_state (fst s) = Firstconnection_state"
proof -
  obtain co where co: "coordinator_new demo_dis 2 (\<lambda>_. Inr ()) = Inr co" "cookies co = [demo_cookie 0, demo_cookie 1]"
    using demo_coordinator by blast
  obtain sv where sv: "server_start None None None 4000 (new_server (''0.0.0.0'', 0) False) = (Inr (), sv)"
      and m: "cmanager sv = new_manager_of Server_connection" "accepting sv"
    by (simp add: server_start_def do_accept_def new_server_def Let_def)
  have "run_server [0, 0, 0] (server_start None None None 4000) (co, new_server (''0.0.0.0'', 0) False) = (Inr (), (co, sv))"
    by (simp add: run_server_def with_lower_def model_start_def new_calls_def sbind_def sv)
  then have start: "process_started demo_platform [0, 0, 0] 2 (co, sv)"
    using co(1) demo_platform_ok unfolding process_started_def by (metis length_Cons list.size(3) numeral_3_eq_3 zero_less_numeral)
  have "conn_room (cmanager sv) (Suc 0)" by (simp add: m(1) conn_room_def new_manager_of_def int_max_def)
  from when_accept_fresh [OF this, of "(''peer'', 1)"] obtain sv' where sv': "when_accept None (''peer'', 1) sv = (Inr (), sv')"
      "holdings (cmanager sv') = [0 \<mapsto> Some (started Server_connection (peer_text (''peer'', 1)))]"
    by (auto simp: m(1) new_manager_of_def)
  have "run_events (live_step demo_platform [0, 0, 0]) [Peer_connects (''peer'', 1)] (co, sv) = Some (co, sv')"
    using sv'(1) by (simp add: live_step_def accept_step_def m(2))
  moreover have "holdings (cmanager sv') 0 = Some (Some (started Server_connection (peer_text (''peer'', 1))))"
    by (simp add: sv'(2))
  moreover have "current_state co = Firstconnection_state" using co(1) by (auto simp: coordinator_new_def Let_def)
  ultimately show ?thesis using start co(2) by (metis fst_conv snd_conv)
qed

lemma started_reads: "reading (started Server_connection a) = Header_read" "is_open (started Server_connection a)"
  by (simp_all add: started_def constructs new_connection_state_def do_receive_message_def)


theorem cookies_protect_witness:
  "\<exists>s0 s c. process_started demo_platform [0, 0, 0] 2 s0 \<and>
    run_events (live_step demo_platform [0, 0, 0]) [Peer_connects (''peer'', 1)] s0 = Some s \<and>
    holdings (cmanager (snd s)) 0 = Some (Some c) \<and> (current_state (fst s) = Firstconnection_state \<longrightarrow>
      set (write_queue c) \<subseteq> {message_buffers [0, 0, 0] [1]})"
proof -
  obtain s0 s c where s: "process_started demo_platform [0, 0, 0] 2 s0"
      "run_events (live_step demo_platform [0, 0, 0]) [Peer_connects (''peer'', 1)] s0 = Some s"
      "holdings (cmanager (snd s)) 0 = Some (Some c)"
    using demo_process by blast
  from cookies_protect [OF s(1,2) ok_buffer] s(3) have
    "current_state (fst s) = Firstconnection_state \<longrightarrow> set (write_queue c) \<subseteq> {message_buffers [0, 0, 0] [1]}" by blast
  with s show ?thesis by blast
qed


end
