(* ===== verification/Open_Cookies.thy ===== *)
theory Open_Cookies
  imports Open_Safety
begin

text \<open>
  In an open network a cookie works as long as nobody has presented it: the whole handler of the
  message that presents it, on every connection of the server.
\<close>

lemma push_queue:
  assumes "length pad = 3"
  shows "\<exists>c'. do_send_message pad m c = (Inr (), c') \<and> write_queue c' = write_queue c @ [message_buffers pad m] \<and>
    received c' = received c"
  using assms by (cases "write_queue c = []") (simp_all add: do_send_message_eq push_idle push_busy received_def)

lemma own_sends:
  assumes "length pad = 3"
  shows "\<exists>c'. conn_calls pad (map (Call_send i) ms) c = (Inr (), c') \<and>
    write_queue c' = write_queue c @ map (message_buffers pad) ms \<and> received c' = received c"
proof (induction ms arbitrary: c)
  case (Cons m ms)
  from push_queue [OF assms, of m c] obtain c1 where "do_send_message pad m c = (Inr (), c1)"
    "write_queue c1 = write_queue c @ [message_buffers pad m]" "received c1 = received c" by blast
  with Cons.IH [of c1] show ?case by auto
qed simp

text \<open>The map is queued on the other connections.\<close>

lemma queue_on_held:
  assumes "length pad = 3" "holdings (cmanager sv) j = Some (Some c)"
  shows "\<exists>c'. holdings (cmanager (queue_on pad D buf sv)) j = Some (Some c') \<and>
    write_queue c' = write_queue c @ (if j \<in> D then [message_buffers pad buf] else [])"
  using assms(2) push_queue [OF assms(1), of buf c] by (auto simp: queue_on_def)

lemma cookie_step:
  assumes "setting p pad cs" "proc_inv p pad n cs regs (co, sv)" "holdings (cmanager sv) i = Some (Some c)"
    "complete_read (coordinator_layer p pad i co) w c = Some (res, rest)" "delivers w c = Some m"
    "introduction m = Some k" "k \<in> set (cookies co)" "current_state co = Firstconnection_state"
    "is = reg_ids (regs @ [(i, k)])"
  shows "\<exists>co' c'. co_inv p n cs (regs @ [(i, k)]) co' \<and>
    write_queue c' = write_queue c @ map (message_buffers pad) ([1] # (if length is < n then [] else [startup_buffer p is])) \<and>
    after_message p pad i c res (co, sv) = (Inr (), (co', if length is < n then put_conn i c' sv
      else (queue_on pad (set is - {i}) (startup_buffer p is) (put_conn i c' sv))\<lparr>acceptor_open := False\<rparr>))"
proof -
  have env: "platform_ok p" "length pad = 3" "list_all cookie_ok cs" using assms(1) by (simp_all add: setting_def)
  have co: "co_inv p n cs regs co" and h: "holds_only pad (allowed p n regs) sv"
    using assms(2) by (simp_all add: proc_inv_def)
  have less: "length (reg_ids regs) < n" using co assms(8) by (auto simp: co_inv_def split: if_splits)
  have ids: "list_all id_ok (i # reg_ids regs)"
    using registered_id_ok [OF assms(2)] holds_onlyD(2) [OF h assms(3)] by simp
  obtain co' where co': "model_receive (coordinator_handlers p) i m co = (Inr (), co')"
      "co_inv p n cs (regs @ [(i, k)]) co'" "new_calls co co' = registration_calls p n is i"
    using message_registers [OF co less assms(6,7) env(1,3) ids] assms(9) by blast
  have is': "distinct is" "i \<in> set is" "set is = insert i (fst ` set regs)" by (simp_all add: assms(9))
  note own = own_registration_calls [OF env(1) is'(1,2), of n]
  have "cclass c = Server_connection" using holds_onlyD(1) [OF h assms(3)] by (simp add: sends_only_def)
  then obtain c1 where c1: "same_sending c c1" "received c1 = received c @ [m]"
      "res = andthen (on_receive (coordinator_layer p pad i co) m) do_receive_message c1"
    using assms(5) by (cases rule: read_cases [OF _ assms(4)]) auto
  let ?ms = "[1] # (if length is < n then [] else [startup_buffer p is])"
  have "filter (own_call i) (new_calls co co') = map (Call_send i) ?ms" by (simp add: co'(3) own(1))
  with own_sends [OF env(2), of i ?ms c1] obtain c2 where
    c2: "conn_calls pad (filter (own_call i) (new_calls co co')) c1 = (Inr (), c2)"
      "write_queue c2 = write_queue c1 @ map (message_buffers pad) ?ms" "received c2 = received c1"
    by metis
  obtain c3 where c3: "do_receive_message c2 = (Inr (), c3)" "write_queue c3 = write_queue c2" "received c3 = received c2"
    by (cases "is_open c2") (simp_all add: do_receive_message_def received_def)
  have res: "res = (Inr (), c3)"
    using c2(1) c3(1) co'(1) by (simp add: c1(3) coordinator_layer_def model_layer_receive andthen_def sbind_def)
  let ?sv = "put_conn i c3 sv"
  have "delivered c c3 = [m]" by (simp add: delivered_def c3(3) c2(3) c1(2))
  then have up: "snd (receive_all (coordinator_handlers p) (map (Pair i) (delivered c c3)) co) = co'"
    using co'(1) by (simp add: sbind_def)
  have "server_calls pad (filter (Not \<circ> own_call i) (new_calls co co')) ?sv =
      (Inr (), if length is < n then ?sv
         else (queue_on pad (set is - {i}) (startup_buffer p is) ?sv)\<lparr>acceptor_open := False\<rparr>)"
  proof (cases "length is < n")
    case False
    let ?ds = "filter (\<lambda>d. d \<noteq> i) (order_of p is)"
    have order: "distinct (order_of p is)" "set (order_of p is) = set is"
      using env(1) is'(1) by (simp_all add: platform_ok_def)
    have "set ?ds = set is - {i}" using order(2) by auto
    moreover have "\<forall>d\<in>set ?ds. \<exists>c. holdings (cmanager ?sv) d = Some (Some c)"
      using heard_held registered_heard [OF assms(2)] order(2) is'(3) by (fastforce simp: put_conn_def)
    moreover have "distinct ?ds" using order(1) by simp
    ultimately show ?thesis using False server_sends [OF env(2), of ?ds]
      by (simp add: co'(3) own(2) sbind_def server_stop_def)
  qed (simp add: co'(3) own(2))
  moreover have "write_queue c3 = write_queue c @ map (message_buffers pad) ?ms"
    using c1(1) by (simp only: c3(2) c2(2) same_sending_def)
  ultimately show ?thesis using co'(2)
    by - (rule exI [of _ co'], rule exI [of _ c3], simp only: res after_message_put up Let_def, simp)
qed

text \<open>
  C6. A cookie that nobody has presented works, whatever else has happened on the network: the
  connection that presents it is registered and the cookie is used up, the OK is queued on this
  connection and nothing on any other, and if the connection completes the registrations, then the map
  with an entry for exactly the registered connections is queued on each of them, and on no other.
\<close>

theorem fresh_cookie_works:
  assumes "process_started p pad n s0" "run_events (live_step p pad) xs s0 = Some s"
    "open_step p pad (Bytes_arrive i w) s = Some (r, s')"
    "holdings (cmanager (snd s)) i = Some (Some c)" "delivers w c = Some m" "introduction m = Some k"
    "k \<in> set (cookies (fst s))" "current_state (fst s) = Firstconnection_state"
    "firsconnection_ok_to_buffer = Inr ok"
  shows "\<exists>buf. r = Inr () \<and> cookies (fst s') = removeAll k (cookies (fst s)) \<and>
    fst ` set (workers (fst s')) = insert i (fst ` set (workers (fst s))) \<and>
    worker_info_map_to_buffer (info_map p (worker_infos (fst s'))) = Inr buf \<and>
    map fst (worker_infos (fst s')) = map fst (workers (fst s')) \<and>
    (\<forall>j d. holdings (cmanager (snd s)) j = Some (Some d) \<longrightarrow>
       (\<exists>d'. holdings (cmanager (snd s')) j = Some (Some d') \<and>
          write_queue d' = write_queue d @ map (message_buffers pad)
            ((if j = i then [ok] else []) @
             (if length (workers (fst s')) = n \<and> j \<in> fst ` set (workers (fst s')) then [buf] else []))))"
proof -
  obtain co sv where s: "s = (co, sv)" by (rule prod.exhaust)
  note start = started_inv [OF assms(1)]
  obtain regs where inv: "proc_inv p pad n (cookies (fst s0)) regs (co, sv)"
    using open_run_inv [OF start assms(2)] by (auto simp: s)
  have c: "holdings (cmanager sv) i = Some (Some c)" using assms(4) by (simp add: s)
  have env: "platform_ok p" "length pad = 3" using start(1) by (simp_all add: setting_def)
  have ok: "ok = [1]" using assms(9) unfolding ok_buffer by simp
  obtain res rest where read: "complete_read (coordinator_layer p pad i co) w c = Some (res, rest)"
      and after: "after_message p pad i c res (co, sv) = (r, s')"
    using assms(3) c by (auto simp: s conn_step_def)
  let ?is = "reg_ids (regs @ [(i, k)])"
  let ?buf = "startup_buffer p ?is"
  from cookie_step [OF start(1) inv c read assms(5,6), of ?is] assms(7,8) obtain co' c' where
    co': "co_inv p n (cookies (fst s0)) (regs @ [(i, k)]) co'"
    and queue: "write_queue c' = write_queue c @ map (message_buffers pad) ([1] # (if length ?is < n then [] else [?buf]))"
    and res: "after_message p pad i c res (co, sv) = (Inr (), (co', if length ?is < n then put_conn i c' sv
      else (queue_on pad (set ?is - {i}) ?buf (put_conn i c' sv))\<lparr>acceptor_open := False\<rparr>))"
    by (auto simp: s)
  have s': "r = Inr ()" "fst s' = co'" "snd s' = (if length ?is < n then put_conn i c' sv
      else (queue_on pad (set ?is - {i}) ?buf (put_conn i c' sv))\<lparr>acceptor_open := False\<rparr>)"
    using res after by auto
  have w: "workers co' = reg_workers (regs @ [(i, k)])" "worker_infos co' = reg_infos p (regs @ [(i, k)])"
      "length (workers co') = length ?is" "length ?is \<le> n"
    using co' by (simp_all add: co_inv_def reg_workers_def)
  have ids: "map fst (workers co') = ?is" "map fst (worker_infos co') = ?is"
    by (simp_all add: w(1,2) reg_workers_def reg_infos_def comp_def)
  from ids(1) have "set (map fst (workers co')) = set ?is" by simp
  then have keys: "fst ` set (workers co') = insert i (fst ` set regs)" by simp
  have "list_all id_ok (i # reg_ids regs)"
    using registered_id_ok [OF inv] holds_onlyD(2) [OF _ c] inv by (auto simp: proc_inv_def)
  then have "list_all id_ok ?is" by (auto simp: reg_ids_snoc)
  from startup_buffer_facts(1) [OF env(1) reg_ids_set(2) this w(2) [unfolded reg_infos_def]]
  have buf: "worker_info_map_to_buffer (info_map p (worker_infos co')) = Inr ?buf" .
  have old: "fst ` set (workers co) = fst ` set regs" "cookies co = filter (\<lambda>c. c \<notin> snd ` set regs) (cookies (fst s0))"
    using inv by (auto simp: proc_inv_def co_inv_def reg_workers_def image_image)
  have cs: "cookies co' = removeAll k (cookies co)"
    using co' by (auto simp: co_inv_def old(2) removeAll_filter_not_eq intro!: filter_cong)
  have conns: "\<exists>d'. holdings (cmanager (snd s')) j = Some (Some d') \<and>
      write_queue d' = write_queue d @ map (message_buffers pad)
        ((if j = i then [ok] else []) @
         (if length (workers (fst s')) = n \<and> j \<in> fst ` set (workers (fst s')) then [?buf] else []))"
    if d: "holdings (cmanager sv) j = Some (Some d)" for j d
  proof (cases "length ?is < n")
    case True
    with c d queue w(3) show ?thesis by (auto simp: s'(2,3) put_conn_def ok)
  next
    case False
    with w(4) have full: "length ?is = n" by simp
    let ?d = "if j = i then c' else d"
    have "holdings (cmanager (put_conn i c' sv)) j = Some (Some ?d)" using d by (simp add: put_conn_def)
    from queue_on_held [OF env(2) this, of "set ?is - {i}" ?buf] obtain d' where
      d': "holdings (cmanager (queue_on pad (set ?is - {i}) ?buf (put_conn i c' sv))) j = Some (Some d')"
        "write_queue d' = write_queue ?d @ (if j \<in> set ?is - {i} then [message_buffers pad ?buf] else [])"
      by blast
    have "holdings (cmanager (snd s')) j = Some (Some d')" using d'(1) full by (simp add: s'(3))
    moreover have "j \<in> set ?is \<longleftrightarrow> j \<in> fst ` set (workers co')" using keys by simp
    ultimately show ?thesis using d'(2) queue c d full w(3) keys by (cases "j = i") (auto simp: s'(2) ok)
  qed
  show ?thesis
    by (rule exI [of _ ?buf]) (use s'(1) cs keys old(1) buf ids conns in \<open>simp add: s s'(2)\<close>)
qed


text \<open>An example: the first worker presents its cookie in two reads.\<close>

definition demo_intro :: "byte list" where
  "demo_intro = 0 # cookie_data (demo_cookie 0)"

lemma demo_intro_facts:
  "introduction demo_intro = Some (demo_cookie 0)" "fits demo_intro" "length demo_intro < 2 ^ 32"
  by (simp_all add: demo_intro_def demo_cookie_def introduction_def fits_def data_len_def connection_buffer_size_def)

lemma reads_whole_message:
  assumes "reads_ok pad c w [m] True" "fits m"
  shows "delivers m c = Some m" "\<exists>res. complete_read up m c = Some res"
proof -
  have r: "reading c = Payload_read (length m) (length m)" "is_open c" "length (receive_buffer c) = connection_buffer_size"
    using assms by (simp_all add: reads_ok_def fits_def min_absorb1)
  with assms(2) show "delivers m c = Some m"
    by (simp add: delivers_def write_at_def fits_def)
  show "\<exists>res. complete_read up m c = Some res" by (simp add: complete_read_def r(1))
qed

theorem fresh_cookie_works_witness:
  "\<exists>s0 s r s' c'. process_started demo_platform [0, 0, 0] 2 s0 \<and>
    run_events (live_step demo_platform [0, 0, 0]) [Peer_connects (''peer'', 1),
      Bytes_arrive 0 (frame [0, 0, 0] demo_intro)] s0 = Some s \<and>
    open_step demo_platform [0, 0, 0] (Bytes_arrive 0 demo_intro) s = Some (Inr r, s') \<and>
    cookies (fst s') = removeAll (demo_cookie 0) (cookies (fst s)) \<and>
    0 \<in> fst ` set (workers (fst s')) \<and>
    holdings (cmanager (snd s')) 0 = Some (Some c') \<and> write_queue c' \<noteq> []"
proof -
  let ?pad = "[0, 0, 0] :: byte list" and ?run = "run_events (live_step demo_platform [0, 0, 0])"
  let ?c = "started Server_connection (peer_text (''peer'', 1))"
  obtain s0 co sv where s: "process_started demo_platform ?pad 2 s0"
      "?run [Peer_connects (''peer'', 1)] s0 = Some (co, sv)"
      "holdings (cmanager sv) 0 = Some (Some ?c)" "cookies co = [demo_cookie 0, demo_cookie 1]"
      "current_state co = Firstconnection_state"
    using demo_process by auto
  have "reads_ok ?pad ?c (frame ?pad demo_intro) [demo_intro] False"
    using demo_intro_facts(3) by (simp add: reads_ok_def plain_class_def started_def constructs
        new_connection_state_def do_receive_message_def)
  from read_header [OF _ this, of "coordinator_layer demo_platform ?pad 0 co"] obtain c1 w1 where
    c1: "complete_read (coordinator_layer demo_platform ?pad 0 co) (frame ?pad demo_intro) ?c = Some ((Inr (), c1), w1)"
      "reads_ok ?pad c1 w1 [demo_intro] True" "received c1 = received ?c" by auto
  let ?sv = "put_conn 0 c1 sv"
  have "open_step demo_platform ?pad (Bytes_arrive 0 (frame ?pad demo_intro)) (co, sv) = Some (Inr (), (co, ?sv))"
    using c1(1,3) s(3) by (simp add: conn_step_def after_message_put delivered_def new_calls_def)
  then have run: "?run [Peer_connects (''peer'', 1), Bytes_arrive 0 (frame ?pad demo_intro)] s0 = Some (co, ?sv)"
    using s(2) by (auto simp: live_step_def bind_eq_Some_conv)
  have held: "holdings (cmanager (snd (co, ?sv))) 0 = Some (Some c1)" by (simp add: put_conn_def)
  note whole = reads_whole_message [OF c1(2) demo_intro_facts(2)]
  obtain res where "complete_read (coordinator_layer demo_platform ?pad 0 co) demo_intro c1 = Some res"
    using whole(2) by blast
  with held have "open_step demo_platform ?pad (Bytes_arrive 0 demo_intro) (co, ?sv) =
      Some (after_message demo_platform ?pad 0 c1 (fst res) (co, ?sv))"
    by (simp add: conn_step_def)
  then obtain r s' where r: "open_step demo_platform ?pad (Bytes_arrive 0 demo_intro) (co, ?sv) = Some (r, s')"
    by (metis prod.exhaust)
  from fresh_cookie_works [OF s(1) run r held whole(1) demo_intro_facts(1) _ _ ok_buffer] s(4,5) held
  have "r = Inr () \<and> cookies (fst s') = removeAll (demo_cookie 0) (cookies co) \<and>
      0 \<in> fst ` set (workers (fst s')) \<and>
      (\<exists>c'. holdings (cmanager (snd s')) 0 = Some (Some c') \<and> write_queue c' \<noteq> [])"
    by fastforce
  with s(1) run r show ?thesis by (metis fst_conv)
qed

end
