(* ===== verification/Event_Loop.thy ===== *)
theory Event_Loop
  imports Open_Safety
begin

text \<open>
  The event loop of a process (src/network/io_loop.cpp): \<open>main_loop\<close> runs the handlers of completed
  operations one at a time, until no operation is outstanding or a handler throws, and then the
  exception leaves the loop. Which operation completes next is up to the network and the library: a
  parameter, which can depend on the state and on how many completions there have been.
\<close>

partial_function (option) main_loop ::
  "('e \<Rightarrow> 's \<Rightarrow> (unit res \<times> 's) option) \<Rightarrow> (nat \<Rightarrow> 's \<Rightarrow> 'e option) \<Rightarrow> nat \<Rightarrow> 's \<Rightarrow> (unit res \<times> 's) option" where
  "main_loop handle next_event k s =
     (case next_event k s of
        None \<Rightarrow> Some (Inr (), s)
      | Some e \<Rightarrow>
          (case handle e s of
             None \<Rightarrow> main_loop handle next_event (Suc k) s
           | Some (Inl err, s') \<Rightarrow> Some (Inl err, s')
           | Some (Inr _, s') \<Rightarrow> main_loop handle next_event (Suc k) s'))"

text \<open>A loop in which finitely many operations complete returns.\<close>

lemma main_loop_returns:
  assumes "\<And>k s. N \<le> k \<Longrightarrow> next_event k s = None"
  shows "\<exists>r s'. main_loop handle next_event k s = Some (r, s')"
proof (induction "N - k" arbitrary: k s)
  case 0
  then have "N \<le> k" by simp
  from assms [OF this] show ?case by (simp add: main_loop.simps)
next
  case (Suc m)
  then have "m = N - Suc k" by simp
  note next_one = Suc.hyps(1) [OF this]
  show ?case
    using next_one by (subst main_loop.simps) (auto split: option.split sum.split)
qed

text \<open>What a loop ends with is the state after a sequence of handlers, and an exception is one of a handler.\<close>

lemma main_loop_run:
  assumes "main_loop handle next_event k s = Some (r, s')"
  shows "\<exists>es t. run_events (\<lambda>e s. survives (handle e s)) es s = Some t \<and>
    (r = Inr () \<and> t = s' \<or> (\<exists>j e. next_event j t = Some e \<and> handle e t = Some (r, s') \<and> r \<noteq> Inr ()))"
proof -
  have "main_loop handle next_event k s = Some rs \<Longrightarrow> \<exists>es t. run_events (\<lambda>e s. survives (handle e s)) es s = Some t \<and>
    (fst rs = Inr () \<and> t = snd rs \<or> (\<exists>j e. next_event j t = Some e \<and> handle e t = Some rs \<and> fst rs \<noteq> Inr ()))" for rs
  proof (induction rule: main_loop.raw_induct [rotated 1, consumes 1, case_names step])
    case (step loop handle next_event k s rs)
    show ?case
    proof (cases "next_event k s")
      case None
      with step(2) show ?thesis by (intro exI [of _ "[]"]) auto
    next
      case (Some e)
      show ?thesis
      proof (cases "handle e s")
        case None
        with Some step(2) have "loop handle next_event (Suc k) s = Some rs" by simp
        from step(1) [OF this] show ?thesis .
      next
        case end_now: (Some rt)
        obtain v t where rt: "rt = (v, t)" by (rule prod.exhaust)
        show ?thesis
        proof (cases v)
          case (Inl err)
          with Some end_now rt step(2) show ?thesis by (intro exI [of _ "[]"] exI [of _ s]) auto
        next
          case (Inr u)
          with Some end_now rt step(2) have "loop handle next_event (Suc k) t = Some rs" by simp
          from step(1) [OF this] obtain es t' where t': "run_events (\<lambda>e s. survives (handle e s)) es t = Some t'"
              "fst rs = Inr () \<and> t' = snd rs \<or> (\<exists>j e. next_event j t' = Some e \<and> handle e t' = Some rs \<and> fst rs \<noteq> Inr ())"
            by blast
          then have "run_events (\<lambda>e s. survives (handle e s)) (e # es) s = Some t'"
            using end_now rt Inr by simp
          with t'(2) show ?thesis by blast
        qed
      qed
    qed
  qed
  from this [of "(r, s')"] assms show ?thesis by simp
qed

text \<open>
  The event loop of the coordinator ends with an exception only if the next input of a reachable state
  is one that ends the process; with finitely many inputs of other kinds it ends without one.
\<close>

lemma coordinator_loop:
  assumes "process_started p pad n s0" "main_loop (open_step p pad) next_event 0 s0 = Some (Inl e, s')"
  shows "\<exists>xs s j x. run_events (live_step p pad) xs s0 = Some s \<and> next_event j s = Some x \<and> provokes x s"
proof -
  have live: "(\<lambda>x s. survives (open_step p pad x s)) = live_step p pad" by (simp add: fun_eq_iff live_step_def)
  from main_loop_run [OF assms(2)] obtain xs s j x where
    "run_events (live_step p pad) xs s0 = Some s" "next_event j s = Some x" "open_step p pad x s = Some (Inl e, s')"
    by (auto simp: live)
  moreover note start = started_inv [OF assms(1)]
  ultimately show ?thesis
    using open_run_inv [OF start] open_step_inv [OF start(1)] by (metis Inl_Inr_False)
qed

lemma coordinator_loop_ends:
  assumes "process_started p pad n s0" "\<And>k s. N \<le> k \<Longrightarrow> next_event k s = None"
    "\<And>k s x. next_event k s = Some x \<Longrightarrow> \<not> provokes x s"
  shows "\<exists>s'. main_loop (open_step p pad) next_event 0 s0 = Some (Inr (), s')"
proof -
  obtain r s' where r: "main_loop (open_step p pad) next_event 0 s0 = Some (r, s')"
    using main_loop_returns [of N next_event "open_step p pad" 0 s0] assms(2) by blast
  show ?thesis
  proof (cases r)
    case (Inl e)
    with r coordinator_loop [OF assms(1)] assms(3) show ?thesis by blast
  qed (use r in auto)
qed

end
