(* ===== verification/Spec2Isabelle.thy ===== *)
theory Spec2Isabelle
  imports Prelude Format_Text String_Tools Net_Utils Host_File Archives Serialization Gsl_Span
    Message_Protocol Runtime_Protocol Id_Supply Function_Objects Executions Queue_Contract
    Lock_Free_Channel Channel_Races Lock_Queues Log_Levels Async_Logging Connections Heartbeat_Timing
    Conn_Managers Behavior Coordinator_Worker Counted_Runs Deployment Frame_Streams
    Startup_Steps Startup_Progress Startup_Runs Missing_Workers Serializer_Overloads Program_Main
    Open_Network Open_Registration Open_Coordinator Open_Safety Open_Cookies Event_Loop
begin

text \<open>
  A model of thallium, a runtime for distributed C++ programs. A coordinator process starts worker
  processes, which connect to it over TCP, register with a cookie and are told about each other;
  functions are then called on remote places by sending serialized arguments. All paths below
  are relative to src/ of the repository.

  \<^bold>\<open>Parts and their theories\<close>

  \<^item> Prelude: exceptions as values (type \<open>error\<close>, results \<open>error + 'a\<close>, sequencing \<open>rbind\<close>; actions on a
    state, \<open>sbind\<close>) and the parts of the C++ library that several parts use. Id_Supply,
    Queue_Contract and Counted_Runs: the interfaces (below).
  \<^item> Format_Text, String_Tools (include/common.hpp, src/common.cpp): \<open>format\<close> as its two mutually
    recursive templates, and trimming, joining and splitting on positions, as the code has them,
    proved equal to reference definitions on lists.
  \<^item> Net_Utils (src/network/network_utils.cpp, src/thallium.cpp, src/context.cpp), Host_File
    (src/coordinator.cpp): the checks of host names and ports, the environment variables, the
    host file.
  \<^item> Gsl_Span (src/gsl/span.hpp): views as an offset and a length.
  \<^item> Archives, Serialization (include/serialize.hpp, src/serialize.cpp): the cursors of the four
    archives, and \<open>save\<close>, \<open>load\<close> and \<open>real_size\<close> by recursion on the type of the object (\<open>ty\<close>),
    which the code has at compile time. Serializer_Overloads: the overloads of \<open><<\<close> and \<open>>>\<close> one by
    one, which of them is called for a type, and that \<open>save\<close> and \<open>load\<close> are what they compute together.
  \<^item> Message_Protocol (src/network/protocol.{hpp,cpp}): headers, buffers, \<open>build\<close> and \<open>cast\<close>.
    Runtime_Protocol (src/runtime_protocol.{hpp,cpp}, src/worker.hpp): cookies, worker information
    and the messages of the runtime.
  \<^item> Function_Objects (include/function_object.hpp, src/function_object.cpp): boxed values as
    addresses of a heap, function objects, the registry. Executions (include/thallium.hpp,
    src/thallium.cpp): the hub, finish blocks and both ways of submitting a call. Program_Main
    (include/exception.hpp, include/utils.hpp, include/thallium.hpp): raising, uncaught exceptions,
    \<open>TI_MAIN\<close>, singletons and joined threads.
  \<^item> Lock_Free_Channel, Lock_Queues (include/concurrent.hpp): the queues as functions, and as step
    relations between threads: one producer and one consumer of the channel, where a load of the
    other side's index may return an old value; any number of threads of the locked queue, with
    its mutex and condition variable. Channel_Races: the memory orders of the channel, with a vector
    clock for each of the two threads.
  \<^item> Log_Levels, Async_Logging (src/logging.{hpp,cpp}): the level filter, records, the logger and its
    daemon, interleaved with log calls and \<open>stop\<close>.
  \<^item> Connections (src/network/connection.{hpp,cpp}, src/network/heartbeat.cpp): the four classes of
    connections as handlers on one record. Heartbeat_Timing: these handlers under a clock, with the
    timers of the heartbeats. Conn_Managers (src/network/connection.hpp,
    client.{hpp,cpp}, server.{hpp,cpp}): connection manager, clients and server, with
    the socket addresses of asio_type_wrapper.{hpp,cpp}.
  \<^item> Behavior (src/network/behavior.{hpp,cpp}), Coordinator_Worker (src/coordinator.cpp,
    include/coordinator.hpp, src/place.hpp): models as state machines, the coordinator and the
    worker. The record \<open>machine\<close> holds the current state and the calls made so far.
  \<^item> Deployment: \<open>RunServer\<close> and \<open>RunClient\<close>, and the whole system: one coordinator and \<open>n\<close> workers,
    with a stream of bytes in each direction of every connection. A step (\<open>net_step\<close>) is one handler of
    one event loop, a run any sequence of steps. Frame_Streams, Startup_Steps, Startup_Progress,
    Startup_Runs and Missing_Workers hold the proofs about it.
  \<^item> Open_Network: the coordinator process alone among peers that may connect at any time, send any bytes
    and fail in any way; an input (\<open>net_input\<close>) is the completion of one operation, with its error and
    the number of bytes, and \<open>open_step\<close> the handler that runs. Open_Registration holds the
    coordinator's side of the invariant, Open_Coordinator the server's, Open_Safety and Open_Cookies the
    properties. Event_Loop (src/network/io_loop.cpp): the loop that runs these handlers.

  A definition has the name of the function it models, or that name with a prefix where several
  classes have it. A function that can throw returns a result; a member function is an action on
  the record of its object, which keeps the changes made before an exception. An
  \<open>unordered_map\<close> is a map, or an association list where the code iterates over it; the order of
  iteration is a parameter. A \<open>char\<close> of a buffer is a byte, a counter or length of fixed width a
  word or a number with its bound as a hypothesis.

  \<^bold>\<open>What is shown\<close>

  \<^item> The start-up over the network (startup_never_stuck, startup_outcome, startup_safe): for any number
    of workers below \<open>2 ^ 28\<close> and in every order of the handlers nothing throws and every run ends after
    exactly twelve handlers per worker. With up to 584 workers every worker has then got the OK and
    the map; with more the map is longer than the receive buffer and no worker gets it
    (startup_limit, in this theory, on one connection). A connection that registers twice blocks the
    start-up (double_registration_blocks), and so does a worker that never runs
    (missing_workers_block).
  \<^item> The coordinator in an open network: which inputs end it (coordinator_throws_iff; the event loop then
    ends with the exception, coordinator_loop), that nothing is sent to a peer without a cookie
    (cookies_protect), that an unused cookie works whatever strangers do (fresh_cookie_works), and that
    the coordinator of Deployment is the same process (deployment_is_open).
  \<^item> Connections: a stream of frames is delivered complete and in order; messages sent one at a time
    arrive, of a burst only the first and the last; what closes a connection, with which event;
    nothing is delivered after that. Heartbeats: what is delivered and when a timeout is reported, to the
    millisecond (checker_exact), and how late heartbeats may be (heartbeats_keep_alive).
  \<^item> Data: round trips of the serializer, of \<open>build\<close> and \<open>cast\<close>, of cookies and of all messages;
    wrong types and truncated input are rejected; whatever is read is well-typed; the overloads are
    unambiguous and determine what is written and read (overloads_determine).
  \<^item> Concurrency: the lock-free channel refines a bounded queue; its consumer has a data race with every
    element (channel_races); the locked queue excludes concurrent access and loses no wake-up; the
    logger loses no record and its daemon ends.
  \<^item> Calls: a remote call equals the local call; the registry; finish blocks wait for everything
    submitted in them, also when their body throws; how a program ends (block_main_ends).

  \<^bold>\<open>Interfaces\<close>

  The locales \<open>save_archive\<close> and \<open>load_archive\<close> state what the serializer needs of an archive; they are
  interpreted on the string archives and on the fixed-size archives. \<open>hash_key\<close>: what a cookie must
  satisfy as a key. \<open>id_supply\<close>: fresh ids, interpreted on the generators of function ids,
  execution ids and connection ids. \<open>bounded_queue\<close> and \<open>unbounded_queue\<close>: first in, first out,
  interpreted on the three queues. \<open>counted_system\<close>: runs whose steps count up to a bound,
  interpreted on the start-up.

  \<^bold>\<open>Bounds and fuel\<close>

  The functions \<open>feed\<close> and \<open>drain\<close> complete a given number of reads or writes; two reads per message
  and one per heartbeat, and one write per queued message, are enough, and the theorems name the
  number. \<open>daemon_run\<close> takes the daemon's steps one by one; two more than there are records in the queue
  end it. Sizes stay below \<open>2 ^ 63\<close> bytes, ids below \<open>2 ^ 31\<close> or \<open>2 ^ 32\<close>, as hypotheses; a map of
  \<open>n\<close> workers takes \<open>9 + 14 n\<close> bytes, and the receive buffer has 8192, hence 584.

  Heartbeats: the interval is 2, the timeout 4 and the first timeout 6 milliseconds, as the code sets
  them.

  \<^bold>\<open>Not modelled\<close>

  boost::asio, its timers and the sockets (their operations are parameters, and a completion is a call
  of the handler), the creation of the event loop and signals, the text of a stack trace, static assertions,
  and the members of spans and of void function objects that cannot be instantiated. In
  Lock_Free_Channel a load may return an old index, but the accesses to the slots are not reordered;
  Channel_Races shows which of them the memory orders leave unordered, and where there is such a race
  C++ promises nothing. In Heartbeat_Timing the reads of a frame complete at the time the frame
  arrives, and a heartbeat is written before the next one is due. In the system of Deployment the
  network loses no bytes and delivers them in order, and connections are plain, as the coordinator
  uses them; reads and writes that fail are inputs of Open_Network, where nothing is assumed of the
  peers and nothing is claimed about when an input comes. Both use connections without heartbeats.
\<close>

section \<open>The start-up over the wire\<close>

text \<open>An OK and a map, sent one right after the other to a worker that has just connected.\<close>

lemma ok_and_map_sent:
  assumes "idle c" "length pad = 3"
  shows "\<exists>c1. send_all pad [ok, buf] c = (Inr (), c1) \<and>
    drain 2 up c1 = (packet_bytes pad (Message ok) @ packet_bytes pad (Message buf), Inr (), c)"
  using drain_burst [OF assms, of ok "[buf]" up]
  by (simp add: numeral_2_eq_2 del: packet_bytes.simps send_all.simps drain.simps)

text \<open>
  The end of the start-up, from the coordinator's table to the worker, over the connection: the
  OK and the map of \<open>n\<close> workers, sent at once, both reach the worker if \<open>n\<close> is at most 584, and the
  worker then disconnects and stops. With 585 workers or more the map is longer than the receive
  buffer: the worker gets the OK only, its connection is closed without an event, and it waits
  for the map for ever.
\<close>

theorem startup_limit:
  assumes "platform_ok p" "distinct is" "list_all id_ok is" "length is < 2 ^ 28"
    and "infos = map (\<lambda>i. (i, default_worker_info x)) is"
    and "worker_info_map_to_buffer (info_map p infos) = Inr buf" "firsconnection_ok_to_buffer = Inr ok"
    and "idle c" "ready d" "received d = []" "length pad = 3" "\<And>m. harmless (on_receive up' m)"
    and "current_state w = Firstconnection_ok_state"
  shows "\<exists>c1 wire rest d' w'. send_all pad [ok, buf] c = (Inr (), c1) \<and>
    drain 2 up c1 = (wire, Inr (), c) \<and> feed 4 up' wire d = (Inr rest, d') \<and> events d' = events d \<and>
    receive_all (worker_handlers p) (map (Pair 0) (received d')) w = (Inr (), w') \<and>
    (if length is \<le> 584
     then received d' = [ok, buf] \<and> is_open d' \<and> calls w' = calls w @ [Call_disconnect 0, Call_stop]
     else received d' = [ok] \<and> \<not> is_open d' \<and> reading d' = No_read \<and> calls w' = calls w \<and>
       current_state w' = Recv_worker_info_state)"
proof -
  note map = info_map_default [OF assms(1-3,5)]
  have len: "length buf = 9 + 14 * length is" by (rule startup_map_length [OF assms(1-3,5,6)])
  have ok: "ok = [1]" by (rule sum.inject(2) [THEN iffD1, OF trans [OF assms(7) [symmetric] ok_buffer]])
  have "size_limits (max_size p)" using assms(1) by (simp add: platform_ok_def)
  then have "worker_info_map_from_buffer (max_size p) buf = Inr (info_map p infos)"
    using map_buffer_read [OF _ map(2)] map_buffer [OF map(2)] assms(6) by simp
  note worker = assms(13) this machine_defs firstconnection_ok_def assert_message_type_Cons
    recv_worker_info_def format_peers sbind_def Let_def ok
  obtain c1 where s: "send_all pad [ok, buf] c = (Inr (), c1)"
      "drain 2 up c1 = (packet_bytes pad (Message ok) @ packet_bytes pad (Message buf), Inr (), c)"
    using ok_and_map_sent [OF assms(8,11)] by blast
  have "length ok \<le> connection_buffer_size" by (simp add: ok connection_buffer_size_def)
  from feed_message [OF assms(9,12,11) this, of 2 "packet_bytes pad (Message buf)"] obtain d1 where
      d1: "feed 4 up' (packet_bytes pad (Message ok) @ packet_bytes pad (Message buf)) d =
        feed 2 up' (packet_bytes pad (Message buf)) d1"
      "ready d1" "received d1 = [ok]" "events d1 = events d"
    using assms(10) by (auto simp: eval_nat_numeral simp del: packet_bytes.simps feed.simps)
  show ?thesis
  proof (cases "length is \<le> 584")
    case True
    then have "length buf \<le> connection_buffer_size" by (simp add: len connection_buffer_size_def)
    from feed_message [OF d1(2) assms(12,11) this, of 0 "[]"] d1(3,4) obtain d' where
        "feed 2 up' (packet_bytes pad (Message buf)) d1 = (Inr [], d')" "ready d'"
        "received d' = [ok, buf]" "events d' = events d"
      by (auto simp: numeral_2_eq_2 simp del: packet_bytes.simps feed.simps(2))
    moreover have "\<exists>w'. receive_all (worker_handlers p) (map (Pair 0) [ok, buf]) w = (Inr (), w') \<and>
        calls w' = calls w @ [Call_disconnect 0, Call_stop]"
      by (simp add: worker)
    ultimately show ?thesis using True s d1(1)
      by (auto simp: ready_def simp del: packet_bytes.simps feed.simps drain.simps send_all.simps receive_all.simps)
  next
    case False
    then have "connection_buffer_size < length buf" "length buf < 2 ^ 32"
      using assms(4) by (simp_all add: len connection_buffer_size_def)
    from feed_oversized [OF d1(2) assms(11) this, of up' "[]"] d1(3,4) obtain d' rest where
        "feed 2 up' (packet_bytes pad (Message buf)) d1 = (Inr rest, d')" "\<not> is_open d'"
        "reading d' = No_read" "received d' = [ok]" "events d' = events d"
      by (auto simp del: packet_bytes.simps feed.simps)
    moreover have "\<exists>w'. receive_all (worker_handlers p) (map (Pair 0) [ok]) w = (Inr (), w') \<and>
        calls w' = calls w \<and> current_state w' = Recv_worker_info_state"
      by (simp add: worker)
    ultimately show ?thesis using False s d1(1)
      by (auto simp del: packet_bytes.simps feed.simps drain.simps send_all.simps receive_all.simps)
  qed
qed

theorem startup_limit_witness:
  "\<exists>buf. worker_info_map_to_buffer (info_map demo_platform
        (map (\<lambda>i. (i, default_worker_info 3)) (map int [0..<600]))) = Inr buf \<and>
    (\<exists>c1 wire rest d'. send_all [0, 0, 0] [[1], buf] (started Server_connection ''w'') = (Inr (), c1) \<and>
      drain 2 quiet_layer c1 = (wire, Inr (), started Server_connection ''w'') \<and>
      feed 4 quiet_layer wire (started Client_connection ''c'') = (Inr rest, d') \<and> \<not> is_open d')"
proof -
  let ?is = "map int [0..<600]"
  have "list_all id_ok ?is" "distinct ?is" "length ?is < 2 ^ 28"
    by (auto simp: list_all_iff id_ok_def distinct_map)
  note h = demo_platform_ok this(2,1,3)
  from map_buffer [OF info_map_default(2) [OF h(1-3) refl]] obtain buf where
    buf: "worker_info_map_to_buffer (info_map demo_platform
        (map (\<lambda>i. (i, default_worker_info 3)) ?is)) = Inr buf" by blast
  have "received (started Client_connection ''c'') = []"
    by (simp add: started_def constructs new_connection_state_def do_receive_message_def received_def)
  from startup_limit [OF h refl buf ok_buffer idle_started ready_started(1) this, of "[0, 0, 0]" quiet_layer
      "\<lparr>current_state = Firstconnection_ok_state, calls = [], logged = [],
        fc_cookie = demo_cookie 0, own_info = demo_info\<rparr>" Server_connection "''w''" quiet_layer]
  obtain c1 wire rest d' where "send_all [0, 0, 0] [[1], buf] (started Server_connection ''w'') = (Inr (), c1)"
      "drain 2 quiet_layer c1 = (wire, Inr (), started Server_connection ''w'')"
      "feed 4 quiet_layer wire (started Client_connection ''c'') = (Inr rest, d')" "\<not> is_open d'"
    by (auto simp: quiet_layer_def harmless_skip simp del: packet_bytes.simps feed.simps drain.simps
        send_all.simps receive_all.simps)
  with buf show ?thesis by blast
qed

end
